(* ===== verification/Prelude.thy ===== *)
theory Prelude
  imports Main "HOL-Library.Word" "HOL-Library.Signed_Division"
begin

text \<open>
  Shared ground of the development: the machine integer types of \<open>kernel/types.h\<close>, the
  result type of kernel routines, the constants of \<open>kernel/param.h\<close>, the symbolic names
  of kernel objects (locks and sleep channels), and the generic lemmas the components share.

  A kernel routine returns, panics, or never comes back (it spins on a lock that no one
  releases, or recurses for ever), or runs into behaviour that C leaves undefined (an access
  outside an array, a null dereference); the type \<open>'a res\<close> has one constructor for each.
  Sequencing is \<open>bindR\<close>; \<open>foldR\<close> is a counted loop.
\<close>

unbundle bit_operations_syntax

named_theorems kernel_simps
  \<open>equations that evaluate a kernel routine on a state whose locks are free\<close>
named_theorems frame_simps
  \<open>what a routine leaves unchanged\<close>

subsection \<open>Integer types\<close>

type_synonym u8 = "8 word"
type_synonym u16 = "16 word"
type_synonym u32 = "32 word"
type_synonym u64 = "64 word"

text \<open>A C \<open>int\<close> is a 32-bit word read by \<^const>\<open>sint\<close>.\<close>

type_synonym i32 = "32 word"

definition ilt :: "i32 \<Rightarrow> i32 \<Rightarrow> bool" where
  "ilt a b \<longleftrightarrow> sint a < sint b"

lemma sint_inject: "sint (a :: i32) = sint b \<longleftrightarrow> a = b"
  by (auto dest: signed_word_eqI)

lemma sint_i32_ge: "- 2147483648 \<le> sint (n :: i32)"
  using sint_greater_eq [of n] by simp

lemma sint_i32_lt: "sint (n :: i32) < 2147483648"
  using sint_less [of n] by simp

lemma sint_i32_add:
  assumes "- 2147483648 \<le> sint a + sint (b :: i32)" and "sint a + sint b < 2147483648"
  shows "sint (a + b) = sint a + sint b"
  unfolding sint_word_ariths using assms by (intro signed_take_bit_int_eq_self) simp_all

definition idiv :: "i32 \<Rightarrow> i32 \<Rightarrow> i32" where
  "idiv a b = word_of_int (sint a sdiv sint b)"

subsection \<open>Constants of \<open>kernel/param.h\<close>\<close>

abbreviation (input) NPROC :: nat where "NPROC \<equiv> 64"
abbreviation (input) NCPU :: nat where "NCPU \<equiv> 8"
abbreviation (input) NOFILE :: nat where "NOFILE \<equiv> 16"
abbreviation (input) NFILE :: nat where "NFILE \<equiv> 100"
abbreviation (input) NINODE :: nat where "NINODE \<equiv> 50"

subsection \<open>Results of kernel routines\<close>

datatype 'a res = Ok 'a | Panic string | Spin | Undef

fun bindR :: "'a res \<Rightarrow> ('a \<Rightarrow> 'b res) \<Rightarrow> 'b res" where
  "bindR (Ok x) f = f x"
| "bindR (Panic msg) f = Panic msg"
| "bindR Spin f = Spin"
| "bindR Undef f = Undef"

lemma bindR_eq_Ok: "bindR m f = Ok y \<longleftrightarrow> (\<exists>x. m = Ok x \<and> f x = Ok y)"
  by (cases m) auto

lemma bindR_OkE:
  assumes "bindR m f = Ok y"
  obtains x where "m = Ok x" and "f x = Ok y"
  using assms by (auto simp: bindR_eq_Ok)

lemma bindR_assoc: "bindR (bindR m f) g = bindR m (\<lambda>x. bindR (f x) g)"
  by (cases m) auto

lemma bindR_cong [fundef_cong]:
  "m = m' \<Longrightarrow> (\<And>x. m' = Ok x \<Longrightarrow> f x = f' x) \<Longrightarrow> bindR m f = bindR m' f'"
  by (cases m') auto

lemma bindR_split:
  "P (bindR m f) \<longleftrightarrow>
     (\<forall>x. m = Ok x \<longrightarrow> P (f x)) \<and> (\<forall>e. m = Panic e \<longrightarrow> P (Panic e)) \<and> (m = Spin \<longrightarrow> P Spin) \<and>
     (m = Undef \<longrightarrow> P Undef)"
  by (cases m) auto

fun foldR :: "('i \<Rightarrow> 's \<Rightarrow> 's res) \<Rightarrow> 'i list \<Rightarrow> 's \<Rightarrow> 's res" where
  "foldR f [] s = Ok s"
| "foldR f (i # is) s = bindR (f i s) (foldR f is)"

lemma foldR_append: "foldR f (xs @ ys) s = bindR (foldR f xs s) (foldR f ys)"
proof (induction xs arbitrary: s)
  case (Cons a xs)
  then have "foldR f (xs @ ys) = (\<lambda>s. bindR (foldR f xs s) (foldR f ys))" by blast
  then show ?case by (simp add: bindR_assoc)
qed simp

lemma foldR_inv:
  assumes "foldR f xs s = Ok t" and "P s"
    and "\<And>i s t. i \<in> set xs \<Longrightarrow> P s \<Longrightarrow> f i s = Ok t \<Longrightarrow> P t"
  shows "P t"
  using assms by (induction xs arbitrary: s) (auto elim!: bindR_OkE)

text \<open>\<open>n\<close> turns of a loop body.\<close>

primrec turns :: "nat \<Rightarrow> ('s \<Rightarrow> 's res) \<Rightarrow> 's \<Rightarrow> 's res" where
  "turns 0 f s = Ok s"
| "turns (Suc n) f s = bindR (f s) (turns n f)"

lemma turns_Suc_end: "turns (Suc n) f s = bindR (turns n f s) f"
proof (induction n arbitrary: s)
  case 0
  show ?case by (cases "f s") simp_all
next
  case (Suc n)
  then have "turns (Suc n) f = (\<lambda>x. bindR (turns n f x) f)" by blast
  then have "turns (Suc (Suc n)) f s = bindR (f s) (\<lambda>x. bindR (turns n f x) f)"
    by (simp only: turns.simps(2) [of "Suc n"])
  then show ?case by (simp add: bindR_assoc)
qed

definition is_Ok :: "'a res \<Rightarrow> bool" where
  "is_Ok r \<longleftrightarrow> (case r of Ok _ \<Rightarrow> True | _ \<Rightarrow> False)"

lemma is_Ok_simps [simp]: "is_Ok (Ok x)" "\<not> is_Ok (Panic e)" "\<not> is_Ok Spin" "\<not> is_Ok Undef"
  by (simp_all add: is_Ok_def)

subsection \<open>Kernel objects that locks protect and processes sleep on\<close>

text \<open>
  The C code names a lock or a channel by the address of an object.  Distinct objects have
  distinct addresses, so the model names them symbolically; \<open>ChNull\<close> is the null pointer.
\<close>

datatype sleepid = SBuf nat | SInode nat

datatype lockid =
    LPid | LWait | LProc nat | LKmem | LTicks | LBcache | LItable | LFtable | LLog
  | LPipe u64 | LCons | LPr | LUartTx | LDisk | LSleep sleepid

datatype chan =
    ChNull | ChProc nat | ChTicks | ChLog | ChSleep sleepid | ChPipeR u64 | ChPipeW u64
  | ChConsR | ChUartTx | ChDiskFree | ChBuf nat

end
