(* ===== verification/Spinlock.thy ===== *)
theory Spinlock
  imports Prelude
begin

text \<open>
  \<open>kernel/spinlock.c\<close> with the per-CPU state of \<open>kernel/proc.h\<close>.  The state record
  \<open>mach\<close> holds every hart's \<open>struct cpu\<close>, its interrupt-enable bit and all spin locks;
  \<open>tp\<close> is the hart that executes.  Later theories extend the record, so every routine
  here is usable on the whole kernel state.  The last part is the interleaving semantics of
  \<open>acquire\<close> and \<open>release\<close> on several harts.
\<close>

section \<open>State\<close>

text \<open>\<open>noff\<close> is the depth of nesting as a number.  The counter of the code is an \<open>int\<close>; the two
  agree as long as the depth stays below \<open>2 ^ 31\<close>.\<close>

record cpu =
  cproc :: "nat option"
  noff :: int
  intena :: bool

record spinlock =
  lname :: string
  locked :: bool
  lcpu :: "nat option"

record mach =
  cpus :: "nat \<Rightarrow> cpu"
  sie :: "nat \<Rightarrow> bool"
  tp :: nat
  locks :: "lockid \<Rightarrow> spinlock"

definition intr_get :: "'a mach_scheme \<Rightarrow> bool" where
  "intr_get s = sie s (tp s)"

definition intr_on :: "'a mach_scheme \<Rightarrow> 'a mach_scheme" where
  "intr_on s = s\<lparr>sie := (sie s)(tp s := True)\<rparr>"

definition intr_off :: "'a mach_scheme \<Rightarrow> 'a mach_scheme" where
  "intr_off s = s\<lparr>sie := (sie s)(tp s := False)\<rparr>"

definition cpuid :: "'a mach_scheme \<Rightarrow> nat" where
  "cpuid s = tp s"

definition mycpu :: "'a mach_scheme \<Rightarrow> cpu" where
  "mycpu s = cpus s (cpuid s)"

definition set_mycpu :: "(cpu \<Rightarrow> cpu) \<Rightarrow> 'a mach_scheme \<Rightarrow> 'a mach_scheme" where
  "set_mycpu f s = s\<lparr>cpus := (cpus s)(cpuid s := f (mycpu s))\<rparr>"

section \<open>Operations\<close>

definition initlock :: "lockid \<Rightarrow> string \<Rightarrow> 'a mach_scheme \<Rightarrow> 'a mach_scheme" where
  "initlock l nm s = s\<lparr>locks := (locks s)(l := \<lparr>lname = nm, locked = False, lcpu = None\<rparr>)\<rparr>"

definition holding :: "lockid \<Rightarrow> 'a mach_scheme \<Rightarrow> bool" where
  "holding l s \<longleftrightarrow> locked (locks s l) \<and> lcpu (locks s l) = Some (cpuid s)"

definition push_off :: "'a mach_scheme \<Rightarrow> 'a mach_scheme" where
  "push_off s =
     (let old = intr_get s;
          s1 = intr_off s;
          s2 = (if noff (mycpu s1) = 0 then set_mycpu (\<lambda>c. c\<lparr>intena := old\<rparr>) s1 else s1)
      in set_mycpu (\<lambda>c. c\<lparr>noff := noff c + 1\<rparr>) s2)"

definition pop_off :: "'a mach_scheme \<Rightarrow> 'a mach_scheme res" where
  "pop_off s =
     (if intr_get s then Panic ''pop_off - interruptible''
      else if noff (mycpu s) < 1 then Panic ''pop_off''
      else let s1 = set_mycpu (\<lambda>c. c\<lparr>noff := noff c - 1\<rparr>) s
           in Ok (if noff (mycpu s1) = 0 \<and> intena (mycpu s1) then intr_on s1 else s1))"

text \<open>
  \<open>acquire\<close>: the atomic swap loop returns at once when the lock word is 0 and otherwise
  spins; with no other hart stepping, spinning does not end.
\<close>

definition acquire :: "lockid \<Rightarrow> 'a mach_scheme \<Rightarrow> 'a mach_scheme res" where
  "acquire l s =
     (let s1 = push_off s
      in if holding l s1 then Panic ''acquire''
         else if locked (locks s1 l) then Spin
         else Ok (s1\<lparr>locks := (locks s1)(l := (locks s1 l)\<lparr>locked := True,
                                                        lcpu := Some (cpuid s1)\<rparr>)\<rparr>))"

definition release :: "lockid \<Rightarrow> 'a mach_scheme \<Rightarrow> 'a mach_scheme res" where
  "release l s =
     (if \<not> holding l s then Panic ''release''
      else pop_off (s\<lparr>locks := (locks s)(l := (locks s l)\<lparr>lcpu := None, locked := False\<rparr>)\<rparr>))"

section \<open>Interrupt nesting\<close>

text \<open>The invariant of one hart: the depth is not negative, and interrupts are off inside.\<close>

definition cpu_ok :: "'a mach_scheme \<Rightarrow> bool" where
  "cpu_ok s \<longleftrightarrow> 0 \<le> noff (mycpu s) \<and> (0 < noff (mycpu s) \<longrightarrow> \<not> intr_get s)"

text \<open>
  \<open>intena\<close> is only meaningful while \<open>noff > 0\<close>: a balanced pair at depth 0 leaves in it
  the interrupt state found.  \<open>settle\<close> is that remainder.
\<close>

definition settle :: "'a mach_scheme \<Rightarrow> 'a mach_scheme" where
  "settle s = s\<lparr>cpus := (cpus s)(tp s := (cpus s (tp s))
      \<lparr>intena := (if noff (cpus s (tp s)) = 0 then sie s (tp s) else intena (cpus s (tp s)))\<rparr>)\<rparr>"

lemmas mach_defs = intr_get_def intr_on_def intr_off_def cpuid_def mycpu_def set_mycpu_def

lemma cpu_ok_push_off: "cpu_ok s \<Longrightarrow> cpu_ok (push_off s)"
  by (simp add: cpu_ok_def push_off_def mach_defs Let_def)

lemma noff_push_off: "noff (mycpu (push_off s)) = noff (mycpu s) + 1"
  by (simp add: push_off_def mach_defs Let_def)

lemma cpu_ok_pop_off: "cpu_ok s \<Longrightarrow> pop_off s = Ok t \<Longrightarrow> cpu_ok t"
  by (auto simp: cpu_ok_def pop_off_def mach_defs Let_def split: if_splits)

lemma pop_push_off: "cpu_ok s \<Longrightarrow> pop_off (push_off s) = Ok (settle s)"
  by (auto simp: cpu_ok_def push_off_def pop_off_def settle_def mach_defs Let_def
      fun_upd_idem intro!: mach.equality)

lemma settle_simps [simp]:
  "sie (settle s) = sie s" "tp (settle s) = tp s" "locks (settle s) = locks s"
  "mach.more (settle s) = mach.more s" "noff (mycpu (settle s)) = noff (mycpu s)"
  "cproc (mycpu (settle s)) = cproc (mycpu s)" "intr_get (settle s) = intr_get s"
  by (simp_all add: settle_def mach_defs)

lemma cpu_ok_settle [simp]: "cpu_ok (settle s) = cpu_ok s"
  by (simp add: cpu_ok_def)

lemma settle_idem [simp]: "settle (settle s) = settle s"
  by (simp add: settle_def)

lemma settle_nested: "noff (mycpu s) \<noteq> 0 \<Longrightarrow> settle s = s"
  by (simp add: settle_def mach_defs fun_upd_idem)

section \<open>Balanced use of a lock\<close>

text \<open>A lock in its initial state, as \<open>initlock\<close> and \<open>release\<close> leave it.\<close>

definition lock_free :: "lockid \<Rightarrow> 'a mach_scheme \<Rightarrow> bool" where
  "lock_free l s \<longleftrightarrow> \<not> locked (locks s l) \<and> lcpu (locks s l) = None"

text \<open>The state right after a successful \<open>acquire\<close>, as one record update.\<close>

definition grab :: "lockid \<Rightarrow> 'a mach_scheme \<Rightarrow> 'a mach_scheme" where
  "grab l s = s\<lparr>
     cpus := (cpus s)(tp s := (cpus s (tp s))
       \<lparr>noff := noff (cpus s (tp s)) + 1,
        intena := (if noff (cpus s (tp s)) = 0 then sie s (tp s) else intena (cpus s (tp s)))\<rparr>),
     sie := (sie s)(tp s := False),
     locks := (locks s)(l := (locks s l)\<lparr>locked := True, lcpu := Some (tp s)\<rparr>)\<rparr>"

lemma acquire_free: "lock_free l s \<Longrightarrow> acquire l s = Ok (grab l s)"
  by (auto simp: lock_free_def acquire_def push_off_def holding_def grab_def mach_defs Let_def
      intro!: mach.equality)

lemma acquire_held:
  "locked (locks s l) \<Longrightarrow> lcpu (locks s l) = Some (tp s) \<Longrightarrow> acquire l s = Panic ''acquire''"
  by (simp add: acquire_def push_off_def holding_def mach_defs Let_def)

lemma acquire_other:
  "locked (locks s l) \<Longrightarrow> lcpu (locks s l) \<noteq> Some (tp s) \<Longrightarrow> acquire l s = Spin"
  by (simp add: acquire_def push_off_def holding_def mach_defs Let_def)

text \<open>
  The body of a critical section may change anything but the machine record; \<open>release\<close> then
  gives back the machine state the section started from.
\<close>

lemma release_grab:
  assumes "cpu_ok s" and "lock_free l s"
    and "tp t = tp s" "sie t = sie (grab l s)" "cpus t = cpus (grab l s)"
    and "locks t = locks (grab l s)"
  shows "release l t = Ok (t\<lparr>cpus := cpus (settle s), sie := sie s, locks := locks s\<rparr>)"
  using assms
  by (auto simp: release_def holding_def grab_def pop_off_def settle_def lock_free_def cpu_ok_def
      mach_defs Let_def fun_upd_idem intro!: mach.equality)

lemma release_acquire:
  "cpu_ok s \<Longrightarrow> lock_free l s \<Longrightarrow> bindR (acquire l s) (release l) = Ok (settle s)"
  using release_grab [of s l "grab l s"]
  by (simp add: acquire_free) (simp add: grab_def settle_def)

section \<open>The effect of a lock on the hart that takes it\<close>

text \<open>The state right after a successful \<open>release\<close>.\<close>

definition ungrab :: "lockid \<Rightarrow> 'a mach_scheme \<Rightarrow> 'a mach_scheme" where
  "ungrab l s = s\<lparr>
     cpus := (cpus s)(tp s := (cpus s (tp s))\<lparr>noff := noff (cpus s (tp s)) - 1\<rparr>),
     sie := (if noff (cpus s (tp s)) = 1 \<and> intena (cpus s (tp s)) then (sie s)(tp s := True) else sie s),
     locks := (locks s)(l := (locks s l)\<lparr>locked := False, lcpu := None\<rparr>)\<rparr>"

lemma release_held:
  "holding l s \<Longrightarrow> \<not> intr_get s \<Longrightarrow> 1 \<le> noff (mycpu s) \<Longrightarrow> release l s = Ok (ungrab l s)"
  by (auto simp: release_def pop_off_def ungrab_def mach_defs Let_def intro!: mach.equality)

lemma grab_simps [simp]:
  "tp (grab l s) = tp s" "noff (mycpu (grab l s)) = noff (mycpu s) + 1"
  "cproc (mycpu (grab l s)) = cproc (mycpu s)" "\<not> intr_get (grab l s)"
  "holding l' (grab l s) \<longleftrightarrow> l' = l \<or> holding l' s"
  "lock_free l' (grab l s) \<longleftrightarrow> l' \<noteq> l \<and> lock_free l' s"
  "intena (mycpu (grab l s)) = (if noff (mycpu s) = 0 then intr_get s else intena (mycpu s))"
  by (auto simp: grab_def holding_def lock_free_def mach_defs)

lemma ungrab_simps [simp]:
  "tp (ungrab l s) = tp s" "noff (mycpu (ungrab l s)) = noff (mycpu s) - 1"
  "cproc (mycpu (ungrab l s)) = cproc (mycpu s)" "intena (mycpu (ungrab l s)) = intena (mycpu s)"
  "intr_get (ungrab l s) \<longleftrightarrow> intr_get s \<or> noff (mycpu s) = 1 \<and> intena (mycpu s)"
  "holding l' (ungrab l s) \<longleftrightarrow> l' \<noteq> l \<and> holding l' s"
  "lock_free l' (ungrab l s) \<longleftrightarrow> l' = l \<or> lock_free l' s"
  by (auto simp: ungrab_def holding_def lock_free_def mach_defs)

lemma holding_not_free: "holding l s \<Longrightarrow> \<not> lock_free l s"
  by (simp add: holding_def lock_free_def)

lemma holding_settle [simp]: "holding l (settle s) = holding l s"
  by (simp add: holding_def mach_defs settle_def)

lemma lock_free_settle [simp]: "lock_free l (settle s) = lock_free l s"
  by (simp add: lock_free_def)

lemma intr_on_simps [simp]:
  "tp (intr_on s) = tp s" "mycpu (intr_on s) = mycpu s" "intr_get (intr_on s)"
  "holding l (intr_on s) = holding l s" "lock_free l (intr_on s) = lock_free l s"
  by (auto simp: holding_def lock_free_def mach_defs)

section \<open>Several harts, one lock\<close>

text \<open>
  The interleaving of any number of harts that run \<open>acquire\<close>, a critical section and
  \<open>release\<close> on one lock.  The shared variables are \<open>lk->locked\<close> and \<open>lk->cpu\<close>; a step
  is one access to them: another hart may run between the two reads of \<open>holding\<close>, between
  the swap and the store to \<open>lk->cpu\<close>, and between the two stores of \<open>release\<close>.  In
  \<open>Testing\<close> and \<open>Retesting\<close> the hart has read \<open>lk->locked\<close> as 1 and goes on to read
  \<open>lk->cpu\<close>, in \<open>acquire\<close> and in \<open>release\<close>; in \<open>Clearing\<close> it is about to
  store 0 there.
\<close>

datatype spin_pc = Outside | Testing | Swapping | Swapped | Critical | Retesting | Clearing | Releasing | Panicked

record spin_sys =
  word :: bool
  owner :: "nat option"
  pcs :: "nat \<Rightarrow> spin_pc"

definition spin_init :: spin_sys where
  "spin_init = \<lparr>word = False, owner = None, pcs = (\<lambda>_. Outside)\<rparr>"

inductive spin_step :: "nat \<Rightarrow> spin_sys \<Rightarrow> spin_sys \<Rightarrow> bool" where
  enter_free: "pcs s h = Outside \<Longrightarrow> \<not> word s \<Longrightarrow> spin_step h s (s\<lparr>pcs := (pcs s)(h := Swapping)\<rparr>)"
| enter_locked: "pcs s h = Outside \<Longrightarrow> word s \<Longrightarrow> spin_step h s (s\<lparr>pcs := (pcs s)(h := Testing)\<rparr>)"
| enter_other: "pcs s h = Testing \<Longrightarrow> owner s \<noteq> Some h \<Longrightarrow> spin_step h s (s\<lparr>pcs := (pcs s)(h := Swapping)\<rparr>)"
| enter_panic: "pcs s h = Testing \<Longrightarrow> owner s = Some h \<Longrightarrow> spin_step h s (s\<lparr>pcs := (pcs s)(h := Panicked)\<rparr>)"
| swap_busy: "pcs s h = Swapping \<Longrightarrow> word s \<Longrightarrow> spin_step h s s"
| swap_won: "pcs s h = Swapping \<Longrightarrow> \<not> word s \<Longrightarrow>
    spin_step h s (s\<lparr>word := True, pcs := (pcs s)(h := Swapped)\<rparr>)"
| set_cpu: "pcs s h = Swapped \<Longrightarrow>
    spin_step h s (s\<lparr>owner := Some h, pcs := (pcs s)(h := Critical)\<rparr>)"
| release_locked: "pcs s h = Critical \<Longrightarrow> word s \<Longrightarrow> spin_step h s (s\<lparr>pcs := (pcs s)(h := Retesting)\<rparr>)"
| release_free: "pcs s h = Critical \<Longrightarrow> \<not> word s \<Longrightarrow> spin_step h s (s\<lparr>pcs := (pcs s)(h := Panicked)\<rparr>)"
| release_own: "pcs s h = Retesting \<Longrightarrow> owner s = Some h \<Longrightarrow> spin_step h s (s\<lparr>pcs := (pcs s)(h := Clearing)\<rparr>)"
| release_panic: "pcs s h = Retesting \<Longrightarrow> owner s \<noteq> Some h \<Longrightarrow> spin_step h s (s\<lparr>pcs := (pcs s)(h := Panicked)\<rparr>)"
| release_cpu: "pcs s h = Clearing \<Longrightarrow> spin_step h s (s\<lparr>owner := None, pcs := (pcs s)(h := Releasing)\<rparr>)"
| release_word: "pcs s h = Releasing \<Longrightarrow>
    spin_step h s (s\<lparr>word := False, pcs := (pcs s)(h := Outside)\<rparr>)"

inductive spin_reachable :: "spin_sys \<Rightarrow> bool" where
  start: "spin_reachable spin_init"
| step: "spin_reachable s \<Longrightarrow> spin_step h s t \<Longrightarrow> spin_reachable t"

fun owning :: "spin_pc \<Rightarrow> bool" where
  "owning Swapped = True"
| "owning Critical = True"
| "owning Retesting = True"
| "owning Clearing = True"
| "owning Releasing = True"
| "owning _ = False"

fun marked :: "spin_pc \<Rightarrow> bool" where
  "marked Critical = True"
| "marked Retesting = True"
| "marked Clearing = True"
| "marked _ = False"

text \<open>
  The lock word is set exactly while some hart owns the lock, owners are unique, and
  \<open>lk->cpu\<close> names a hart exactly from its store in \<open>acquire\<close> to its store in \<open>release\<close>.
\<close>

definition spin_inv :: "nat option \<Rightarrow> spin_sys \<Rightarrow> bool" where
  "spin_inv H s \<longleftrightarrow>
     (word s \<longleftrightarrow> H \<noteq> None) \<and> (\<forall>h. owning (pcs s h) \<longleftrightarrow> H = Some h) \<and>
     owner s = (case H of None \<Rightarrow> None | Some h \<Rightarrow> if marked (pcs s h) then Some h else None) \<and>
     (\<forall>h. pcs s h \<noteq> Panicked)"

lemma spin_inv_init: "spin_inv None spin_init"
  by (simp add: spin_inv_def spin_init_def)

text \<open>Who owns the lock after hart \<open>h\<close> has moved to \<open>pc\<close>.\<close>

fun next_owner :: "nat \<Rightarrow> spin_pc \<Rightarrow> nat option \<Rightarrow> nat option" where
  "next_owner h Swapped H = Some h"
| "next_owner h Outside H = None"
| "next_owner h _ H = H"

lemma spin_inv_owner: "spin_inv H s \<Longrightarrow> owning (pcs s h) \<longleftrightarrow> H = Some h"
  by (simp add: spin_inv_def)

text \<open>A hart that does not own the lock moves between the places where it still does not.\<close>

lemma spin_inv_idle:
  assumes "spin_inv H s" and "\<not> owning (pcs s h)" and "\<not> owning pc" and "pc \<noteq> Panicked"
  shows "spin_inv H (s\<lparr>pcs := (pcs s)(h := pc)\<rparr>)"
proof -
  have "H \<noteq> Some h" using assms(1,2) by (simp flip: spin_inv_owner)
  then show ?thesis using assms by (auto simp: spin_inv_def split: option.splits)
qed

lemma spin_inv_step:
  assumes "spin_step h s t" and "spin_inv H s"
  shows "spin_inv (next_owner h (pcs t h) H) t"
  using assms
proof (induction rule: spin_step.induct)
  case (enter_panic s h)
  then have "H \<noteq> Some h" by (simp flip: spin_inv_owner)
  with enter_panic show ?case by (auto simp: spin_inv_def split: option.splits if_splits)
next
  case (swap_busy s h)
  then show ?case by simp
next
  case (swap_won s h)
  then show ?case by (auto simp: spin_inv_def)
next
  case (set_cpu s h)
  then have "H = Some h" by (simp flip: spin_inv_owner)
  with set_cpu show ?case by (simp add: spin_inv_def)
next
  case (release_locked s h)
  then have "H = Some h" by (simp flip: spin_inv_owner)
  with release_locked show ?case by (simp add: spin_inv_def)
next
  case (release_free s h)
  then have "H = Some h" by (simp flip: spin_inv_owner)
  with release_free show ?case by (simp add: spin_inv_def)
next
  case (release_own s h)
  then have "H = Some h" by (simp flip: spin_inv_owner)
  with release_own show ?case by (simp add: spin_inv_def)
next
  case (release_panic s h)
  then have "H = Some h" by (simp flip: spin_inv_owner)
  with release_panic show ?case by (simp add: spin_inv_def)
next
  case (release_cpu s h)
  then have "H = Some h" by (simp flip: spin_inv_owner)
  with release_cpu show ?case by (simp add: spin_inv_def)
next
  case (release_word s h)
  then have "H = Some h" by (simp flip: spin_inv_owner)
  with release_word show ?case by (auto simp: spin_inv_def)
qed (rule spin_inv_idle; simp)+

lemma spin_reachable_inv: "spin_reachable s \<Longrightarrow> \<exists>H. spin_inv H s"
  by (induction rule: spin_reachable.induct) (blast intro: spin_inv_init spin_inv_step)+

section \<open>Properties\<close>

text \<open>C9. Mutual exclusion.  However any number of harts interleave their calls of \<open>acquire\<close> and
  \<open>release\<close> on one lock, at most one of them is between its successful swap and its final
  store, and none ever reaches one of the two \<open>panic\<close> calls.\<close>

theorem spin_mutual_exclusion:
  assumes "spin_reachable s"
  shows "pcs s h \<noteq> Panicked \<and> (owning (pcs s h) \<and> owning (pcs s k) \<longrightarrow> h = k)"
proof -
  obtain H where H: "spin_inv H s" using spin_reachable_inv [OF assms] by blast
  then have "pcs s h \<noteq> Panicked" by (simp add: spin_inv_def)
  then show ?thesis by (auto simp: spin_inv_owner [OF H])
qed

text \<open>Hart 0 is inside its critical section and hart 1 spins.\<close>

definition spin_demo :: spin_sys where
  "spin_demo = \<lparr>word = True, owner = Some 0, pcs = (\<lambda>_. Outside)(0 := Critical, 1 := Swapping)\<rparr>"

lemma spin_demo_reachable: "spin_reachable spin_demo"
proof -
  let ?a = "spin_init\<lparr>pcs := (pcs spin_init)(0 := Swapping)\<rparr>"
  let ?b = "?a\<lparr>word := True, pcs := (pcs ?a)(0 := Swapped)\<rparr>"
  let ?c = "?b\<lparr>owner := Some 0, pcs := (pcs ?b)(0 := Critical)\<rparr>"
  let ?d = "?c\<lparr>pcs := (pcs ?c)(1 := Testing)\<rparr>"
  have "spin_reachable ?a"
    by (rule spin_reachable.step [OF spin_reachable.start spin_step.enter_free]) (simp_all add: spin_init_def)
  then have "spin_reachable ?b"
    by (rule spin_reachable.step [OF _ spin_step.swap_won]) (simp_all add: spin_init_def)
  then have "spin_reachable ?c"
    by (rule spin_reachable.step [OF _ spin_step.set_cpu]) (simp_all add: spin_init_def)
  then have "spin_reachable ?d"
    by (rule spin_reachable.step [OF _ spin_step.enter_locked]) (simp_all add: spin_init_def)
  then have "spin_reachable (?d\<lparr>pcs := (pcs ?d)(1 := Swapping)\<rparr>)"
    by (rule spin_reachable.step [OF _ spin_step.enter_other]) (simp_all add: spin_init_def)
  moreover have "?d\<lparr>pcs := (pcs ?d)(1 := Swapping)\<rparr> = spin_demo"
    by (simp add: spin_demo_def spin_init_def)
  ultimately show ?thesis by simp
qed

theorem spin_mutual_exclusion_witness:
  "pcs spin_demo 0 = Critical \<and> pcs spin_demo 1 \<noteq> Panicked \<and> \<not> owning (pcs spin_demo 1)"
proof -
  have "pcs spin_demo 0 = Critical" "owning (pcs spin_demo 0)" by (simp_all add: spin_demo_def)
  then show ?thesis using spin_mutual_exclusion [OF spin_demo_reachable] by (metis zero_neq_one)
qed

text \<open>A hart that holds nothing, with interrupts enabled.\<close>

definition idle_mach :: mach where
  "idle_mach = \<lparr>cpus = (\<lambda>_. \<lparr>cproc = None, noff = 0, intena = False\<rparr>), sie = (\<lambda>_. True), tp = 0,
     locks = (\<lambda>_. \<lparr>lname = [], locked = False, lcpu = None\<rparr>)\<rparr>"

lemma idle_mach_ok: "cpu_ok idle_mach" "lock_free l idle_mach"
  by (simp_all add: idle_mach_def cpu_ok_def lock_free_def mach_defs)

lemma push_offs:
  assumes "cpu_ok s"
  shows "cpu_ok ((push_off ^^ k) s)" "noff (mycpu ((push_off ^^ k) s)) = noff (mycpu s) + int k"
    "0 < k \<Longrightarrow> \<not> intr_get ((push_off ^^ k) s)" "0 < k \<Longrightarrow> settle ((push_off ^^ k) s) = (push_off ^^ k) s"
proof -
  have ok: "cpu_ok ((push_off ^^ k) s) \<and> noff (mycpu ((push_off ^^ k) s)) = noff (mycpu s) + int k" for k
    using assms by (induction k) (simp_all add: cpu_ok_push_off noff_push_off)
  then show "cpu_ok ((push_off ^^ k) s)" "noff (mycpu ((push_off ^^ k) s)) = noff (mycpu s) + int k" by simp_all
  have "0 < noff (mycpu ((push_off ^^ k) s))" if "0 < k" using ok [of k] assms that by (auto simp: cpu_ok_def)
  then show "0 < k \<Longrightarrow> \<not> intr_get ((push_off ^^ k) s)" "0 < k \<Longrightarrow> settle ((push_off ^^ k) s) = (push_off ^^ k) s"
    using ok [of k] settle_nested [of "(push_off ^^ k) s"] by (auto simp: cpu_ok_def)
qed

lemma pop_offs:
  assumes "cpu_ok s"
  shows "turns k pop_off ((push_off ^^ (k + j)) s) = Ok (if k = 0 then (push_off ^^ j) s else settle ((push_off ^^ j) s))"
proof (induction k)
  case (Suc k)
  have "turns (Suc k) pop_off ((push_off ^^ (Suc k + j)) s) = turns k pop_off (settle ((push_off ^^ (k + j)) s))"
    using push_offs(1) [OF assms, of "k + j"] by (simp add: pop_push_off)
  moreover have "settle ((push_off ^^ (k + j)) s) = (push_off ^^ (k + j)) s" if "k \<noteq> 0"
    using push_offs(4) [OF assms, of "k + j"] that by simp
  ultimately show ?case using Suc by (cases "k = 0") simp_all
qed simp

lemma sint_int_range:
  assumes "- (2 ^ 31) \<le> d" and "d < 2 ^ 31"
  shows "sint (word_of_int d :: i32) = d"
  using signed_take_bit_int_eq_self [of 31 d] assms by (simp add: sint_sbintrunc')

text \<open>C11. Nesting.  Let the depth stay in the range of the counter, an \<open>int\<close>.  After \<open>n\<close> calls of
  \<open>push_off\<close> the counter, as a 32-bit word, is \<open>n\<close> larger; every call of \<open>pop_off\<close> undoes the last of
  them without panic, with interrupts off until the last one; and that restores the machine: interrupts are
  enabled again exactly when they were enabled before the first call.\<close>

theorem push_pop_nested:
  assumes "cpu_ok s" and "noff (mycpu s) + int n < 2 ^ 31"
  shows "turns n pop_off ((push_off ^^ n) s) = Ok (if n = 0 then s else settle s) \<and>
    (\<forall>k < n. turns k pop_off ((push_off ^^ n) s) = Ok ((push_off ^^ (n - k)) s) \<and> \<not> intr_get ((push_off ^^ (n - k)) s)) \<and>
    (\<forall>k \<le> n. sint (word_of_int (noff (mycpu ((push_off ^^ k) s))) :: i32) = noff (mycpu s) + int k)"
proof (intro conjI allI impI)
  show "turns n pop_off ((push_off ^^ n) s) = Ok (if n = 0 then s else settle s)" using pop_offs [OF assms(1), of n 0] by simp
  show "turns k pop_off ((push_off ^^ n) s) = Ok ((push_off ^^ (n - k)) s)" if "k < n" for k
    using pop_offs [OF assms(1), of k "n - k"] push_offs(4) [OF assms(1), of "n - k"] that by simp
  show "\<not> intr_get ((push_off ^^ (n - k)) s)" if "k < n" for k using push_offs(3) [OF assms(1), of "n - k"] that by simp
  show "sint (word_of_int (noff (mycpu ((push_off ^^ k) s))) :: i32) = noff (mycpu s) + int k" if "k \<le> n" for k
    unfolding push_offs(2) [OF assms(1)] using assms that by (intro sint_int_range) (auto simp: cpu_ok_def)
qed

theorem push_pop_nested_witness:
  "turns 3 pop_off ((push_off ^^ 3) idle_mach) = Ok (settle idle_mach) \<and> \<not> intr_get ((push_off ^^ 1) idle_mach) \<and>
   sint (word_of_int (noff (mycpu ((push_off ^^ 3) idle_mach))) :: i32) = 3"
proof -
  have z: "noff (mycpu idle_mach) = 0" by (simp add: idle_mach_def mach_defs)
  then have "noff (mycpu idle_mach) + int 3 < 2 ^ 31" by simp
  note p = push_pop_nested [OF idle_mach_ok(1) this]
  have "\<not> intr_get ((push_off ^^ (3 - 2)) idle_mach)" using p [THEN conjunct2, THEN conjunct1, rule_format, of 2] by simp
  then show ?thesis using p [THEN conjunct1] p [THEN conjunct2, THEN conjunct2, rule_format, of 3] z by simp
qed



end
