(* ===== verification/Memory.thy ===== *)
theory Memory
  imports Prelude
begin

text \<open>
  Byte-addressed physical memory with the address arithmetic of \<open>kernel/riscv.h\<close> and
  \<open>kernel/memlayout.h\<close>, little-endian 64-bit loads and stores, and the memory routines of
  \<open>kernel/string.c\<close>.
\<close>

type_synonym mem = "u64 \<Rightarrow> u8"

section \<open>Pages and page-table entries\<close>

abbreviation (input) PGSIZE :: u64 where "PGSIZE \<equiv> 4096"

definition PGROUNDUP :: "u64 \<Rightarrow> u64" where
  "PGROUNDUP sz = (sz + PGSIZE - 1) AND NOT (PGSIZE - 1)"

definition PGROUNDDOWN :: "u64 \<Rightarrow> u64" where
  "PGROUNDDOWN a = a AND NOT (PGSIZE - 1)"

abbreviation (input) PTE_V :: u64 where "PTE_V \<equiv> 1"
abbreviation (input) PTE_R :: u64 where "PTE_R \<equiv> 2"
abbreviation (input) PTE_W :: u64 where "PTE_W \<equiv> 4"
abbreviation (input) PTE_X :: u64 where "PTE_X \<equiv> 8"
abbreviation (input) PTE_U :: u64 where "PTE_U \<equiv> 16"

definition PA2PTE :: "u64 \<Rightarrow> u64" where
  "PA2PTE pa = push_bit 10 (drop_bit 12 pa)"

definition PTE2PA :: "u64 \<Rightarrow> u64" where
  "PTE2PA pte = push_bit 12 (drop_bit 10 pte)"

definition PTE_FLAGS :: "u64 \<Rightarrow> u64" where
  "PTE_FLAGS pte = pte AND 0x3FF"

definition PXSHIFT :: "nat \<Rightarrow> nat" where
  "PXSHIFT level = 12 + 9 * level"

definition PX :: "nat \<Rightarrow> u64 \<Rightarrow> u64" where
  "PX level va = drop_bit (PXSHIFT level) va AND 0x1FF"

abbreviation (input) MAXVA :: u64 where "MAXVA \<equiv> 0x4000000000"

abbreviation (input) KERNBASE :: u64 where "KERNBASE \<equiv> 0x80000000"
abbreviation (input) PHYSTOP :: u64 where "PHYSTOP \<equiv> 0x88000000"
abbreviation (input) TRAMPOLINE :: u64 where "TRAMPOLINE \<equiv> MAXVA - PGSIZE"
abbreviation (input) TRAPFRAME :: u64 where "TRAPFRAME \<equiv> TRAMPOLINE - PGSIZE"

definition KSTACK :: "nat \<Rightarrow> u64" where
  "KSTACK p = TRAMPOLINE - (of_nat p + 1) * 2 * PGSIZE"

section \<open>Words in memory\<close>

definition load64 :: "mem \<Rightarrow> u64 \<Rightarrow> u64" where
  "load64 m a =
     ucast (m a) OR push_bit 8 (ucast (m (a + 1))) OR push_bit 16 (ucast (m (a + 2)))
     OR push_bit 24 (ucast (m (a + 3))) OR push_bit 32 (ucast (m (a + 4)))
     OR push_bit 40 (ucast (m (a + 5))) OR push_bit 48 (ucast (m (a + 6)))
     OR push_bit 56 (ucast (m (a + 7)))"

definition store64 :: "u64 \<Rightarrow> u64 \<Rightarrow> mem \<Rightarrow> mem" where
  "store64 a v m = (\<lambda>x. if x - a < 8 then ucast (drop_bit (8 * unat (x - a)) v) else m x)"

section \<open>\<open>memset\<close>, \<open>memmove\<close>, \<open>memcpy\<close>, \<open>memcmp\<close>\<close>

text \<open>The loop of \<open>memset\<close> counts in an \<open>int\<close>; the definition is meant for less than \<open>2 ^ 31\<close> bytes, and the
  kernel never clears more than a page.\<close>

definition memset :: "u64 \<Rightarrow> i32 \<Rightarrow> u32 \<Rightarrow> mem \<Rightarrow> mem" where
  "memset dst c n m = fold (\<lambda>i m. m(dst + of_nat i := ucast c)) [0..<unat n] m"

text \<open>The two loops of \<open>memmove\<close>: \<open>*d++ = *s++\<close> and \<open>*--d = *--s\<close>.\<close>

fun copy_up :: "nat \<Rightarrow> u64 \<Rightarrow> u64 \<Rightarrow> mem \<Rightarrow> mem" where
  "copy_up 0 d s m = m"
| "copy_up (Suc n) d s m = copy_up n (d + 1) (s + 1) (m(d := m s))"

fun copy_down :: "nat \<Rightarrow> u64 \<Rightarrow> u64 \<Rightarrow> mem \<Rightarrow> mem" where
  "copy_down 0 d s m = m"
| "copy_down (Suc n) d s m = copy_down n (d - 1) (s - 1) (m(d - 1 := m (s - 1)))"

definition memmove :: "u64 \<Rightarrow> u64 \<Rightarrow> u32 \<Rightarrow> mem \<Rightarrow> mem" where
  "memmove dst src n m =
     (if n = 0 then m
      else if src < dst \<and> src + ucast n > dst
           then copy_down (unat n) (dst + ucast n) (src + ucast n) m
           else copy_up (unat n) dst src m)"

definition memcpy :: "u64 \<Rightarrow> u64 \<Rightarrow> u32 \<Rightarrow> mem \<Rightarrow> mem" where
  "memcpy dst src n m = memmove dst src n m"

fun memcmp_loop :: "nat \<Rightarrow> u64 \<Rightarrow> u64 \<Rightarrow> mem \<Rightarrow> int" where
  "memcmp_loop 0 s1 s2 m = 0"
| "memcmp_loop (Suc n) s1 s2 m =
     (if m s1 \<noteq> m s2 then uint (m s1) - uint (m s2) else memcmp_loop n (s1 + 1) (s2 + 1) m)"

definition memcmp :: "u64 \<Rightarrow> u64 \<Rightarrow> u32 \<Rightarrow> mem \<Rightarrow> int" where
  "memcmp v1 v2 n m = memcmp_loop (unat n) v1 v2 m"

section \<open>Address arithmetic\<close>

lemma unat_u64_lt: "unat (a :: u64) < 18446744073709551616"
  using unsigned_less [of a, where 'a = nat] by simp

lemma unat_u32_lt [simp]: "unat (n :: u32) < 4294967296"
  using unsigned_less [of n, where 'a = nat] by simp

lemma unat_ucast_u32 [simp]: "unat (ucast (n :: u32) :: u64) = unat n"
  by (simp add: unsigned_ucast_eq take_bit_nat_eq_self order.strict_trans [OF unat_u32_lt])

lemma unat_of_nat_u64: "k < 18446744073709551616 \<Longrightarrow> unat (of_nat k :: u64) = k"
  by (simp add: unat_of_nat take_bit_nat_eq_self)

lemma unat_add_no_wrap:
  "unat (a :: u64) + unat b < 18446744073709551616 \<Longrightarrow> unat (a + b) = unat a + unat b"
  using unat_add_lem [of a b] by simp

lemma word_diff_of_nat:
  assumes "k < 18446744073709551616"
  shows "(a :: u64) - b = of_nat k \<longleftrightarrow> unat (a - b) = k"
proof
  assume "unat (a - b) = k"
  then have "of_nat k = (of_nat (unat (a - b)) :: u64)" by simp
  then show "a - b = of_nat k" by simp
qed (simp add: assms unat_of_nat_u64)

lemma unat_minus_Suc: "(a :: u64) \<noteq> b \<Longrightarrow> unat (a - b) = Suc (unat (a - (b + 1)))"
proof -
  assume "a \<noteq> b"
  then have "unat (a - b - 1) = unat (a - b) - 1" and "0 < unat (a - b)"
    by (auto simp: unat_minus_one unat_gt_0)
  then show ?thesis by (simp add: algebra_simps)
qed

lemma memset_upto:
  "k \<le> 4294967296 \<Longrightarrow>
   fold (\<lambda>i m. m(dst + of_nat i := v)) [0..<k] m = (\<lambda>a :: u64. if unat (a - dst) < k then v else m a)"
proof (induction k)
  case 0
  then show ?case by simp
next
  case (Suc k)
  have "a = dst + of_nat k \<longleftrightarrow> unat (a - dst) = k" for a :: u64
    using Suc.prems word_diff_of_nat [of k a dst] by (auto simp: algebra_simps)
  with Suc show ?case by (auto simp: fun_eq_iff less_Suc_eq)
qed

lemma memset_eq: "memset dst c n m = (\<lambda>a. if a - dst < ucast n then ucast c else m a)"
  using less_imp_le [OF unat_u32_lt [of n]]
  by (simp add: memset_def memset_upto word_less_nat_alt)

lemma copy_up_eq:
  "n \<le> 4294967296 \<Longrightarrow> d = s \<or> n \<le> unat (d - s) \<Longrightarrow>
   copy_up n d s m = (\<lambda>a. if unat (a - d) < n then m (s + (a - d)) else m a)"
proof (induction n arbitrary: d s m)
  case 0
  then show ?case by simp
next
  case (Suc n)
  have sh: "d + 1 = s + 1 \<or> n \<le> unat (d + 1 - (s + 1))"
    using Suc.prems by auto
  have first: "unat (a - d) < Suc n \<longleftrightarrow> a = d \<or> unat (a - (d + 1)) < n" for a
    using unat_minus_Suc [of a d] by (cases "a = d") auto
  have src: "(m(d := m s)) (s + (a - d)) = m (s + (a - d))" if "unat (a - d) < Suc n" for a
  proof (cases "s + (a - d) = d")
    case True
    then have "a - d = d - s" by (simp add: algebra_simps)
    with that Suc.prems(2) have "d = s" by auto
    then show ?thesis by simp
  qed simp
  have old: "a \<noteq> d" if "unat (a - (d + 1)) < n" for a
  proof
    assume "a = d"
    with that have "unat (- 1 :: u64) < n" by simp
    with Suc.prems(1) show False by (simp add: unsigned_minus_1_eq_mask mask_eq_exp_minus_1)
  qed
  have shift: "s + 1 + (a - (d + 1)) = s + (a - d)" for a
    by (simp add: algebra_simps)
  have "copy_up (Suc n) d s m
      = (\<lambda>a. if unat (a - (d + 1)) < n then (m(d := m s)) (s + 1 + (a - (d + 1))) else (m(d := m s)) a)"
    unfolding copy_up.simps using Suc.prems(1) by (intro Suc.IH sh) simp
  also have "\<dots> = (\<lambda>a. if unat (a - d) < Suc n then m (s + (a - d)) else m a)"
  proof
    fix a
    show "(if unat (a - (d + 1)) < n then (m(d := m s)) (s + 1 + (a - (d + 1))) else (m(d := m s)) a)
        = (if unat (a - d) < Suc n then m (s + (a - d)) else m a)"
      unfolding shift first [of a] using src [of a] first [of a] old [of a]
      by (cases "a = d"; cases "unat (a - (d + 1)) < n") simp_all
  qed
  finally show ?case .
qed

lemma copy_down_eq:
  "n \<le> 4294967296 \<Longrightarrow> d = s \<or> n \<le> unat (s - d) \<Longrightarrow>
   copy_down n (d + of_nat n) (s + of_nat n) m = (\<lambda>a. if unat (a - d) < n then m (s + (a - d)) else m a)"
proof (induction n arbitrary: m)
  case 0
  then show ?case by simp
next
  case (Suc n)
  let ?m = "m(d + of_nat n := m (s + of_nat n))"
  have n: "n < 18446744073709551616" using Suc.prems(1) by simp
  have last: "a = d + of_nat n \<longleftrightarrow> unat (a - d) = n" for a
    using word_diff_of_nat [OF n, of a d] by (auto simp: algebra_simps)
  have src: "?m (s + (a - d)) = m (s + (a - d))" if "unat (a - d) < n" for a
  proof (cases "s + (a - d) = d + of_nat n")
    case True
    then have e: "s - d = of_nat n - (a - d)" by (simp add: algebra_simps)
    have "unat (s - d) = n - unat (a - d)"
      unfolding e using that n by (simp add: unat_sub_if' unat_of_nat_u64)
    with that Suc.prems(2) have "d = s" by auto
    then show ?thesis using True that last [of a] by simp
  qed simp
  have "copy_down (Suc n) (d + of_nat (Suc n)) (s + of_nat (Suc n)) m
      = copy_down n (d + of_nat n) (s + of_nat n) ?m"
    by (simp add: algebra_simps)
  also have "\<dots> = (\<lambda>a. if unat (a - d) < n then ?m (s + (a - d)) else ?m a)"
    using Suc.prems by (intro Suc.IH) auto
  also have "\<dots> = (\<lambda>a. if unat (a - d) < Suc n then m (s + (a - d)) else m a)"
    using src last by (auto simp: fun_eq_iff less_Suc_eq)
  finally show ?case .
qed

text \<open>No address of either buffer wraps around the end of the address space.\<close>

definition no_wrap :: "u64 \<Rightarrow> u32 \<Rightarrow> bool" where
  "no_wrap a n \<longleftrightarrow> unat a + unat n < 18446744073709551616"

lemma memmove_eq:
  assumes "no_wrap dst n" and "no_wrap src n"
  shows "memmove dst src n m = (\<lambda>a. if a - dst < ucast n then m (src + (a - dst)) else m a)"
proof -
  have le: "unat n \<le> 4294967296" using unat_u32_lt [of n] by linarith
  have sum: "unat (src + ucast n) = unat src + unat n"
    using assms(2) by (simp add: no_wrap_def unat_word_ariths)
  show ?thesis
  proof (cases "src < dst \<and> src + ucast n > dst")
    case True
    then have "unat (src - dst) = 18446744073709551616 + unat src - unat dst"
      by (auto simp: unat_sub_if' word_less_nat_alt)
    then have "unat n \<le> unat (src - dst)"
      using True assms unat_u64_lt [of dst] by (auto simp: no_wrap_def word_less_nat_alt)
    then show ?thesis
      using True copy_down_eq [OF le, of dst src m]
      by (auto simp: memmove_def word_less_nat_alt unat_0_iff [symmetric])
  next
    case False
    then have "dst = src \<or> unat n \<le> unat (dst - src)"
      using assms sum unat_u64_lt [of src]
      by (auto simp: no_wrap_def unat_sub_if' word_less_nat_alt word_unat_eq_iff not_less)
    then show ?thesis
      using False copy_up_eq [OF le, of dst src m]
      by (auto simp: memmove_def word_less_nat_alt)
  qed
qed

section \<open>Loads and stores\<close>

lemma bit_u8_high: "8 \<le> n \<Longrightarrow> \<not> bit (w :: u8) n"
  using bit_imp_le_length [of w n] by auto

lemma bit_load64_byte:
  assumes "q < 8" and "r < 8"
  shows "bit (load64 m a) (8 * q + r) = bit (m (a + of_nat q)) r"
proof -
  from assms(1) consider "q = 0" | "q = 1" | "q = 2" | "q = 3" | "q = 4" | "q = 5" | "q = 6" | "q = 7"
    by linarith
  then show ?thesis
    by cases (use assms(2) in \<open>simp_all add: load64_def bit_simps bit_u8_high\<close>)
qed

lemma bit_load64: "bit (load64 m a) k \<longleftrightarrow> k < 64 \<and> bit (m (a + of_nat (k div 8))) (k mod 8)"
proof (cases "k < 64")
  case True
  then show ?thesis using bit_load64_byte [of "k div 8" "k mod 8" m a] by simp
next
  case False
  then show ?thesis using bit_imp_le_length [of "load64 m a" k] by auto
qed

lemma load64_cong: "(\<And>i. i < 8 \<Longrightarrow> m (a + of_nat i) = m' (a + of_nat i)) \<Longrightarrow> load64 m a = load64 m' a"
  by (rule bit_word_eqI) (simp add: bit_load64)

lemma load_store64_same [simp]: "load64 (store64 a v m) a = v"
proof (rule bit_word_eqI)
  fix n assume n: "n < LENGTH(64)"
  then have q: "n div 8 < 8" by simp
  then have "unat (of_nat (n div 8) :: u64) = n div 8" by (simp add: unat_of_nat_u64)
  moreover from q have "(of_nat (n div 8) :: u64) < 8"
    by (simp add: word_less_nat_alt unat_of_nat_u64)
  moreover have "8 * (n div 8) + n mod 8 = n" by simp
  ultimately show "bit (load64 (store64 a v m) a) n = bit v n"
    using n by (simp add: bit_load64 store64_def bit_simps)
qed

definition aligned8 :: "u64 \<Rightarrow> bool" where
  "aligned8 a \<longleftrightarrow> 8 dvd unat a"

lemma aligned8_diff:
  assumes "aligned8 a" and "aligned8 b"
  shows "8 dvd unat (a - b)"
proof -
  have "(8::nat) dvd 18446744073709551616" by simp
  with assms show ?thesis
    by (auto simp: aligned8_def unat_sub_if' intro: dvd_diff_nat)
qed

lemma aligned8_apart:
  assumes "aligned8 a" and "aligned8 b" and "a \<noteq> b" and "i < 8"
  shows "\<not> b + of_nat i - a < (8 :: u64)"
proof -
  have d: "8 dvd unat (b - a)" and nz: "unat (b - a) \<noteq> 0"
    using assms aligned8_diff [of b a] by (auto simp: unat_0_iff)
  then obtain q where q: "unat (b - a) = 8 * q" and "q \<ge> 1" by (auto elim!: dvdE)
  have i: "unat (of_nat i :: u64) = i" using assms(4) by (simp add: unat_of_nat_u64)
  have "unat (b - a) + i < 18446744073709551616"
    using q assms(4) unat_u64_lt [of "b - a"] by presburger
  then have "unat (b - a + of_nat i) = 8 * q + i"
    using q i by (simp add: unat_word_ariths)
  moreover have "b + of_nat i - a = b - a + of_nat i" by simp
  ultimately show ?thesis using \<open>q \<ge> 1\<close> by (simp only: word_less_nat_alt) simp
qed

lemma load_store64_other:
  "aligned8 a \<Longrightarrow> aligned8 b \<Longrightarrow> a \<noteq> b \<Longrightarrow> load64 (store64 a v m) b = load64 m b"
  by (rule load64_cong) (simp add: store64_def aligned8_apart)

lemma memcmp_loop_0:
  "memcmp_loop n s1 s2 m = 0 \<longleftrightarrow> (\<forall>i<n. m (s1 + of_nat i) = m (s2 + of_nat i))"
proof (induction n arbitrary: s1 s2)
  case (Suc n)
  have "(\<forall>i<Suc n. m (s1 + of_nat i) = m (s2 + of_nat i)) \<longleftrightarrow>
      m s1 = m s2 \<and> (\<forall>i<n. m (s1 + 1 + of_nat i) = m (s2 + 1 + of_nat i))"
    by (auto simp: less_Suc_eq_0_disj add.assoc)
  then show ?case by (simp add: Suc.IH) (simp add: word_uint_eq_iff)
qed simp

section \<open>Pages\<close>

definition page_aligned :: "u64 \<Rightarrow> bool" where
  "page_aligned p \<longleftrightarrow> p mod PGSIZE = 0"

definition in_page :: "u64 \<Rightarrow> u64 \<Rightarrow> bool" where
  "in_page p a \<longleftrightarrow> a - p < PGSIZE"

lemma page_aligned_dvd: "page_aligned p \<longleftrightarrow> 4096 dvd unat p"
  by (simp add: page_aligned_def word_unat_eq_iff unat_mod mod_eq_0_iff_dvd)

lemma page_aligned8: "page_aligned p \<Longrightarrow> aligned8 p"
  unfolding page_aligned_dvd aligned8_def by (rule dvd_trans [of 8 4096]) simp_all

lemma in_page_unat:
  assumes "page_aligned p" and "in_page p a"
  shows "unat a div 4096 = unat p div 4096"
proof -
  obtain q where q: "unat p = 4096 * q" using assms(1) by (auto simp: page_aligned_dvd)
  have d: "unat (a - p) < 4096" using assms(2) by (simp add: in_page_def word_less_nat_alt)
  have "q < 4503599627370496" using q unat_u64_lt [of p] by simp
  then have "unat p + unat (a - p) < 18446744073709551616" using q d by simp
  then have "unat (p + (a - p)) = unat p + unat (a - p)"
    by (rule unat_add_no_wrap)
  then show ?thesis using q d by simp
qed

text \<open>Distinct pages share no address.\<close>

lemma in_page_unique:
  assumes "page_aligned p" "page_aligned q" "in_page p a" "in_page q a"
  shows "p = q"
proof -
  have "unat p div 4096 = unat q div 4096"
    using in_page_unat [OF assms(1,3)] in_page_unat [OF assms(2,4)] by simp
  with assms(1,2) show ?thesis
    by (metis dvd_mult_div_cancel page_aligned_dvd word_unat_eq_iff)
qed

lemma in_page_self [simp]: "in_page p p"
  by (simp add: in_page_def)

lemma store64_in_page:
  assumes "page_aligned p" and "in_page p a" and "aligned8 a" and "\<not> in_page p x"
  shows "store64 a v m x = m x"
proof -
  have "\<not> x - a < 8"
  proof
    assume xa: "x - a < 8"
    obtain q where q: "unat (a - p) = 8 * q"
      using aligned8_diff [OF assms(3) page_aligned8 [OF assms(1)]] by (auto elim: dvdE)
    then have "unat (a - p) + unat (x - a) < 4096"
      using xa assms(2) by (auto simp: in_page_def word_less_nat_alt)
    moreover have "x - p = (a - p) + (x - a)" by simp
    ultimately have "unat (x - p) < 4096" using unat_add_no_wrap [of "a - p" "x - a"] by simp
    then show False using assms(4) by (simp add: in_page_def word_less_nat_alt)
  qed
  then show ?thesis by (simp add: store64_def)
qed

text \<open>A load from a page only depends on the bytes of that page.\<close>

lemma load64_in_page:
  assumes "page_aligned p" and "in_page p a" and "aligned8 a"
    and same: "\<And>x. in_page p x \<Longrightarrow> m x = m' x"
  shows "load64 m a = load64 m' a"
proof (rule load64_cong)
  fix i :: nat assume i: "i < 8"
  obtain q where q: "unat (a - p) = 8 * q"
    using aligned8_diff [OF assms(3) page_aligned8 [OF assms(1)]] by (auto elim: dvdE)
  then have "unat (a - p) + i < 4096"
    using i assms(2) by (auto simp: in_page_def word_less_nat_alt)
  then have "unat ((a - p) + of_nat i) < 4096"
    using i unat_add_no_wrap [of "a - p" "of_nat i"] by (simp add: unat_of_nat_u64)
  then have "unat (a + of_nat i - p) < 4096" by (simp add: diff_add_eq)
  then have "in_page p (a + of_nat i)" by (simp add: in_page_def word_less_nat_alt)
  then show "m (a + of_nat i) = m' (a + of_nat i)" by (rule same)
qed

lemma memset_page: "memset p c 4096 m = (\<lambda>a. if in_page p a then ucast c else m a)"
  by (simp add: memset_eq in_page_def)

section \<open>Rounding\<close>

lemma unat_and_not_mask: "unat (x AND NOT (mask 12) :: u64) = unat x div 4096 * 4096"
proof -
  have e: "x AND NOT (mask 12) = push_bit 12 (drop_bit 12 x)"
    by (rule bit_word_eqI) (auto simp: bit_simps)
  have "unat x div 4096 * 4096 < 2 ^ 64"
    using unat_u64_lt [of x] div_times_less_eq_dividend [of "unat x" 4096]
    by simp
  then have "take_bit 64 (unat x div 4096 * 4096) = unat x div 4096 * 4096"
    by (rule take_bit_nat_eq_self)
  moreover have "take_bit 64 (unat x) = unat x"
    using unat_u64_lt [of x] by (intro take_bit_nat_eq_self) simp
  ultimately show ?thesis
    unfolding e unsigned_push_bit_eq unsigned_drop_bit_eq by (simp add: push_bit_eq_mult drop_bit_eq_div)
qed

lemma page_mask: "(PGSIZE - 1 :: u64) = mask 12"
  by (simp add: mask_eq_exp_minus_1)

lemma unat_PGROUNDUP:
  assumes "unat a + 4095 < 18446744073709551616"
  shows "unat (PGROUNDUP a) = (unat a + 4095) div 4096 * 4096"
proof -
  have "a + PGSIZE - 1 = a + 4095" by simp
  moreover have "unat (a + 4095) = unat a + 4095"
    using assms unat_add_no_wrap [of a 4095] by simp
  ultimately show ?thesis unfolding PGROUNDUP_def page_mask by (simp only: unat_and_not_mask)
qed

lemma unat_PGROUNDDOWN: "unat (PGROUNDDOWN a) = unat a div 4096 * 4096"
  unfolding PGROUNDDOWN_def page_mask by (rule unat_and_not_mask)

lemma page_aligned_PGROUNDDOWN [simp]: "page_aligned (PGROUNDDOWN a)"
  by (simp add: page_aligned_dvd unat_PGROUNDDOWN)

section \<open>Properties\<close>

text \<open>C14. \<open>memmove\<close> copies \<open>n\<close> bytes as if through a buffer, whether or not source and
  destination overlap and on whichever side, and changes nothing else; neither range may wrap
  around the address space.\<close>

theorem memmove_overlap:
  assumes "unat dst + unat n < 2 ^ 64" and "unat src + unat n < 2 ^ 64"
  shows "memmove dst src n m = (\<lambda>a. if a - dst < ucast n then m (src + (a - dst)) else m a)"
  using assms by (intro memmove_eq) (simp_all add: no_wrap_def)

theorem memmove_overlap_witness:
  "memmove 101 100 4 = (\<lambda>m a. if a - 101 < 4 then m (100 + (a - 101)) else m a) \<and>
   memmove 100 101 4 = (\<lambda>m a. if a - 100 < 4 then m (101 + (a - 100)) else m a)"
  by (rule conjI; rule ext) (use memmove_overlap [of 101 4 100] memmove_overlap [of 100 4 101] in simp_all)

lemma bit_less_exp: "x < 2 ^ k \<Longrightarrow> bit (x :: u64) n \<Longrightarrow> n < k"
  by (metis bit_take_bit_iff less_mask_eq take_bit_eq_mask)

lemma bit_page_aligned:
  assumes "page_aligned p" and "bit p n"
  shows "12 \<le> n"
proof (rule ccontr)
  assume "\<not> 12 \<le> n"
  with assms(2) have "bit (take_bit 12 p) n" by (simp add: bit_take_bit_iff)
  moreover have "take_bit 12 p = 0" using assms(1) by (simp add: page_aligned_def take_bit_eq_mod)
  ultimately show False by simp
qed

text \<open>C15. A page-table entry keeps what is put into it: from the entry built from the address of a
  page below \<open>2 ^ 56\<close> and ten flag bits, \<open>PTE2PA\<close> recovers the address and \<open>PTE_FLAGS\<close> the
  flags.\<close>

theorem pte_roundtrip:
  assumes "page_aligned pa" and "pa < 2 ^ 56" and "f < 2 ^ 10"
  shows "PTE2PA (PA2PTE pa OR f) = pa \<and> PTE_FLAGS (PA2PTE pa OR f) = f"
proof
  note b = bit_page_aligned [OF assms(1)] bit_less_exp [OF assms(2)] bit_less_exp [OF assms(3)]
  show "PTE2PA (PA2PTE pa OR f) = pa"
  proof (rule bit_word_eqI)
    fix n assume "n < LENGTH(64)"
    then show "bit (PTE2PA (PA2PTE pa OR f)) n = bit pa n"
      using b(1) [of n] b(2) [of n] b(3) [of "n - 2"]
      by (auto simp: PTE2PA_def PA2PTE_def bit_simps)
  qed
  have mask: "(0x3FF :: u64) = mask 10" by (simp add: mask_eq_exp_minus_1)
  show "PTE_FLAGS (PA2PTE pa OR f) = f"
  proof (rule bit_word_eqI)
    fix n assume "n < LENGTH(64)"
    then show "bit (PTE_FLAGS (PA2PTE pa OR f)) n = bit f n"
      using b(3) [of n] unfolding PTE_FLAGS_def mask by (auto simp: PA2PTE_def bit_simps)
  qed
qed

theorem pte_roundtrip_witness:
  "PTE2PA (PA2PTE 0x80001000 OR 0x17) = 0x80001000 \<and> PTE_FLAGS (PA2PTE 0x80001000 OR 0x17) = 0x17"
  using pte_roundtrip [of "0x80001000" "0x17"] by (simp add: page_aligned_def)

end
