(* ===== verification/Kalloc.thy ===== *)
theory Kalloc
  imports Spinlock Memory
begin

text \<open>
  \<open>kernel/kalloc.c\<close>: the page allocator.  The free pages form a linked list through their
  first eight bytes, as in the source.  The record \<open>image\<close> holds the addresses the linker
  chose (\<open>end\<close>, \<open>etext\<close>, \<open>trampoline\<close> and the entry points whose address the code takes);
  they are parameters of the model that no routine updates.
  The abstract view of the allocator is the list of free pages.
\<close>

record image =
  kend :: u64
  etext :: u64
  trampoline :: u64
  uservec :: u64
  userret :: u64
  kernelvec :: u64
  usertrap_addr :: u64
  forkret_addr :: u64

record phys = mach +
  img :: image
  mem :: mem
  freelist :: u64

section \<open>Operations\<close>

definition kfree :: "u64 \<Rightarrow> 'a phys_scheme \<Rightarrow> 'a phys_scheme res" where
  "kfree pa s =
     (if pa mod PGSIZE \<noteq> 0 \<or> pa < kend (img s) \<or> pa \<ge> PHYSTOP then Panic ''kfree''
      else let s1 = s\<lparr>mem := memset pa 1 4096 (mem s)\<rparr>
           in bindR (acquire LKmem s1) (\<lambda>s2.
              let s3 = s2\<lparr>mem := store64 pa (freelist s2) (mem s2)\<rparr>;
                  s4 = s3\<lparr>freelist := pa\<rparr>
              in release LKmem s4))"

definition kalloc :: "'a phys_scheme \<Rightarrow> (u64 \<times> 'a phys_scheme) res" where
  "kalloc s =
     bindR (acquire LKmem s) (\<lambda>s1.
       let r = freelist s1;
           s2 = (if r \<noteq> 0 then s1\<lparr>freelist := load64 (mem s1) r\<rparr> else s1)
       in bindR (release LKmem s2) (\<lambda>s3.
          Ok (r, if r \<noteq> 0 then s3\<lparr>mem := memset r 5 4096 (mem s3)\<rparr> else s3)))"

text \<open>
  The loop of \<open>freerange\<close> stops at the first \<open>kfree\<close> that panics, so \<open>p\<close> stays below
  \<open>PHYSTOP\<close> and the recursion ends.
\<close>

lemma kfree_OkD: "kfree pa s = Ok s' \<Longrightarrow> pa mod PGSIZE = 0 \<and> kend (img s) \<le> pa \<and> pa < PHYSTOP"
  by (auto simp: kfree_def split: if_splits)

function freerange_loop :: "u64 \<Rightarrow> u64 \<Rightarrow> 'a phys_scheme \<Rightarrow> 'a phys_scheme res" where
  "freerange_loop p pa_end s =
     (if p + PGSIZE \<le> pa_end
      then bindR (kfree p s) (\<lambda>s1. freerange_loop (p + PGSIZE) pa_end s1)
      else Ok s)"
  by pat_completeness auto
termination
proof (relation "measure (\<lambda>(p, pa_end, s). unat PHYSTOP - unat p)")
  fix p pa_end and s s1 :: "'a phys_scheme"
  assume "kfree p s = Ok s1"
  then have "unat p < 2281701376"
    by (auto dest!: kfree_OkD simp: word_less_nat_alt)
  moreover from this have "unat (p + 4096) = unat p + 4096"
    using unat_add_no_wrap [of p 4096] by simp
  ultimately show "((p + PGSIZE, pa_end, s1), p, pa_end, s)
      \<in> measure (\<lambda>(p, pa_end, s). unat PHYSTOP - unat p)"
    by simp
qed simp

declare freerange_loop.simps [simp del]

definition freerange :: "u64 \<Rightarrow> u64 \<Rightarrow> 'a phys_scheme \<Rightarrow> 'a phys_scheme res" where
  "freerange pa_start pa_end s = freerange_loop (PGROUNDUP pa_start) pa_end s"

definition kinit :: "'a phys_scheme \<Rightarrow> 'a phys_scheme res" where
  "kinit s = freerange (kend (img s)) PHYSTOP (initlock LKmem ''kmem'' s)"

section \<open>The free list\<close>

primrec flist :: "mem \<Rightarrow> u64 \<Rightarrow> u64 list \<Rightarrow> bool" where
  "flist m h [] \<longleftrightarrow> h = 0"
| "flist m h (x # xs) \<longleftrightarrow> h = x \<and> x \<noteq> 0 \<and> flist m (load64 m x) xs"

definition valid_page :: "u64 \<Rightarrow> u64 \<Rightarrow> bool" where
  "valid_page e p \<longleftrightarrow> page_aligned p \<and> e \<le> p \<and> p < PHYSTOP"

definition kmem_ok :: "u64 \<Rightarrow> u64 list \<Rightarrow> 'a phys_scheme \<Rightarrow> bool" where
  "kmem_ok e xs s \<longleftrightarrow>
     kend (img s) = e \<and> KERNBASE \<le> e \<and> cpu_ok s \<and> lock_free LKmem s \<and>
     flist (mem s) (freelist s) xs \<and> distinct xs \<and> (\<forall>x\<in>set xs. valid_page e x)"

lemma flist_cong:
  "flist m h xs \<Longrightarrow> (\<And>x. x \<in> set xs \<Longrightarrow> load64 m' x = load64 m x) \<Longrightarrow> flist m' h xs"
  by (induction xs arbitrary: h) auto

lemma valid_page_nonzero: "KERNBASE \<le> e \<Longrightarrow> valid_page e p \<Longrightarrow> p \<noteq> 0"
  by (auto simp: valid_page_def)

text \<open>Memory changes outside the free pages leave the list alone.\<close>

lemma flist_frame:
  assumes "flist m h xs" and "\<forall>x\<in>set xs. page_aligned x"
    and "\<And>x a. x \<in> set xs \<Longrightarrow> in_page x a \<Longrightarrow> m' a = m a"
  shows "flist m' h xs"
  using assms by (auto intro!: flist_cong [OF assms(1)] load64_in_page page_aligned8)

definition same_outside :: "u64 set \<Rightarrow> mem \<Rightarrow> mem \<Rightarrow> bool" where
  "same_outside P m m' \<longleftrightarrow> (\<forall>a. (\<forall>p\<in>P. \<not> in_page p a) \<longrightarrow> m' a = m a)"

lemma lock_free_upd [simp]:
  "lock_free l (mem_update f s) = lock_free l s" "lock_free l (freelist_update g s) = lock_free l s"
  "cpu_ok (mem_update f s) = cpu_ok s" "cpu_ok (freelist_update g s) = cpu_ok s"
  by (simp_all add: lock_free_def cpu_ok_def mach_defs)

lemma phys_settle [simp]: "mem (settle s) = mem s" "freelist (settle s) = freelist s"
    "img (settle s) = img s"
  by (simp_all add: settle_def)

lemma phys_initlock [simp]:
  "mem (initlock l nm s) = mem s" "freelist (initlock l nm s) = freelist s"
  "img (initlock l nm s) = img s"
  "cpu_ok (initlock l nm s) = cpu_ok s" "lock_free l (initlock l nm s)"
  by (simp_all add: initlock_def cpu_ok_def lock_free_def mach_defs)

text \<open>The two operations as single state updates.\<close>

lemma kalloc_eq:
  assumes "cpu_ok s" and "lock_free LKmem s"
  shows "kalloc s = Ok (freelist s,
    (if freelist s \<noteq> 0
     then (settle s)\<lparr>mem := memset (freelist s) 5 4096 (mem s), freelist := load64 (mem s) (freelist s)\<rparr>
     else settle s))"
  using release_grab [OF assms, of "(grab LKmem s)\<lparr>freelist := load64 (mem s) (freelist s)\<rparr>"]
    release_grab [OF assms, of "grab LKmem s"]
  by (simp add: kalloc_def acquire_free assms Let_def grab_def settle_def)

lemma kfree_eq:
  assumes "cpu_ok s" and "lock_free LKmem s" and "valid_page (kend (img s)) pa"
  shows "kfree pa s = Ok ((settle s)
    \<lparr>mem := store64 pa (freelist s) (memset pa 1 4096 (mem s)), freelist := pa\<rparr>)"
  using release_grab [of "s\<lparr>mem := memset pa 1 4096 (mem s)\<rparr>" LKmem
      "(grab LKmem (s\<lparr>mem := memset pa 1 4096 (mem s)\<rparr>))
        \<lparr>mem := store64 pa (freelist s) (memset pa 1 4096 (mem s)), freelist := pa\<rparr>"] assms
  by (simp add: kfree_def acquire_free Let_def grab_def settle_def valid_page_def page_aligned_def not_less not_le)

section \<open>The allocator's contract\<close>

text \<open>
  What the rest of the kernel relies on: the state stands for a list of distinct free pages;
  an allocation takes the first one and touches no other page, a free puts a page back.
\<close>

locale page_allocator =
  fixes alloc :: "'s \<Rightarrow> (u64 \<times> 's) res"
    and free :: "u64 \<Rightarrow> 's \<Rightarrow> 's res"
    and inv :: "u64 list \<Rightarrow> 's \<Rightarrow> bool"
    and page_ok :: "u64 \<Rightarrow> bool"
    and memory :: "'s \<Rightarrow> mem"
  assumes alloc_none: "inv [] s \<Longrightarrow> \<exists>s'. alloc s = Ok (0, s') \<and> inv [] s' \<and> memory s' = memory s"
    and alloc_some: "inv (x # xs) s \<Longrightarrow>
      \<exists>s'. alloc s = Ok (x, s') \<and> inv xs s' \<and> same_outside {x} (memory s) (memory s')"
    and free_ok: "inv xs s \<Longrightarrow> page_ok p \<Longrightarrow> p \<notin> set xs \<Longrightarrow>
      \<exists>s'. free p s = Ok s' \<and> inv (p # xs) s' \<and> same_outside {p} (memory s) (memory s')"
    and inv_pages: "inv xs s \<Longrightarrow> distinct xs \<and> (\<forall>x\<in>set xs. page_ok x \<and> x \<noteq> 0 \<and> page_aligned x)"
begin

lemma alloc_cases:
  assumes "inv xs s" and "alloc s = Ok (p, s')"
  shows "(xs = [] \<and> p = 0 \<and> inv [] s' \<and> memory s' = memory s) \<or>
    (p \<noteq> 0 \<and> (\<exists>ys. xs = p # ys \<and> inv ys s' \<and> same_outside {p} (memory s) (memory s')))"
proof (cases xs)
  case Nil
  with assms alloc_none [of s] show ?thesis by auto
next
  case (Cons x ys)
  with assms alloc_some [of x ys s] inv_pages [of xs s] show ?thesis by auto
qed

lemma alloc_total: "inv xs s \<Longrightarrow> \<exists>p s'. alloc s = Ok (p, s')"
  using alloc_none alloc_some by (cases xs) blast+

text \<open>Giving a page straight back restores the list of free pages.\<close>

lemma free_alloc:
  assumes "inv xs s" and "alloc s = Ok (p, s')" and "p \<noteq> 0"
  shows "\<exists>s''. free p s' = Ok s'' \<and> inv xs s''"
proof -
  from alloc_cases [OF assms(1,2)] assms(3) obtain ys where ys: "xs = p # ys" "inv ys s'"
    by auto
  with inv_pages [OF assms(1)] have "page_ok p" "p \<notin> set ys" by auto
  with free_ok [OF ys(2)] ys(1) show ?thesis by auto
qed

text \<open>A page that is not free keeps its contents through an allocation.\<close>

lemma alloc_keeps:
  assumes "inv xs s" and "alloc s = Ok (p, s')" and "page_aligned q" and "q \<notin> set xs"
    and "in_page q a"
  shows "memory s' a = memory s a"
proof -
  from alloc_cases [OF assms(1,2)] show ?thesis
  proof
    assume "p \<noteq> 0 \<and> (\<exists>ys. xs = p # ys \<and> inv ys s' \<and> same_outside {p} (memory s) (memory s'))"
    then obtain ys where ys: "xs = p # ys" and same: "same_outside {p} (memory s) (memory s')"
      by auto
    from ys assms(4) inv_pages [OF assms(1)] have "p \<noteq> q" "page_aligned p" by auto
    with assms(3,5) have "\<not> in_page p a" using in_page_unique by blast
    with same show ?thesis by (simp add: same_outside_def)
  qed simp
qed

text \<open>Two allocations in a row never return the same page.\<close>

lemma alloc_alloc_distinct:
  assumes "inv xs s" and "alloc s = Ok (p, s1)" and "alloc s1 = Ok (q, s2)" and "q \<noteq> 0"
  shows "p \<noteq> q"
proof -
  from alloc_cases [OF assms(1,2)] have "inv (tl xs) s1" and "xs = [] \<or> p = hd xs"
    by auto
  with alloc_cases [OF _ assms(3)] assms(4) obtain ys where "tl xs = q # ys" by blast
  with inv_pages [OF assms(1)] \<open>xs = [] \<or> p = hd xs\<close> show ?thesis by (cases xs) auto
qed

end

section \<open>The model meets the contract\<close>

lemma kmem_ok_kalloc_some:
  assumes "kmem_ok e (x # xs) s"
  shows "\<exists>s'. kalloc s = Ok (x, s') \<and> kmem_ok e xs s' \<and> same_outside {x} (mem s) (mem s')"
proof -
  let ?s' = "(settle s)\<lparr>mem := memset x 5 4096 (mem s), freelist := load64 (mem s) x\<rparr>"
  have "flist (memset x 5 4096 (mem s)) (load64 (mem s) x) xs"
  proof (rule flist_frame)
    show "flist (mem s) (load64 (mem s) x) xs" using assms by (simp add: kmem_ok_def)
    show "\<forall>x\<in>set xs. page_aligned x" using assms by (simp add: kmem_ok_def valid_page_def)
    fix y a assume "y \<in> set xs" "in_page y a"
    then have "\<not> in_page x a"
      using assms in_page_unique [of x y a] by (auto simp: kmem_ok_def valid_page_def)
    then show "memset x 5 4096 (mem s) a = mem s a" by (simp add: memset_page)
  qed
  then have "kmem_ok e xs ?s'"
    using assms by (simp add: kmem_ok_def)
  moreover have "same_outside {x} (mem s) (mem ?s')"
    by (simp add: same_outside_def memset_page)
  moreover have "kalloc s = Ok (x, ?s')"
    using assms by (simp add: kmem_ok_def kalloc_eq)
  ultimately show ?thesis by blast
qed

lemma kmem_ok_kalloc_none:
  "kmem_ok e [] s \<Longrightarrow> \<exists>s'. kalloc s = Ok (0, s') \<and> kmem_ok e [] s' \<and> mem s' = mem s"
  by (auto simp: kmem_ok_def kalloc_eq lock_free_def settle_def cpu_ok_def mach_defs)

lemma kmem_ok_kfree:
  assumes "kmem_ok e xs s" and "valid_page e p" and "p \<notin> set xs"
  shows "\<exists>s'. kfree p s = Ok s' \<and> kmem_ok e (p # xs) s' \<and> same_outside {p} (mem s) (mem s')"
proof -
  let ?m = "store64 p (freelist s) (memset p 1 4096 (mem s))"
  have out: "?m a = mem s a" if "\<not> in_page p a" for a
    using that assms(2) store64_in_page [of p p a]
    by (simp add: valid_page_def page_aligned8 memset_page)
  have "flist ?m (load64 ?m p) xs"
  proof (simp, rule flist_frame)
    show "flist (mem s) (freelist s) xs" using assms(1) by (simp add: kmem_ok_def)
    show "\<forall>x\<in>set xs. page_aligned x" using assms(1) by (simp add: kmem_ok_def valid_page_def)
    fix y a assume "y \<in> set xs" "in_page y a"
    then have "\<not> in_page p a"
      using assms in_page_unique [of p y a] by (auto simp: kmem_ok_def valid_page_def)
    then show "?m a = mem s a" by (rule out)
  qed
  then have "kmem_ok e (p # xs) ((settle s)\<lparr>mem := ?m, freelist := p\<rparr>)"
    using assms valid_page_nonzero [of e p] by (simp add: kmem_ok_def)
  moreover have "same_outside {p} (mem s) ?m"
    using out by (simp add: same_outside_def)
  ultimately show ?thesis
    using assms by (simp add: kmem_ok_def kfree_eq)
qed

interpretation ka: page_allocator kalloc kfree "kmem_ok e" "valid_page e" mem
  for e
proof unfold_locales
  show "distinct xs \<and> (\<forall>x\<in>set xs. valid_page e x \<and> x \<noteq> 0 \<and> page_aligned x)"
    if "kmem_ok e xs s" for xs and s :: "'a phys_scheme"
    using that valid_page_nonzero [of e] by (auto simp: kmem_ok_def valid_page_def)
qed (blast intro: kmem_ok_kalloc_none kmem_ok_kalloc_some kmem_ok_kfree)+

section \<open>Boot: every page becomes free\<close>

definition page_run :: "u64 \<Rightarrow> nat \<Rightarrow> u64 list" where
  "page_run p n = map (\<lambda>i. p + of_nat i * PGSIZE) [0..<n]"

lemma page_run_Suc: "page_run p (Suc n) = p # page_run (p + PGSIZE) n"
  by (simp add: page_run_def map_upt_Suc algebra_simps del: upt_Suc)

lemma page_aligned_next: "page_aligned p \<Longrightarrow> page_aligned (p + PGSIZE)"
  by (auto simp: page_aligned_dvd unat_plus_if')

lemma freerange_loop_pages:
  assumes "kmem_ok e xs s" and "page_aligned p" and "e \<le> p"
    and "unat p + 4096 * n = unat PHYSTOP" and "\<forall>x\<in>set xs. x < p"
  shows "\<exists>s'. freerange_loop p PHYSTOP s = Ok s' \<and> kmem_ok e (rev (page_run p n) @ xs) s'"
  using assms
proof (induction n arbitrary: p xs s)
  case 0
  then have "p = PHYSTOP" by (simp add: word_unat_eq_iff)
  with 0 show ?case by (simp add: freerange_loop.simps page_run_def)
next
  case (Suc n)
  have lt: "unat p < 2281701376" using Suc.prems(4) by simp
  then have next_p: "unat (p + 4096) = unat p + 4096"
    using unat_add_no_wrap [of p 4096] by simp
  have valid: "valid_page e p"
    using Suc.prems(2,3) lt by (simp add: valid_page_def word_less_nat_alt)
  obtain s1 where s1: "kfree p s = Ok s1" "kmem_ok e (p # xs) s1"
    using kmem_ok_kfree [OF Suc.prems(1) valid] Suc.prems(5) by fastforce
  have up: "p < p + 4096" using next_p by (simp add: word_less_nat_alt)
  have "\<exists>s'. freerange_loop (p + PGSIZE) PHYSTOP s1 = Ok s' \<and>
      kmem_ok e (rev (page_run (p + PGSIZE) n) @ p # xs) s'"
    using Suc.prems s1(2) next_p up
    by (intro Suc.IH page_aligned_next) auto
  then obtain s' where s': "freerange_loop (p + PGSIZE) PHYSTOP s1 = Ok s'"
    "kmem_ok e (rev (page_run (p + PGSIZE) n) @ p # xs) s'" by blast
  have "p + PGSIZE \<le> PHYSTOP"
    using next_p Suc.prems(4) by (simp add: word_le_nat_alt)
  with s1 s' show ?case
    by (subst freerange_loop.simps) (simp add: page_run_Suc)
qed

lemma kmem_ok_kinit_start:
  "kend (img s) = e \<Longrightarrow> KERNBASE \<le> e \<Longrightarrow> cpu_ok s \<Longrightarrow> freelist s = 0 \<Longrightarrow> kmem_ok e [] (initlock LKmem ''kmem'' s)"
  by (simp add: kmem_ok_def)

text \<open>
  From a state with an empty list, \<open>kinit\<close> frees every whole page between \<open>end\<close> and
  \<open>PHYSTOP\<close>, the lowest first.
\<close>

lemma kinit_pages:
  assumes "kend (img s) = e" and "KERNBASE \<le> e" and "e \<le> PHYSTOP" and "cpu_ok s" and "freelist s = 0"
  shows "\<exists>s'. kinit s = Ok s' \<and>
    kmem_ok e (rev (page_run (PGROUNDUP e) ((unat PHYSTOP - unat (PGROUNDUP e)) div 4096))) s'"
proof -
  have b: "unat e \<le> 2281701376" using assms(3) by (simp add: word_le_nat_alt)
  have u: "unat (PGROUNDUP e) = (unat e + 4095) div 4096 * 4096"
    using b by (intro unat_PGROUNDUP) simp
  let ?n = "(unat PHYSTOP - unat (PGROUNDUP e)) div 4096"
  have n: "unat (PGROUNDUP e) + 4096 * ?n = unat PHYSTOP" using b by (simp add: u)
  have "page_aligned (PGROUNDUP e)" by (simp add: page_aligned_dvd u)
  moreover have "e \<le> PGROUNDUP e" by (simp add: word_le_nat_alt u)
  ultimately show ?thesis
    using freerange_loop_pages [OF kmem_ok_kinit_start [OF assms(1,2,4,5)] _ _ n]
    by (simp add: kinit_def freerange_def assms(1))
qed

section \<open>Properties\<close>

text \<open>A linked image, and a machine that has just started with all of its memory zero.\<close>

definition example_image :: image where
  "example_image = \<lparr>kend = 0x80022000, etext = 0x80008000, trampoline = 0x80007000, uservec = 0x80007000,
     userret = 0x8000709a, kernelvec = 0x80005b10, usertrap_addr = 0x80002b00, forkret_addr = 0x80001a00\<rparr>"

definition boot_phys :: phys where
  "boot_phys = mach.extend idle_mach \<lparr>img = example_image, mem = (\<lambda>_. 0), freelist = 0\<rparr>"

lemma boot_phys_simps [simp]:
  "img boot_phys = example_image" "freelist boot_phys = 0" "mem boot_phys = (\<lambda>_. 0)" "cpu_ok boot_phys"
  "lock_free l boot_phys"
  by (simp_all add: boot_phys_def idle_mach_def mach.defs phys.defs cpu_ok_def lock_free_def mach_defs)

text \<open>C13. Boot.  \<open>kinit\<close> returns and the free list then holds every whole page from the end of
  the kernel to the end of memory, once each.\<close>

theorem kinit_all_pages:
  assumes "KERNBASE \<le> kend (img s)" and "kend (img s) \<le> PHYSTOP" and "cpu_ok s" and "freelist s = 0"
  shows "\<exists>s' xs. kinit s = Ok s' \<and> kmem_ok (kend (img s)) xs s' \<and> set xs =
    {p. page_aligned p \<and> kend (img s) \<le> p \<and> p < PHYSTOP}"
proof -
  let ?e = "kend (img s)" and ?p = "PGROUNDUP (kend (img s))"
  let ?n = "(unat PHYSTOP - unat ?p) div 4096"
  obtain s' where s': "kinit s = Ok s'" "kmem_ok ?e (rev (page_run ?p ?n)) s'"
    using kinit_pages [OF refl assms] by blast
  have b: "unat ?e \<le> 2281701376" using assms(2) by (simp add: word_le_nat_alt)
  have u: "unat ?p = (unat ?e + 4095) div 4096 * 4096" using b by (intro unat_PGROUNDUP) simp
  have "p \<in> set (page_run ?p ?n)" if p: "page_aligned p" "?e \<le> p" "p < PHYSTOP" for p
  proof -
    obtain k where k: "unat p = 4096 * k" using p(1) by (auto simp: page_aligned_dvd dvd_def)
    have le: "unat ?e \<le> 4096 * k" and lt: "4096 * k < 2281701376"
      using p(2,3) by (simp_all add: word_le_nat_alt word_less_nat_alt k)
    define j where "j = k - (unat ?e + 4095) div 4096"
    have j: "unat ?p + 4096 * j = unat p" "j < ?n"
      using le lt by (simp_all add: u k j_def)
    then have "p = ?p + of_nat j * 4096"
      using lt by (simp add: word_unat_eq_iff unat_word_ariths unat_of_nat_u64 k)
    then show ?thesis using j(2) by (auto simp: page_run_def)
  qed
  moreover have "set (page_run ?p ?n) \<subseteq> {p. page_aligned p \<and> ?e \<le> p \<and> p < PHYSTOP}"
    using s'(2) by (auto simp: kmem_ok_def valid_page_def)
  ultimately have "set (rev (page_run ?p ?n)) = {p. page_aligned p \<and> ?e \<le> p \<and> p < PHYSTOP}" by auto
  with s' show ?thesis by blast
qed

theorem kinit_all_pages_witness:
  "\<exists>s' xs. kinit boot_phys = Ok s' \<and> kmem_ok 0x80022000 xs s' \<and> 0x80022000 \<in> set xs"
proof -
  obtain s' xs where "kinit boot_phys = Ok s'" "kmem_ok 0x80022000 xs s'"
    "set xs = {p. page_aligned p \<and> 0x80022000 \<le> p \<and> p < PHYSTOP}"
    using kinit_all_pages [of boot_phys] by (auto simp: example_image_def)
  moreover have "page_aligned 0x80022000" by (simp add: page_aligned_def)
  ultimately show ?thesis by (intro exI [of _ s'] exI [of _ xs]) simp
qed

text \<open>C12. The allocator implements a stack of free pages.  In a state that stands for the list
  \<open>xs\<close>, \<open>kalloc\<close> returns the first page and stands for the rest, or returns 0 when the list is
  empty; \<open>kfree\<close> of a page that is not free puts it in front.  Neither changes a byte outside the
  page it is about.\<close>

theorem kalloc_stack:
  assumes "kmem_ok e xs s"
  shows "(\<exists>s'. kalloc s = Ok (if xs = [] then 0 else hd xs, s') \<and> kmem_ok e (tl xs) s' \<and>
      same_outside (set (take 1 xs)) (mem s) (mem s')) \<and>
    (valid_page e p \<and> p \<notin> set xs \<longrightarrow>
      (\<exists>s'. kfree p s = Ok s' \<and> kmem_ok e (p # xs) s' \<and> same_outside {p} (mem s) (mem s')))"
proof (intro conjI impI)
  show "\<exists>s'. kalloc s = Ok (if xs = [] then 0 else hd xs, s') \<and> kmem_ok e (tl xs) s' \<and>
      same_outside (set (take 1 xs)) (mem s) (mem s')"
  proof (cases xs)
    case Nil
    then show ?thesis using ka.alloc_none [of e s] assms by (auto simp: same_outside_def)
  next
    case (Cons x ys)
    then show ?thesis using ka.alloc_some [of e x ys s] assms by auto
  qed
  show "\<exists>s'. kfree p s = Ok s' \<and> kmem_ok e (p # xs) s' \<and> same_outside {p} (mem s) (mem s')"
    if "valid_page e p \<and> p \<notin> set xs"
    using ka.free_ok [OF assms, of p] that by simp
qed

theorem kalloc_stack_witness:
  "(\<exists>s'. kalloc boot_phys = Ok (0, s') \<and> kmem_ok 0x80022000 [] s') \<and>
   (\<exists>s'. kfree 0x80030000 boot_phys = Ok s' \<and> kmem_ok 0x80022000 [0x80030000] s')"
proof -
  have "kmem_ok 0x80022000 [] boot_phys" "valid_page 0x80022000 0x80030000"
    by (simp_all add: kmem_ok_def example_image_def valid_page_def page_aligned_def)
  with kalloc_stack [of "0x80022000" "[]" boot_phys "0x80030000"] show ?thesis by auto
qed

end
