(* ===== verification/Vm.thy ===== *)
theory Vm
  imports Kalloc
begin

text \<open>
  \<open>kernel/vm.c\<close>: Sv39 page tables held in physical memory.  Page tables and user pages are
  bytes of \<open>mem\<close>; every routine reads and writes page-table entries there, allocates with
  \<open>kalloc\<close> and frees with \<open>kfree\<close>.  Buffers on the kernel side of \<open>copyin\<close> and
  \<open>copyout\<close> are byte lists.
\<close>

section \<open>Walking a page table\<close>

fun walk_levels :: "nat \<Rightarrow> u64 \<Rightarrow> u64 \<Rightarrow> bool \<Rightarrow> 'a phys_scheme \<Rightarrow> (u64 \<times> 'a phys_scheme) res" where
  "walk_levels 0 pagetable va al s = Ok (pagetable + 8 * PX 0 va, s)"
| "walk_levels (Suc level) pagetable va al s =
     (let pte = pagetable + 8 * PX (Suc level) va;
          e = load64 (mem s) pte
      in if e AND PTE_V \<noteq> 0 then walk_levels level (PTE2PA e) va al s
         else if \<not> al then Ok (0, s)
         else bindR (kalloc s) (\<lambda>(pg, s1).
           if pg = 0 then Ok (0, s1)
           else let s2 = s1\<lparr>mem := memset pg 0 4096 (mem s1)\<rparr>;
                    s3 = s2\<lparr>mem := store64 pte (PA2PTE pg OR PTE_V) (mem s2)\<rparr>
                in walk_levels level pg va al s3))"

definition walk :: "u64 \<Rightarrow> u64 \<Rightarrow> bool \<Rightarrow> 'a phys_scheme \<Rightarrow> (u64 \<times> 'a phys_scheme) res" where
  "walk pagetable va al s =
     (if va \<ge> MAXVA then Panic ''walk'' else walk_levels 2 pagetable va al s)"

definition walkaddr :: "u64 \<Rightarrow> u64 \<Rightarrow> 'a phys_scheme \<Rightarrow> (u64 \<times> 'a phys_scheme) res" where
  "walkaddr pagetable va s =
     (if va \<ge> MAXVA then Ok (0, s)
      else bindR (walk pagetable va False s) (\<lambda>(pte, s1).
        if pte = 0 then Ok (0, s1)
        else if load64 (mem s1) pte AND PTE_V = 0 then Ok (0, s1)
        else if load64 (mem s1) pte AND PTE_U = 0 then Ok (0, s1)
        else Ok (PTE2PA (load64 (mem s1) pte), s1)))"

lemma walk_OkD: "walk pagetable va al s = Ok r \<Longrightarrow> unat va < unat MAXVA"
  by (auto simp: walk_def word_le_nat_alt not_le split: if_splits)

lemma unat_next_page: "unat a < unat MAXVA \<Longrightarrow> unat (a + PGSIZE) = unat a + 4096"
  using unat_add_no_wrap [of a 4096] by simp

section \<open>Mapping and unmapping\<close>

text \<open>\<open>walk\<close> panics at \<open>MAXVA\<close>, which bounds every loop over virtual addresses.\<close>

function mappages_loop ::
  "u64 \<Rightarrow> u64 \<Rightarrow> u64 \<Rightarrow> u64 \<Rightarrow> u64 \<Rightarrow> 'a phys_scheme \<Rightarrow> (i32 \<times> 'a phys_scheme) res" where
  "mappages_loop pagetable a lst pa perm s =
     bindR (walk pagetable a True s) (\<lambda>(pte, s1).
       if pte = 0 then Ok (-1, s1)
       else if load64 (mem s1) pte AND PTE_V \<noteq> 0 then Panic ''mappages: remap''
       else let s2 = s1\<lparr>mem := store64 pte (PA2PTE pa OR perm OR PTE_V) (mem s1)\<rparr>
            in if a = lst then Ok (0, s2)
               else mappages_loop pagetable (a + PGSIZE) lst (pa + PGSIZE) perm s2)"
  by pat_completeness auto
termination
  by (relation "measure (\<lambda>(pt, a, lst, pa, perm, s). unat MAXVA - unat a)")
     (auto dest!: walk_OkD simp: unat_next_page)

declare mappages_loop.simps [simp del]

definition mappages ::
  "u64 \<Rightarrow> u64 \<Rightarrow> u64 \<Rightarrow> u64 \<Rightarrow> u64 \<Rightarrow> 'a phys_scheme \<Rightarrow> (i32 \<times> 'a phys_scheme) res" where
  "mappages pagetable va sz pa perm s =
     (if va mod PGSIZE \<noteq> 0 then Panic ''mappages: va not aligned''
      else if sz mod PGSIZE \<noteq> 0 then Panic ''mappages: size not aligned''
      else if sz = 0 then Panic ''mappages: size''
      else mappages_loop pagetable va (va + sz - PGSIZE) pa perm s)"

definition kvmmap ::
  "u64 \<Rightarrow> u64 \<Rightarrow> u64 \<Rightarrow> u64 \<Rightarrow> u64 \<Rightarrow> 'a phys_scheme \<Rightarrow> 'a phys_scheme res" where
  "kvmmap kpgtbl va pa sz perm s =
     bindR (mappages kpgtbl va sz pa perm s) (\<lambda>(r, s1).
       if r \<noteq> 0 then Panic ''kvmmap'' else Ok s1)"

function uvmunmap_loop ::
  "u64 \<Rightarrow> u64 \<Rightarrow> u64 \<Rightarrow> bool \<Rightarrow> 'a phys_scheme \<Rightarrow> 'a phys_scheme res" where
  "uvmunmap_loop pagetable a lst do_free s =
     (if a < lst
      then bindR (walk pagetable a False s) (\<lambda>(pte, s1).
        if pte = 0 then Panic ''uvmunmap: walk''
        else let e = load64 (mem s1) pte
             in if e AND PTE_V = 0 then Panic ''uvmunmap: not mapped''
                else if PTE_FLAGS e = PTE_V then Panic ''uvmunmap: not a leaf''
                else bindR (if do_free then kfree (PTE2PA e) s1 else Ok s1) (\<lambda>s2.
                  uvmunmap_loop pagetable (a + PGSIZE) lst do_free
                    (s2\<lparr>mem := store64 pte 0 (mem s2)\<rparr>)))
      else Ok s)"
  by pat_completeness auto
termination
  by (relation "measure (\<lambda>(pt, a, lst, df, s). unat MAXVA - unat a)")
     (auto dest!: walk_OkD simp: unat_next_page)

declare uvmunmap_loop.simps [simp del]

definition uvmunmap :: "u64 \<Rightarrow> u64 \<Rightarrow> u64 \<Rightarrow> bool \<Rightarrow> 'a phys_scheme \<Rightarrow> 'a phys_scheme res" where
  "uvmunmap pagetable va npages do_free s =
     (if va mod PGSIZE \<noteq> 0 then Panic ''uvmunmap: not aligned''
      else uvmunmap_loop pagetable va (va + npages * PGSIZE) do_free s)"

section \<open>User address spaces\<close>

definition uvmcreate :: "'a phys_scheme \<Rightarrow> (u64 \<times> 'a phys_scheme) res" where
  "uvmcreate s =
     bindR (kalloc s) (\<lambda>(pagetable, s1).
       if pagetable = 0 then Ok (0, s1)
       else Ok (pagetable, s1\<lparr>mem := memset pagetable 0 4096 (mem s1)\<rparr>))"

definition store_bytes :: "u64 \<Rightarrow> u8 list \<Rightarrow> mem \<Rightarrow> mem" where
  "store_bytes a bs m = (\<lambda>x. if unat (x - a) < length bs then bs ! unat (x - a) else m x)"

definition load_bytes :: "mem \<Rightarrow> u64 \<Rightarrow> nat \<Rightarrow> u8 list" where
  "load_bytes m a n = map (\<lambda>i. m (a + of_nat i)) [0..<n]"

text \<open>As in the source, neither result of the two allocating calls is checked.\<close>

definition uvmfirst :: "u64 \<Rightarrow> u8 list \<Rightarrow> 'a phys_scheme \<Rightarrow> 'a phys_scheme res" where
  "uvmfirst pagetable src s =
     (if length src \<ge> 4096 then Panic ''uvmfirst: more than a page''
      else bindR (kalloc s) (\<lambda>(pg, s1).
        let s2 = s1\<lparr>mem := memset pg 0 4096 (mem s1)\<rparr>
        in bindR (mappages pagetable 0 PGSIZE pg (PTE_W OR PTE_R OR PTE_X OR PTE_U) s2) (\<lambda>(r, s3).
          Ok (s3\<lparr>mem := store_bytes pg src (mem s3)\<rparr>))))"

text \<open>The page count is narrowed to \<open>int\<close> and widened again, as in the source.\<close>

definition uvmdealloc :: "u64 \<Rightarrow> u64 \<Rightarrow> u64 \<Rightarrow> 'a phys_scheme \<Rightarrow> (u64 \<times> 'a phys_scheme) res" where
  "uvmdealloc pagetable oldsz newsz s =
     (if newsz \<ge> oldsz then Ok (oldsz, s)
      else if PGROUNDUP newsz < PGROUNDUP oldsz
      then let npages = (ucast ((PGROUNDUP oldsz - PGROUNDUP newsz) div PGSIZE) :: i32)
           in bindR (uvmunmap pagetable (PGROUNDUP newsz) (scast npages) True s) (\<lambda>s1. Ok (newsz, s1))
      else Ok (newsz, s))"

lemma mappages_OkD: "mappages pagetable va sz pa perm s = Ok r \<Longrightarrow> unat va < unat MAXVA"
  by (subst (asm) mappages_def, subst (asm) mappages_loop.simps)
     (auto split: if_splits elim!: bindR_OkE dest: walk_OkD)

function uvmalloc_loop ::
  "u64 \<Rightarrow> u64 \<Rightarrow> u64 \<Rightarrow> u64 \<Rightarrow> u64 \<Rightarrow> 'a phys_scheme \<Rightarrow> (u64 \<times> 'a phys_scheme) res" where
  "uvmalloc_loop pagetable a oldsz newsz xperm s =
     (if a < newsz
      then bindR (kalloc s) (\<lambda>(pg, s1).
        if pg = 0
        then bindR (uvmdealloc pagetable a oldsz s1) (\<lambda>(_, s2). Ok (0, s2))
        else bindR (mappages pagetable a PGSIZE pg (PTE_R OR PTE_U OR xperm)
                      (s1\<lparr>mem := memset pg 0 4096 (mem s1)\<rparr>)) (\<lambda>(r, s2).
          if r \<noteq> 0
          then bindR (kfree pg s2) (\<lambda>s3.
               bindR (uvmdealloc pagetable a oldsz s3) (\<lambda>(_, s4). Ok (0, s4)))
          else uvmalloc_loop pagetable (a + PGSIZE) oldsz newsz xperm s2))
      else Ok (newsz, s))"
  by pat_completeness auto
termination
  by (relation "measure (\<lambda>(pt, a, oldsz, newsz, xperm, s). unat MAXVA - unat a)")
     (auto dest!: mappages_OkD simp: unat_next_page)

declare uvmalloc_loop.simps [simp del]

definition uvmalloc ::
  "u64 \<Rightarrow> u64 \<Rightarrow> u64 \<Rightarrow> u64 \<Rightarrow> 'a phys_scheme \<Rightarrow> (u64 \<times> 'a phys_scheme) res" where
  "uvmalloc pagetable oldsz newsz xperm s =
     (if newsz < oldsz then Ok (oldsz, s)
      else uvmalloc_loop pagetable (PGROUNDUP oldsz) (PGROUNDUP oldsz) newsz xperm s)"

text \<open>
  The recursion of \<open>freewalk\<close> follows the table; the first argument bounds its depth.  Sv39
  tables have three levels, so 3 is enough for every table the kernel builds.
\<close>

primrec freewalk :: "nat \<Rightarrow> u64 \<Rightarrow> 'a phys_scheme \<Rightarrow> 'a phys_scheme res" where
  "freewalk 0 pagetable s = Spin"
| "freewalk (Suc d) pagetable s =
     bindR (foldR (\<lambda>i s.
       let pte = load64 (mem s) (pagetable + 8 * of_nat i)
       in if pte AND PTE_V \<noteq> 0 \<and> pte AND (PTE_R OR PTE_W OR PTE_X) = 0
          then bindR (freewalk d (PTE2PA pte) s) (\<lambda>s1.
                 Ok (s1\<lparr>mem := store64 (pagetable + 8 * of_nat i) 0 (mem s1)\<rparr>))
          else if pte AND PTE_V \<noteq> 0 then Panic ''freewalk: leaf''
          else Ok s) [0..<512] s) (kfree pagetable)"

definition uvmfree :: "u64 \<Rightarrow> u64 \<Rightarrow> 'a phys_scheme \<Rightarrow> 'a phys_scheme res" where
  "uvmfree pagetable sz s =
     bindR (if sz > 0 then uvmunmap pagetable 0 (PGROUNDUP sz div PGSIZE) True s else Ok s)
       (freewalk 3 pagetable)"

function uvmcopy_loop ::
  "u64 \<Rightarrow> u64 \<Rightarrow> u64 \<Rightarrow> u64 \<Rightarrow> 'a phys_scheme \<Rightarrow> (i32 \<times> 'a phys_scheme) res" where
  "uvmcopy_loop old new i sz s =
     (if i < sz
      then bindR (walk old i False s) (\<lambda>(pte, s1).
        if pte = 0 then Panic ''uvmcopy: pte should exist''
        else let e = load64 (mem s1) pte
             in if e AND PTE_V = 0 then Panic ''uvmcopy: page not present''
                else bindR (kalloc s1) (\<lambda>(pg, s2).
                  if pg = 0
                  then bindR (uvmunmap new 0 (i div PGSIZE) True s2) (\<lambda>s3. Ok (-1, s3))
                  else bindR (mappages new i PGSIZE pg (PTE_FLAGS e)
                                (s2\<lparr>mem := memmove pg (PTE2PA e) 4096 (mem s2)\<rparr>)) (\<lambda>(r, s3).
                    if r \<noteq> 0
                    then bindR (kfree pg s3) (\<lambda>s4.
                         bindR (uvmunmap new 0 (i div PGSIZE) True s4) (\<lambda>s5. Ok (-1, s5)))
                    else uvmcopy_loop old new (i + PGSIZE) sz s3)))
      else Ok (0, s))"
  by pat_completeness auto
termination
  by (relation "measure (\<lambda>(old, new, i, sz, s). unat MAXVA - unat i)")
     (auto dest!: walk_OkD simp: unat_next_page)

declare uvmcopy_loop.simps [simp del]

definition uvmcopy :: "u64 \<Rightarrow> u64 \<Rightarrow> u64 \<Rightarrow> 'a phys_scheme \<Rightarrow> (i32 \<times> 'a phys_scheme) res" where
  "uvmcopy old new sz s = uvmcopy_loop old new 0 sz s"

definition uvmclear :: "u64 \<Rightarrow> u64 \<Rightarrow> 'a phys_scheme \<Rightarrow> 'a phys_scheme res" where
  "uvmclear pagetable va s =
     bindR (walk pagetable va False s) (\<lambda>(pte, s1).
       if pte = 0 then Panic ''uvmclear''
       else Ok (s1\<lparr>mem := store64 pte (load64 (mem s1) pte AND NOT PTE_U) (mem s1)\<rparr>))"

section \<open>Copying between kernel and user memory\<close>

text \<open>The number of bytes from an address to the end of its page is never zero.\<close>

definition page_rest :: "u64 \<Rightarrow> nat" where
  "page_rest va = unat (PGSIZE - (va - PGROUNDDOWN va))"

lemma unat_page_offset: "unat (va - PGROUNDDOWN va) = unat va mod 4096"
proof -
  have "PGROUNDDOWN va \<le> va"
    by (simp add: word_le_nat_alt unat_PGROUNDDOWN)
  then show ?thesis
    by (simp add: unat_sub unat_PGROUNDDOWN minus_div_mult_eq_mod)
qed

lemma page_rest_eq: "page_rest va = 4096 - unat va mod 4096"
proof -
  have "va - PGROUNDDOWN va \<le> 4096"
    by (simp add: word_le_nat_alt unat_page_offset)
  then show ?thesis
    unfolding page_rest_def by (simp add: unat_sub unat_page_offset)
qed

lemma page_rest_pos [simp]: "0 < page_rest va"
  by (simp add: page_rest_eq)

function copyout :: "u64 \<Rightarrow> u64 \<Rightarrow> u8 list \<Rightarrow> 'a phys_scheme \<Rightarrow> (i32 \<times> 'a phys_scheme) res" where
  "copyout pagetable dstva src s =
     (if src = [] then Ok (0, s)
      else let va0 = PGROUNDDOWN dstva
           in if va0 \<ge> MAXVA then Ok (-1, s)
              else bindR (walk pagetable va0 False s) (\<lambda>(pte, s1).
                let e = load64 (mem s1) pte
                in if pte = 0 \<or> e AND PTE_V = 0 \<or> e AND PTE_U = 0 \<or> e AND PTE_W = 0
                   then Ok (-1, s1)
                   else let n = min (page_rest dstva) (length src)
                        in copyout pagetable (va0 + PGSIZE) (drop n src)
                             (s1\<lparr>mem := store_bytes (PTE2PA e + (dstva - va0)) (take n src) (mem s1)\<rparr>)))"
  by pat_completeness auto
termination
  by (relation "measure (\<lambda>(pt, dstva, src, s). length src)") auto

declare copyout.simps [simp del]

text \<open>\<open>copyin\<close> yields the return value and the bytes written to \<open>dst\<close> so far.\<close>

function copyin :: "u64 \<Rightarrow> u64 \<Rightarrow> nat \<Rightarrow> 'a phys_scheme \<Rightarrow> (i32 \<times> u8 list \<times> 'a phys_scheme) res" where
  "copyin pagetable srcva len s =
     (if len = 0 then Ok (0, [], s)
      else let va0 = PGROUNDDOWN srcva
           in bindR (walkaddr pagetable va0 s) (\<lambda>(pa0, s1).
             if pa0 = 0 then Ok (-1, [], s1)
             else let n = min (page_rest srcva) len
                  in bindR (copyin pagetable (va0 + PGSIZE) (len - n) s1) (\<lambda>(r, bs, s2).
                       Ok (r, load_bytes (mem s1) (pa0 + (srcva - va0)) n @ bs, s2))))"
  by pat_completeness auto
termination
  by (relation "measure (\<lambda>(pt, srcva, len, s). len)") auto

declare copyin.simps [simp del]

fun copyinstr_page :: "mem \<Rightarrow> u64 \<Rightarrow> nat \<Rightarrow> u8 list \<times> bool" where
  "copyinstr_page m p 0 = ([], False)"
| "copyinstr_page m p (Suc n) =
     (if m p = 0 then ([0], True)
      else let (bs, got_null) = copyinstr_page m (p + 1) n in (m p # bs, got_null))"

function copyinstr :: "u64 \<Rightarrow> u64 \<Rightarrow> nat \<Rightarrow> 'a phys_scheme \<Rightarrow> (i32 \<times> u8 list \<times> 'a phys_scheme) res" where
  "copyinstr pagetable srcva maxn s =
     (if maxn = 0 then Ok (-1, [], s)
      else let va0 = PGROUNDDOWN srcva
           in bindR (walkaddr pagetable va0 s) (\<lambda>(pa0, s1).
             if pa0 = 0 then Ok (-1, [], s1)
             else let n = min (page_rest srcva) maxn;
                      (bs, got_null) = copyinstr_page (mem s1) (pa0 + (srcva - va0)) n
                  in if got_null then Ok (0, bs, s1)
                     else bindR (copyinstr pagetable (va0 + PGSIZE) (maxn - n) s1) (\<lambda>(r, cs, s2).
                       Ok (r, bs @ cs, s2))))"
  by pat_completeness auto
termination
  by (relation "measure (\<lambda>(pt, srcva, maxn, s). maxn)") auto

declare copyinstr.simps [simp del]

section \<open>The kernel page table\<close>

abbreviation (input) UART0 :: u64 where "UART0 \<equiv> 0x10000000"
abbreviation (input) VIRTIO0 :: u64 where "VIRTIO0 \<equiv> 0x10001000"
abbreviation (input) PLIC :: u64 where "PLIC \<equiv> 0x0c000000"

definition proc_mapstacks :: "u64 \<Rightarrow> 'a phys_scheme \<Rightarrow> 'a phys_scheme res" where
  "proc_mapstacks kpgtbl =
     foldR (\<lambda>i s. bindR (kalloc s) (\<lambda>(pa, s1).
       if pa = 0 then Panic ''kalloc''
       else kvmmap kpgtbl (KSTACK i) pa PGSIZE (PTE_R OR PTE_W) s1)) [0..<NPROC]"

definition kvmmake :: "'a phys_scheme \<Rightarrow> (u64 \<times> 'a phys_scheme) res" where
  "kvmmake s =
     bindR (kalloc s) (\<lambda>(kpgtbl, s).
     bindR (kvmmap kpgtbl UART0 UART0 PGSIZE (PTE_R OR PTE_W)
              (s\<lparr>mem := memset kpgtbl 0 4096 (mem s)\<rparr>)) (\<lambda>s.
     bindR (kvmmap kpgtbl VIRTIO0 VIRTIO0 PGSIZE (PTE_R OR PTE_W) s) (\<lambda>s.
     bindR (kvmmap kpgtbl PLIC PLIC 0x4000000 (PTE_R OR PTE_W) s) (\<lambda>s.
     bindR (kvmmap kpgtbl KERNBASE KERNBASE (etext (img s) - KERNBASE) (PTE_R OR PTE_X) s) (\<lambda>s.
     bindR (kvmmap kpgtbl (etext (img s)) (etext (img s)) (PHYSTOP - etext (img s)) (PTE_R OR PTE_W) s) (\<lambda>s.
     bindR (kvmmap kpgtbl TRAMPOLINE (trampoline (img s)) PGSIZE (PTE_R OR PTE_X) s) (\<lambda>s.
     bindR (proc_mapstacks kpgtbl s) (\<lambda>s.
     Ok (kpgtbl, s)))))))))"

record vm = phys +
  kernel_pagetable :: u64
  satp :: "nat \<Rightarrow> u64"

definition kvminit :: "'a vm_scheme \<Rightarrow> 'a vm_scheme res" where
  "kvminit s = bindR (kvmmake s) (\<lambda>(pt, s1). Ok (s1\<lparr>kernel_pagetable := pt\<rparr>))"

definition MAKE_SATP :: "u64 \<Rightarrow> u64" where
  "MAKE_SATP pagetable = push_bit 60 8 OR drop_bit 12 pagetable"

definition kvminithart :: "'a vm_scheme \<Rightarrow> 'a vm_scheme" where
  "kvminithart s = s\<lparr>satp := (satp s)(tp s := MAKE_SATP (kernel_pagetable s))\<rparr>"

end
