(* ===== verification/Printf.thy ===== *)
theory Printf
  imports Vm
begin

text \<open>
  Console output: \<open>uartputc_sync\<close> of \<open>kernel/uart.c\<close>, \<open>consputc\<close> of
  \<open>kernel/console.c\<close> and \<open>kernel/printf.c\<close>.  The bytes written to the transmit register
  are the field \<open>uart_out\<close>.
\<close>

record conout = vm +
  panicked :: bool
  pr_locking :: bool
  uart_out :: "u8 list"

section \<open>Characters\<close>

text \<open>The device takes a byte once its status register says so; the loop that polls the register until then changes
  nothing and is left out.  A device that is never ready would keep the hart in it for ever.\<close>

definition uartputc_sync :: "i32 \<Rightarrow> 'a conout_scheme \<Rightarrow> 'a conout_scheme res" where
  "uartputc_sync c s =
     (let s1 = push_off s
      in if panicked s1 then Spin
         else pop_off (s1\<lparr>uart_out := uart_out s1 @ [ucast c]\<rparr>))"

definition BACKSPACE :: i32 where "BACKSPACE = 0x100"

definition consputc :: "i32 \<Rightarrow> 'a conout_scheme \<Rightarrow> 'a conout_scheme res" where
  "consputc c s =
     (if c = BACKSPACE
      then bindR (uartputc_sync 8 s) (\<lambda>s. bindR (uartputc_sync 32 s) (uartputc_sync 8))
      else uartputc_sync c s)"

section \<open>Formatting\<close>

definition bytes :: "string \<Rightarrow> u8 list" where
  "bytes = map of_char"

definition digit :: "nat \<Rightarrow> u8" where
  "digit d = of_char (''0123456789abcdef'' ! d)"

text \<open>The digit loop of \<open>printint\<close>, least significant first; every caller has base 10 or 16.\<close>

function digits_lsb :: "nat \<Rightarrow> nat \<Rightarrow> nat list" where
  "digits_lsb base x =
     (if base < 2 then []
      else x mod base # (if x div base \<noteq> 0 then digits_lsb base (x div base) else []))"
  by pat_completeness auto
termination
  by (relation "measure snd") (auto simp: div_greater_zero_iff)

declare digits_lsb.simps [simp del]

text \<open>The bytes \<open>printint\<close> emits; a 17th byte would be stored outside \<open>buf[16]\<close>.\<close>

definition printint :: "u64 \<Rightarrow> nat \<Rightarrow> bool \<Rightarrow> u8 list res" where
  "printint xx base sgnd =
     (let neg = sgnd \<and> sint xx < 0;
          x = (if neg then - xx else xx);
          buf = map digit (digits_lsb base (unat x)) @ (if neg then bytes ''-'' else [])
      in if length buf > 16 then Undef else Ok (rev buf))"

definition printptr :: "u64 \<Rightarrow> u8 list" where
  "printptr x = bytes ''0x'' @
     map (\<lambda>i. digit (unat (drop_bit 60 (push_bit (4 * i) x)))) [0..<16]"

datatype va = VInt i32 | VU64 u64 | VStr "u8 list option"

datatype conv = ConvInt nat bool | ConvLong nat bool | ConvPtr | ConvStr | ConvPercent | ConvOther char

text \<open>The conversion after a \<open>%\<close> and how many more characters of the format it takes.\<close>

definition conversion :: "char \<Rightarrow> char option \<Rightarrow> char option \<Rightarrow> conv \<times> nat" where
  "conversion c0 c1 c2 =
     (if c0 = CHR ''d'' then (ConvInt 10 True, 0)
      else if c0 = CHR ''l'' \<and> c1 = Some CHR ''d'' then (ConvLong 10 True, 1)
      else if c0 = CHR ''l'' \<and> c1 = Some CHR ''l'' \<and> c2 = Some CHR ''d'' then (ConvLong 10 True, 2)
      else if c0 = CHR ''u'' then (ConvInt 10 False, 0)
      else if c0 = CHR ''l'' \<and> c1 = Some CHR ''u'' then (ConvLong 10 False, 1)
      else if c0 = CHR ''l'' \<and> c1 = Some CHR ''l'' \<and> c2 = Some CHR ''u'' then (ConvLong 10 False, 2)
      else if c0 = CHR ''x'' then (ConvInt 16 False, 0)
      else if c0 = CHR ''l'' \<and> c1 = Some CHR ''x'' then (ConvLong 16 False, 1)
      else if c0 = CHR ''l'' \<and> c1 = Some CHR ''l'' \<and> c2 = Some CHR ''x'' then (ConvLong 16 False, 2)
      else if c0 = CHR ''p'' then (ConvPtr, 0)
      else if c0 = CHR ''s'' then (ConvStr, 0)
      else if c0 = CHR ''%'' then (ConvPercent, 0)
      else (ConvOther c0, 0))"

text \<open>The bytes a conversion emits and the arguments it leaves.\<close>

fun convert :: "conv \<Rightarrow> va list \<Rightarrow> (u8 list \<times> va list) res" where
  "convert (ConvInt base sgnd) (VInt n # ap) = bindR (printint (scast n) base sgnd) (\<lambda>bs. Ok (bs, ap))"
| "convert (ConvLong base sgnd) (VU64 n # ap) = bindR (printint n base sgnd) (\<lambda>bs. Ok (bs, ap))"
| "convert ConvPtr (VU64 n # ap) = Ok (printptr n, ap)"
| "convert ConvStr (VStr None # ap) = Ok (bytes ''(null)'', ap)"
| "convert ConvStr (VStr (Some bs) # ap) = Ok (bs, ap)"
| "convert ConvPercent ap = Ok (bytes ''%'', ap)"
| "convert (ConvOther c) ap = Ok (bytes [CHR ''%'', c], ap)"
| "convert _ _ = Undef"

definition nth_opt :: "'a list \<Rightarrow> nat \<Rightarrow> 'a option" where
  "nth_opt xs i = (if i < length xs then Some (xs ! i) else None)"

function vformat :: "string \<Rightarrow> va list \<Rightarrow> u8 list res" where
  "vformat fmt ap =
     (case fmt of
        [] \<Rightarrow> Ok []
      | cx # fmt1 \<Rightarrow>
          if cx \<noteq> CHR ''%'' then bindR (vformat fmt1 ap) (\<lambda>out. Ok (of_char cx # out))
          else (case fmt1 of
                  [] \<Rightarrow> Ok []
                | c0 # fmt2 \<Rightarrow>
                    let (cv, k) = conversion c0 (nth_opt fmt2 0) (nth_opt fmt2 1)
                    in bindR (convert cv ap) (\<lambda>(bs, ap1).
                         bindR (vformat (drop k fmt2) ap1) (\<lambda>out. Ok (bs @ out)))))"
  by pat_completeness auto
termination
  by (relation "measure (\<lambda>(fmt, ap). length fmt)") auto

declare vformat.simps [simp del]

lemma vformat_Nil: "vformat [] ap = Ok []"
  by (simp add: vformat.simps)

lemma vformat_char:
  "c \<noteq> CHR ''%'' \<Longrightarrow> vformat (c # fmt) ap = bindR (vformat fmt ap) (\<lambda>out. Ok (of_char c # out))"
  by (subst vformat.simps) simp

lemma vformat_d:
  "vformat (CHR ''%'' # CHR ''d'' # fmt) (VInt n # ap) =
     bindR (printint (scast n) 10 True) (\<lambda>bs. bindR (vformat fmt ap) (\<lambda>out. Ok (bs @ out)))"
  by (subst vformat.simps) (simp add: conversion_def bindR_assoc)

definition printf :: "string \<Rightarrow> va list \<Rightarrow> 'a conout_scheme \<Rightarrow> 'a conout_scheme res" where
  "printf fmt ap s =
     (let locking = pr_locking s
      in bindR (if locking then acquire LPr s else Ok s) (\<lambda>s.
         bindR (vformat fmt ap) (\<lambda>out.
         bindR (foldR (\<lambda>c. consputc (ucast c)) out s) (\<lambda>s.
         if locking then release LPr s else Ok s))))"

definition printfinit :: "'a conout_scheme \<Rightarrow> 'a conout_scheme" where
  "printfinit s = (initlock LPr ''pr'' s)\<lparr>pr_locking := True\<rparr>"

section \<open>Effect of console output\<close>

lemma uartputc_sync_nested:
  assumes "cpu_ok s" and "noff (mycpu s) \<noteq> 0" and "\<not> panicked s"
  shows "uartputc_sync c s = Ok (s\<lparr>uart_out := uart_out s @ [ucast c]\<rparr>)"
  using assms
  by (auto simp: uartputc_sync_def push_off_def pop_off_def cpu_ok_def mach_defs Let_def fun_upd_idem
      intro!: mach.equality)

lemma consputc_byte: "consputc (ucast (c :: u8)) s = uartputc_sync (ucast c) s"
proof -
  have "(ucast c :: i32) \<noteq> 0x100"
  proof
    assume "(ucast c :: i32) = 0x100"
    then have "unat (ucast c :: i32) = 256" by simp
    moreover have "unat (ucast c :: i32) = unat c"
      using unsigned_less [of c, where 'a = nat] by (simp add: unsigned_ucast_eq take_bit_nat_eq_self)
    ultimately show False using unsigned_less [of c, where 'a = nat] by simp
  qed
  then show ?thesis by (simp add: consputc_def BACKSPACE_def)
qed

lemma ucast_byte: "ucast (ucast (c :: u8) :: i32) = c"
  by (rule bit_word_eqI) (simp add: bit_simps)

lemma putc_list:
  assumes "cpu_ok s" and "noff (mycpu s) \<noteq> 0" and "\<not> panicked s"
  shows "foldR (\<lambda>c. consputc (ucast c)) out s = Ok (s\<lparr>uart_out := uart_out s @ out\<rparr>)"
  using assms
proof (induction out arbitrary: s)
  case (Cons c out)
  have "foldR (\<lambda>c. consputc (ucast c)) out (s\<lparr>uart_out := uart_out s @ [c]\<rparr>)
      = Ok (s\<lparr>uart_out := uart_out s @ c # out\<rparr>)"
    using Cons by (subst Cons.IH) (simp_all add: cpu_ok_def mach_defs)
  moreover have "consputc (ucast c) s = Ok (s\<lparr>uart_out := uart_out s @ [c]\<rparr>)"
    using Cons.prems by (simp add: consputc_byte uartputc_sync_nested ucast_byte)
  ultimately show ?case by simp
qed simp

lemma printf_out:
  assumes "cpu_ok s" and "pr_locking s" and "lock_free LPr s" and "\<not> panicked s"
    and "vformat fmt ap = Ok out"
  shows "printf fmt ap s = Ok ((settle s)\<lparr>uart_out := uart_out s @ out\<rparr>)"
proof -
  have "foldR (\<lambda>c. consputc (ucast c)) out (grab LPr s)
      = Ok ((grab LPr s)\<lparr>uart_out := uart_out s @ out\<rparr>)"
    using assms by (subst putc_list) (auto simp: cpu_ok_def grab_def mach_defs)
  then show ?thesis
    using assms release_grab [OF assms(1,3), of "(grab LPr s)\<lparr>uart_out := uart_out s @ out\<rparr>"]
    by (simp add: printf_def acquire_free) (simp add: grab_def settle_def)
qed

section \<open>Numbers\<close>

lemma digits_lsb_value:
  "2 \<le> base \<Longrightarrow> foldr (\<lambda>d v. d + base * v) (digits_lsb base x) 0 = x"
proof (induction base x rule: digits_lsb.induct)
  case (1 base x)
  show ?case
  proof (cases "x div base = 0")
    case False
    with 1 show ?thesis by (subst digits_lsb.simps) simp
  qed (use 1 in \<open>subst digits_lsb.simps, simp add: div_eq_0_iff\<close>)
qed

lemma digits_lsb_length:
  "2 \<le> base \<Longrightarrow> 0 < k \<Longrightarrow> x < base ^ k \<Longrightarrow> length (digits_lsb base x) \<le> k"
proof (induction k arbitrary: x)
  case (Suc k)
  show ?case
  proof (cases "x div base = 0")
    case False
    then have "0 < k" "x div base < base ^ k"
      using Suc.prems by (auto simp: div_eq_0_iff less_mult_imp_div_less mult.commute intro: gr0I)
    with Suc False show ?thesis by (subst digits_lsb.simps) simp
  qed (use Suc in \<open>subst digits_lsb.simps, simp\<close>)
qed simp

lemma printint_hex: "printint x 16 False = Ok (rev (map digit (digits_lsb 16 (unat x))))"
  using digits_lsb_length [of 16 16 "unat x"] unat_u64_lt [of x]
  by (simp add: printint_def)

lemma unat_abs_scast:
  "sint (n :: i32) < 0 \<Longrightarrow> unat (- (scast n :: u64)) = nat (- sint n)"
  "0 \<le> sint n \<Longrightarrow> unat (scast n :: u64) = nat (sint n)"
proof -
  note lo = sint_i32_ge [of n] and hi = sint_i32_lt [of n]
  { assume "sint n < 0"
    have "- (scast n :: u64) = word_of_int (- sint n)" by (simp only: scast_eq of_int_minus)
    then have "uint (- (scast n :: u64)) = (- sint n) mod 18446744073709551616"
      by (simp only: uint_word_of_int) simp
    also have "\<dots> = - sint n" using lo \<open>sint n < 0\<close> by (intro mod_pos_pos_trivial) auto
    finally show "unat (- (scast n :: u64)) = nat (- sint n)" by (simp add: unat_eq_nat_uint) }
  { assume "0 \<le> sint n"
    then have "uint (scast n :: u64) = sint n"
      unfolding scast_eq uint_word_of_int using hi by (intro mod_pos_pos_trivial) auto
    then show "unat (scast n :: u64) = nat (sint n)" by (simp add: unat_eq_nat_uint) }
qed

lemma printint_int:
  "\<exists>bs. printint (scast (n :: i32)) 10 True = Ok bs"
proof -
  let ?x = "if sint n < 0 then - (scast n :: u64) else scast n"
  have "unat ?x < 10 ^ 10"
    using unat_abs_scast [of n] sint_i32_ge [of n] sint_i32_lt [of n] by auto
  then have "length (digits_lsb 10 (unat ?x)) \<le> 10"
    by (intro digits_lsb_length) auto
  moreover have "sint (scast n :: u64) = sint n"
    unfolding signed_scast_eq
    by (rule signed_take_bit_int_eq_self) (use sint_i32_ge [of n] sint_i32_lt [of n] in simp_all)
  ultimately show ?thesis
    by (auto simp: printint_def bytes_def split: if_splits)
qed

end
