(* ===== verification/Cstring.thy ===== *)
theory Cstring
  imports Prelude
begin

text \<open>
  The C strings of \<open>kernel/string.c\<close>.  A character array is a list of bytes whose length is
  the size of the array; an access outside it is \<open>Undef\<close>.
\<close>

definition arr_get :: "'a list \<Rightarrow> nat \<Rightarrow> 'a res" where
  "arr_get xs i = (if i < length xs then Ok (xs ! i) else Undef)"

definition arr_set :: "'a list \<Rightarrow> nat \<Rightarrow> 'a \<Rightarrow> 'a list res" where
  "arr_set xs i v = (if i < length xs then Ok (xs[i := v]) else Undef)"

text \<open>The index \<open>i\<close> is how far both pointers have advanced, the first argument is \<open>n\<close>.\<close>

fun strncmp_loop :: "nat \<Rightarrow> nat \<Rightarrow> u8 list \<Rightarrow> u8 list \<Rightarrow> int res" where
  "strncmp_loop 0 i p q = Ok 0"
| "strncmp_loop (Suc n) i p q =
     bindR (arr_get p i) (\<lambda>a.
       if a = 0 then bindR (arr_get q i) (\<lambda>b. Ok (uint a - uint b))
       else bindR (arr_get q i) (\<lambda>b.
         if a = b then strncmp_loop n (Suc i) p q else Ok (uint a - uint b)))"

definition strncmp :: "u8 list \<Rightarrow> u8 list \<Rightarrow> nat \<Rightarrow> int res" where
  "strncmp p q n = strncmp_loop n 0 p q"

fun strncpy_pad :: "nat \<Rightarrow> nat \<Rightarrow> u8 list \<Rightarrow> u8 list res" where
  "strncpy_pad 0 i s = Ok s"
| "strncpy_pad (Suc n) i s = bindR (arr_set s i 0) (strncpy_pad n (Suc i))"

fun strncpy_loop :: "nat \<Rightarrow> nat \<Rightarrow> u8 list \<Rightarrow> u8 list \<Rightarrow> u8 list res" where
  "strncpy_loop 0 i s t = Ok s"
| "strncpy_loop (Suc n) i s t =
     bindR (arr_get t i) (\<lambda>c. bindR (arr_set s i c) (\<lambda>s1.
       if c \<noteq> 0 then strncpy_loop n (Suc i) s1 t else strncpy_pad n (Suc i) s1))"

definition strncpy :: "u8 list \<Rightarrow> u8 list \<Rightarrow> nat \<Rightarrow> u8 list res" where
  "strncpy s t n = strncpy_loop n 0 s t"

fun safestrcpy_loop :: "nat \<Rightarrow> nat \<Rightarrow> u8 list \<Rightarrow> u8 list \<Rightarrow> u8 list res" where
  "safestrcpy_loop 0 i s t = arr_set s i 0"
| "safestrcpy_loop (Suc n) i s t =
     bindR (arr_get t i) (\<lambda>c. bindR (arr_set s i c) (\<lambda>s1.
       if c \<noteq> 0 then safestrcpy_loop n (Suc i) s1 t else arr_set s1 (Suc i) 0))"

definition safestrcpy :: "u8 list \<Rightarrow> u8 list \<Rightarrow> nat \<Rightarrow> u8 list res" where
  "safestrcpy s t n = (if n = 0 then Ok s else safestrcpy_loop (n - 1) 0 s t)"

function strlen_from :: "nat \<Rightarrow> u8 list \<Rightarrow> nat res" where
  "strlen_from n s = bindR (arr_get s n) (\<lambda>c. if c \<noteq> 0 then strlen_from (Suc n) s else Ok n)"
  by pat_completeness auto
termination
  by (relation "measure (\<lambda>(n, s). length s - n)") (auto simp: arr_get_def split: if_splits)

declare strlen_from.simps [simp del]

definition strlen :: "u8 list \<Rightarrow> nat res" where
  "strlen s = strlen_from 0 s"

section \<open>What the routines compute\<close>

text \<open>The string an array holds: its bytes up to the first NUL.\<close>

definition cstr :: "u8 list \<Rightarrow> u8 list" where
  "cstr s = takeWhile (\<lambda>c. c \<noteq> 0) s"

lemma arr_get_nth [simp]: "i < length xs \<Longrightarrow> arr_get xs i = Ok (xs ! i)"
  by (simp add: arr_get_def)

lemma arr_set_upd [simp]: "i < length xs \<Longrightarrow> arr_set xs i v = Ok (xs[i := v])"
  by (simp add: arr_set_def)

lemma arr_set_length: "arr_set s i c = Ok s' \<Longrightarrow> length s' = length s"
  by (auto simp: arr_set_def split: if_splits)

lemma cstr_Cons [simp]: "cstr (c # s) = (if c = 0 then [] else c # cstr s)" and
  cstr_Nil [simp]: "cstr [] = []"
  by (simp_all add: cstr_def)

lemma strlen_from_cstr:
  "n \<le> length s \<Longrightarrow> 0 \<in> set (drop n s) \<Longrightarrow> strlen_from n s = Ok (n + length (cstr (drop n s)))"
proof (induction "length s - n" arbitrary: n)
  case 0
  then show ?case by simp
next
  case (Suc k)
  then have n: "n < length s" by simp
  with Suc.prems have "drop n s = s ! n # drop (Suc n) s" by (simp add: Cons_nth_drop_Suc)
  with Suc n show ?case by (subst strlen_from.simps) auto
qed

text \<open>
  \<open>safestrcpy\<close> leaves in the array the longest prefix of the source that fits with its NUL.
\<close>

lemma safestrcpy_loop_length: "safestrcpy_loop n i s t = Ok s' \<Longrightarrow> length s' = length s"
proof (induction n arbitrary: i s)
  case 0
  then show ?case by (auto dest: arr_set_length)
next
  case (Suc n)
  then obtain c s1 where "arr_set s i c = Ok s1"
    and "(if c \<noteq> 0 then safestrcpy_loop n (Suc i) s1 t else arr_set s1 (Suc i) 0) = Ok s'"
    by (auto simp only: safestrcpy_loop.simps elim!: bindR_OkE)
  then show ?case
    using Suc.IH [of "Suc i" s1] by (cases "c = 0") (simp_all add: arr_set_length)
qed

lemma safestrcpy_loop_cstr:
  assumes "i + n < length s" and "i \<le> length t" and "0 \<in> set (drop i t)" and "0 \<notin> set (take i s)"
  shows "\<exists>s'. safestrcpy_loop n i s t = Ok s' \<and> cstr s' = take i s @ take n (cstr (drop i t))"
  using assms
proof (induction n i s t rule: safestrcpy_loop.induct)
  case (1 i s t)
  then have "s[i := 0] = take i s @ 0 # drop (Suc i) s" by (simp add: upd_conv_take_nth_drop)
  with 1 show ?case by (auto simp: cstr_def takeWhile_append)
next
  case (2 n i s t)
  have i: "i < length t" "i < length s"
    using 2(2,4) by (cases "i < length t"; simp)+
  then have d: "drop i t = t ! i # drop (Suc i) t"
    by (simp add: Cons_nth_drop_Suc)
  show ?case
  proof (cases "t ! i = 0")
    case True
    then have "s[i := 0, Suc i := 0] = take i s @ 0 # (drop (Suc i) s)[0 := 0]"
      using 2(2) by (simp add: upd_conv_take_nth_drop take_Suc_conv_app_nth nth_append list_update_append1)
    with 2 i d True show ?thesis by (auto simp: cstr_def takeWhile_append)
  next
    case False
    have "\<exists>s'. safestrcpy_loop n (Suc i) (s[i := t ! i]) t = Ok s'
        \<and> cstr s' = take (Suc i) (s[i := t ! i]) @ take n (cstr (drop (Suc i) t))"
    proof (rule "2.IH")
      show "arr_get t i = Ok (t ! i)" "arr_set s i (t ! i) = Ok (s[i := t ! i])" using i by simp_all
      show "t ! i \<noteq> 0" by (fact False)
      show "Suc i + n < length (s[i := t ! i])" "Suc i \<le> length t" using 2(2) i by simp_all
      show "0 \<in> set (drop (Suc i) t)" using 2(4) d False by simp
      show "0 \<notin> set (take (Suc i) (s[i := t ! i]))"
        using 2(5) i False by (simp add: take_Suc_conv_app_nth)
    qed
    with i d False show ?thesis by (auto simp: take_Suc_conv_app_nth)
  qed
qed

lemma safestrcpy_cstr:
  assumes "0 < n" and "n \<le> length s" and "0 \<in> set t"
  shows "\<exists>s'. safestrcpy s t n = Ok s' \<and> cstr s' = take (n - 1) (cstr t) \<and> length s' = length s"
proof -
  have "\<exists>s'. safestrcpy_loop (n - 1) 0 s t = Ok s' \<and> cstr s' = take (n - 1) (cstr t)"
    using safestrcpy_loop_cstr [of 0 "n - 1" s t] assms by simp
  then show ?thesis
    using assms by (auto simp: safestrcpy_def dest: safestrcpy_loop_length)
qed

end
