(* ===== verification/Proctab.thy ===== *)
theory Proctab
  imports Printf Cstring
begin

text \<open>
  The process table of \<open>kernel/proc.h\<close> and the parts of \<open>kernel/proc.c\<close> that only move
  processes between states: \<open>sched\<close>, \<open>yield\<close>, \<open>sleep\<close>, \<open>wakeup\<close>, \<open>kill\<close>.
  A call of \<open>swtch\<close> ends one kernel thread's turn on a hart, so a routine that calls it is
  split there: the part with suffix \<open>_out\<close> runs up to the switch, the part with suffix
  \<open>_in\<close> runs when the thread is resumed.
\<close>

section \<open>State\<close>

datatype procstate = UNUSED | USED | SLEEPING | RUNNABLE | RUNNING | ZOMBIE

record kcontext =
  ra :: u64
  ctx_sp :: u64
  sregs :: "u64 list"

record proc =
  state :: procstate
  chan :: "chan option"
  pkilled :: i32
  xstate :: i32
  pid :: i32
  classe :: i32
  prioridade :: i32
  stride :: i32
  pass :: i32
  tickets :: i32
  parent :: "nat option"
  kstack :: u64
  sz :: u64
  pagetable :: u64
  trapframe :: u64
  pcontext :: kcontext
  ofile :: "nat \<Rightarrow> nat option"
  cwd :: "nat option"
  pname :: "u8 list"

record ptab = conout +
  procs :: "nat \<Rightarrow> proc"
  initproc :: "nat option"
  nextpid :: i32
  last_index :: "nat \<Rightarrow> nat"
  seed :: u32
  scheduler_mode :: i32

text \<open>The values the loader gives the static data: zero but for the initialised variables.\<close>

definition zero_proc :: proc where
  "zero_proc = \<lparr>state = UNUSED, chan = None, pkilled = 0, xstate = 0, pid = 0, classe = 0,
     prioridade = 0, stride = 0, pass = 0, tickets = 0, parent = None, kstack = 0, sz = 0,
     pagetable = 0, trapframe = 0, pcontext = \<lparr>ra = 0, ctx_sp = 0, sregs = replicate 12 0\<rparr>,
     ofile = (\<lambda>_. None), cwd = None, pname = replicate 16 0\<rparr>"

definition init_ptab :: "image \<Rightarrow> mem \<Rightarrow> ptab" where
  "init_ptab im m = \<lparr>cpus = (\<lambda>_. \<lparr>cproc = None, noff = 0, intena = False\<rparr>), sie = (\<lambda>_. False), tp = 0,
     locks = (\<lambda>_. \<lparr>lname = [], locked = False, lcpu = None\<rparr>), img = im, mem = m, freelist = 0,
     kernel_pagetable = 0, satp = (\<lambda>_. 0), panicked = False, pr_locking = False, uart_out = [],
     procs = (\<lambda>_. zero_proc), initproc = None, nextpid = 1, last_index = (\<lambda>_. 0), seed = 123456,
     scheduler_mode = 1\<rparr>"

definition set_proc :: "nat \<Rightarrow> (proc \<Rightarrow> proc) \<Rightarrow> 'a ptab_scheme \<Rightarrow> 'a ptab_scheme" where
  "set_proc i f s = s\<lparr>procs := (procs s)(i := f (procs s i))\<rparr>"

lemma state_upd_idem [simp]: "state p = st \<Longrightarrow> p\<lparr>state := st\<rparr> = p"
  by (cases p) simp

text \<open>The loop \<open>for(p = proc; p < &proc[NPROC]; p++)\<close> runs over these indices.\<close>

definition slots :: "nat list" where
  "slots = [0..<NPROC]"

lemma slots_props [simp]: "distinct slots" "set slots = {..<NPROC}" "slots \<noteq> []" "length slots = NPROC"
  unfolding slots_def by (simp_all del: upt_rec_numeral) auto

section \<open>Operations\<close>

definition procinit :: "'a ptab_scheme \<Rightarrow> 'a ptab_scheme" where
  "procinit s =
     fold (\<lambda>i s. set_proc i (\<lambda>p. p\<lparr>state := UNUSED, kstack := KSTACK i\<rparr>) (initlock (LProc i) ''proc'' s))
       slots (initlock LWait ''wait_lock'' (initlock LPid ''nextpid'' s))"

definition myproc :: "'a mach_scheme \<Rightarrow> (nat option \<times> 'a mach_scheme) res" where
  "myproc s =
     (let s1 = push_off s;
          p = cproc (mycpu s1)
      in bindR (pop_off s1) (\<lambda>s2. Ok (p, s2)))"

text \<open>The callers that dereference the result.\<close>

definition curproc :: "'a mach_scheme \<Rightarrow> (nat \<times> 'a mach_scheme) res" where
  "curproc s = bindR (myproc s) (\<lambda>(p, s1). case p of None \<Rightarrow> Undef | Some i \<Rightarrow> Ok (i, s1))"

definition allocpid :: "'a ptab_scheme \<Rightarrow> (i32 \<times> 'a ptab_scheme) res" where
  "allocpid s =
     bindR (acquire LPid s) (\<lambda>s1.
     let pid = nextpid s1
     in bindR (release LPid (s1\<lparr>nextpid := nextpid s1 + 1\<rparr>)) (\<lambda>s2. Ok (pid, s2)))"

text \<open>\<open>sched\<close>: the checks, and the saved \<open>intena\<close> that is restored after the switch.\<close>

definition sched_out :: "'a ptab_scheme \<Rightarrow> (bool \<times> 'a ptab_scheme) res" where
  "sched_out s =
     bindR (curproc s) (\<lambda>(p, s1).
       if \<not> holding (LProc p) s1 then Panic ''sched p->lock''
       else if noff (mycpu s1) \<noteq> 1 then Panic ''sched locks''
       else if state (procs s1 p) = RUNNING then Panic ''sched running''
       else if intr_get s1 then Panic ''sched interruptible''
       else Ok (intena (mycpu s1), s1))"

definition sched_in :: "bool \<Rightarrow> 'a ptab_scheme \<Rightarrow> 'a ptab_scheme" where
  "sched_in ie s = set_mycpu (\<lambda>c. c\<lparr>intena := ie\<rparr>) s"

definition yield_out :: "'a ptab_scheme \<Rightarrow> (bool \<times> 'a ptab_scheme) res" where
  "yield_out s =
     bindR (curproc s) (\<lambda>(p, s).
     bindR (acquire (LProc p) s) (\<lambda>s.
     sched_out (set_proc p (\<lambda>q. q\<lparr>state := RUNNABLE\<rparr>) s)))"

definition yield_in :: "nat \<Rightarrow> bool \<Rightarrow> 'a ptab_scheme \<Rightarrow> 'a ptab_scheme res" where
  "yield_in p ie s = release (LProc p) (sched_in ie s)"

definition sleep_out :: "chan \<Rightarrow> lockid \<Rightarrow> 'a ptab_scheme \<Rightarrow> (bool \<times> 'a ptab_scheme) res" where
  "sleep_out ch lk s =
     bindR (curproc s) (\<lambda>(p, s).
     bindR (acquire (LProc p) s) (\<lambda>s.
     bindR (release lk s) (\<lambda>s.
     sched_out (set_proc p (\<lambda>q. q\<lparr>chan := Some ch, state := SLEEPING\<rparr>) s))))"

definition sleep_in :: "nat \<Rightarrow> lockid \<Rightarrow> bool \<Rightarrow> 'a ptab_scheme \<Rightarrow> 'a ptab_scheme res" where
  "sleep_in p lk ie s =
     bindR (release (LProc p) (set_proc p (\<lambda>q. q\<lparr>chan := None\<rparr>) (sched_in ie s))) (acquire lk)"

definition wakeup_one :: "chan \<Rightarrow> nat \<Rightarrow> 'a ptab_scheme \<Rightarrow> 'a ptab_scheme res" where
  "wakeup_one ch i s =
     bindR (myproc s) (\<lambda>(me, s).
       if me \<noteq> Some i
       then bindR (acquire (LProc i) s) (\<lambda>s.
            release (LProc i)
              (if state (procs s i) = SLEEPING \<and> chan (procs s i) = Some ch
               then set_proc i (\<lambda>p. p\<lparr>state := RUNNABLE\<rparr>) s else s))
       else Ok s)"

definition wakeup :: "chan \<Rightarrow> 'a ptab_scheme \<Rightarrow> 'a ptab_scheme res" where
  "wakeup ch = foldR (wakeup_one ch) slots"

fun kill_loop :: "i32 \<Rightarrow> nat list \<Rightarrow> 'a ptab_scheme \<Rightarrow> (i32 \<times> 'a ptab_scheme) res" where
  "kill_loop n [] s = Ok (-1, s)"
| "kill_loop n (i # is) s =
     bindR (acquire (LProc i) s) (\<lambda>s.
       if pid (procs s i) = n
       then bindR (release (LProc i)
              (set_proc i (\<lambda>p. p\<lparr>pkilled := 1,
                 state := (if state p = SLEEPING then RUNNABLE else state p)\<rparr>) s)) (\<lambda>s. Ok (0, s))
       else bindR (release (LProc i) s) (kill_loop n is))"

definition kill :: "i32 \<Rightarrow> 'a ptab_scheme \<Rightarrow> (i32 \<times> 'a ptab_scheme) res" where
  "kill n = kill_loop n slots"

definition setkilled :: "nat \<Rightarrow> 'a ptab_scheme \<Rightarrow> 'a ptab_scheme res" where
  "setkilled i s =
     bindR (acquire (LProc i) s) (\<lambda>s. release (LProc i) (set_proc i (\<lambda>p. p\<lparr>pkilled := 1\<rparr>) s))"

definition killed :: "nat \<Rightarrow> 'a ptab_scheme \<Rightarrow> (i32 \<times> 'a ptab_scheme) res" where
  "killed i s =
     bindR (acquire (LProc i) s) (\<lambda>s.
     let k = pkilled (procs s i)
     in bindR (release (LProc i) s) (\<lambda>s. Ok (k, s)))"

definition either_copyout :: "bool \<Rightarrow> u64 \<Rightarrow> u8 list \<Rightarrow> 'a ptab_scheme \<Rightarrow> (i32 \<times> 'a ptab_scheme) res" where
  "either_copyout user_dst dst src s =
     bindR (myproc s) (\<lambda>(p, s).
       if user_dst
       then (case p of None \<Rightarrow> Undef | Some i \<Rightarrow> copyout (pagetable (procs s i)) dst src s)
       else Ok (0, s\<lparr>mem := store_bytes dst src (mem s)\<rparr>))"

definition either_copyin ::
  "bool \<Rightarrow> u64 \<Rightarrow> nat \<Rightarrow> 'a ptab_scheme \<Rightarrow> (i32 \<times> u8 list \<times> 'a ptab_scheme) res" where
  "either_copyin user_src src len s =
     bindR (myproc s) (\<lambda>(p, s).
       if user_src
       then (case p of None \<Rightarrow> Undef | Some i \<Rightarrow> copyin (pagetable (procs s i)) src len s)
       else Ok (0, load_bytes (mem s) src len, s))"

fun state_name :: "procstate \<Rightarrow> string" where
  "state_name UNUSED = ''unused''"
| "state_name USED = ''used''"
| "state_name SLEEPING = ''sleep ''"
| "state_name RUNNABLE = ''runble''"
| "state_name RUNNING = ''run   ''"
| "state_name ZOMBIE = ''zombie''"

definition newline :: string where "newline = [CHR 0x0A]"

definition procdump :: "'a ptab_scheme \<Rightarrow> 'a ptab_scheme res" where
  "procdump s =
     bindR (printf newline [] s) (foldR (\<lambda>i s.
       if state (procs s i) = UNUSED then Ok s
       else bindR (printf ''%d %s %s''
                     [VInt (pid (procs s i)), VStr (Some (bytes (state_name (state (procs s i))))),
                      VStr (Some (cstr (pname (procs s i))))] s)
              (printf newline [])) slots)"

section \<open>Critical sections on the process table\<close>

lemma ptab_settle [simp]:
  "procs (settle s) = procs s" "initproc (settle s) = initproc s" "nextpid (settle s) = nextpid s"
  "last_index (settle s) = last_index s" "seed (settle s) = seed s"
  "scheduler_mode (settle s) = scheduler_mode s" "panicked (settle s) = panicked s"
  "pr_locking (settle s) = pr_locking s" "uart_out (settle s) = uart_out s"
  "settle (s\<lparr>procs := X\<rparr>) = (settle s)\<lparr>procs := X\<rparr>"
  by (simp_all add: settle_def)

lemma ptab_grab [simp]:
  "procs (grab l s) = procs s" "initproc (grab l s) = initproc s" "nextpid (grab l s) = nextpid s"
  "last_index (grab l s) = last_index s" "seed (grab l s) = seed s"
  "scheduler_mode (grab l s) = scheduler_mode s" "panicked (grab l s) = panicked s"
  "pr_locking (grab l s) = pr_locking s" "uart_out (grab l s) = uart_out s"
  "mem (grab l s) = mem s" "freelist (grab l s) = freelist s" "img (grab l s) = img s"
  by (simp_all add: grab_def)

lemma ptab_ungrab [simp]:
  "procs (ungrab l s) = procs s" "initproc (ungrab l s) = initproc s"
  "nextpid (ungrab l s) = nextpid s" "last_index (ungrab l s) = last_index s"
  "seed (ungrab l s) = seed s" "scheduler_mode (ungrab l s) = scheduler_mode s"
  "panicked (ungrab l s) = panicked s" "pr_locking (ungrab l s) = pr_locking s"
  "uart_out (ungrab l s) = uart_out s" "mem (ungrab l s) = mem s"
  "freelist (ungrab l s) = freelist s" "img (ungrab l s) = img s"
  by (simp_all add: ungrab_def)

lemma ptab_intr_on [simp]:
  "procs (intr_on s) = procs s" "initproc (intr_on s) = initproc s"
  "nextpid (intr_on s) = nextpid s" "last_index (intr_on s) = last_index s"
  "seed (intr_on s) = seed s" "scheduler_mode (intr_on s) = scheduler_mode s"
  "panicked (intr_on s) = panicked s" "pr_locking (intr_on s) = pr_locking s"
  "uart_out (intr_on s) = uart_out s" "mem (intr_on s) = mem s" "freelist (intr_on s) = freelist s"
  "img (intr_on s) = img s"
  by (simp_all add: mach_defs)

lemma procs_frame [simp]:
  "cpu_ok (s\<lparr>procs := X\<rparr>) = cpu_ok s" "lock_free l (s\<lparr>procs := X\<rparr>) = lock_free l s"
  "mycpu (s\<lparr>procs := X\<rparr>) = mycpu s"
  "holding l (s\<lparr>procs := X\<rparr>) = holding l s" "intr_get (s\<lparr>procs := X\<rparr>) = intr_get s"
  "cpuid (s\<lparr>procs := X\<rparr>) = cpuid s"
  by (simp_all add: cpu_ok_def lock_free_def holding_def mach_defs)

lemma myproc_ok: "cpu_ok s \<Longrightarrow> myproc s = Ok (cproc (mycpu s), settle s)"
  by (simp add: myproc_def Let_def pop_push_off) (simp add: push_off_def mach_defs Let_def)

lemma curproc_ok: "cpu_ok s \<Longrightarrow> cproc (mycpu s) = Some p \<Longrightarrow> curproc s = Ok (p, settle s)"
  by (simp add: curproc_def myproc_ok)

lemma release_grab_procs:
  assumes "cpu_ok s" and "lock_free l s"
  shows "release l ((grab l s)\<lparr>procs := X\<rparr>) = Ok ((settle s)\<lparr>procs := X\<rparr>)"
  using release_grab [OF assms, of "(grab l s)\<lparr>procs := X\<rparr>"]
  by simp (simp add: grab_def settle_def)

lemma release_grab_same:
  assumes "cpu_ok s" and "lock_free l s"
  shows "release l (grab l s) = Ok (settle s)"
  using release_acquire [OF assms] acquire_free [OF assms(2)] by simp

lemma critical_set_proc:
  assumes "cpu_ok s" and "lock_free l s"
  shows "bindR (acquire l s) (\<lambda>s. release l (set_proc i f s)) = Ok (set_proc i f (settle s))"
  using assms by (simp add: acquire_free set_proc_def release_grab_procs)

lemmas critical = acquire_free release_grab_procs release_grab_same set_proc_def

section \<open>\<open>wakeup\<close>, \<open>kill\<close>, \<open>killed\<close>\<close>

text \<open>A loop over distinct table slots that changes each slot on its own.\<close>

definition each_proc :: "nat set \<Rightarrow> (nat \<Rightarrow> proc \<Rightarrow> proc) \<Rightarrow> (nat \<Rightarrow> proc) \<Rightarrow> nat \<Rightarrow> proc" where
  "each_proc I h ps = (\<lambda>j. if j \<in> I then h j (ps j) else ps j)"

lemma foldR_each_proc:
  assumes "distinct is" and "cpu_ok s" and "is \<noteq> []"
    and "\<And>i t. i \<in> set is \<Longrightarrow> cpu_ok t \<Longrightarrow> locks t = locks s \<Longrightarrow> mycpu (settle t) = mycpu (settle s) \<Longrightarrow>
           f i t = Ok ((settle t)\<lparr>procs := (procs t)(i := h i (procs t i))\<rparr>)"
  shows "foldR f is s = Ok ((settle s)\<lparr>procs := each_proc (set is) h (procs s)\<rparr>)"
  using assms
proof (induction "is" arbitrary: s)
  case (Cons i "is")
  let ?t = "(settle s)\<lparr>procs := (procs s)(i := h i (procs s i))\<rparr>"
  have step: "f i s = Ok ?t" by (rule Cons.prems(4)) (simp_all add: Cons.prems(2))
  show ?case
  proof (cases "is = []")
    case True
    have "each_proc {i} h (procs s) = (procs s)(i := h i (procs s i))"
      by (auto simp: each_proc_def)
    with step True show ?thesis by (simp only: foldR.simps bindR.simps list.set)
  next
    case False
    have "foldR f is ?t = Ok ((settle ?t)\<lparr>procs := each_proc (set is) h (procs ?t)\<rparr>)"
    proof (rule Cons.IH)
      show "f j t = Ok ((settle t)\<lparr>procs := (procs t)(j := h j (procs t j))\<rparr>)"
        if "j \<in> set is" "cpu_ok t" "locks t = locks ?t" "mycpu (settle t) = mycpu (settle ?t)" for j t
        by (rule Cons.prems(4)) (use that in simp_all)
    qed (use Cons.prems(1,2) False in simp_all)
    moreover have "each_proc (set is) h (procs ?t) = each_proc (set (i # is)) h (procs s)"
      using Cons.prems(1) by (auto simp: each_proc_def)
    moreover have "settle ?t = ?t" by simp
    ultimately show ?thesis using step by (simp only: foldR.simps bindR.simps) simp
  qed
qed simp

definition wake :: "chan \<Rightarrow> proc \<Rightarrow> proc" where
  "wake ch p = (if state p = SLEEPING \<and> chan p = Some ch then p\<lparr>state := RUNNABLE\<rparr> else p)"

lemma cproc_settle: "mycpu (settle s) = mycpu (settle t) \<Longrightarrow> cproc (mycpu s) = cproc (mycpu t)"
  by (metis settle_simps(6))

lemma lock_free_locks: "locks t = locks s \<Longrightarrow> lock_free l t = lock_free l s"
  by (simp add: lock_free_def)

lemma wakeup_one_eq:
  assumes "cpu_ok s" and "cproc (mycpu s) \<noteq> Some i \<Longrightarrow> lock_free (LProc i) s"
  shows "wakeup_one ch i s = Ok ((settle s)\<lparr>procs := (procs s)
           (i := (if cproc (mycpu s) = Some i then procs s i else wake ch (procs s i)))\<rparr>)"
  using assms by (auto simp: wakeup_one_def myproc_ok critical wake_def)

lemma wakeup_eq:
  assumes "cpu_ok s" and "\<And>i. i < NPROC \<Longrightarrow> cproc (mycpu s) \<noteq> Some i \<Longrightarrow> lock_free (LProc i) s"
  shows "wakeup ch s = Ok ((settle s)\<lparr>procs := each_proc ({..<NPROC} - set_option (cproc (mycpu s)))
           (\<lambda>_. wake ch) (procs s)\<rparr>)"
proof -
  let ?h = "\<lambda>i p. if cproc (mycpu s) = Some i then p else wake ch p"
  have "wakeup ch s = Ok ((settle s)\<lparr>procs := each_proc (set slots) ?h (procs s)\<rparr>)"
    unfolding wakeup_def
  proof (rule foldR_each_proc)
    fix i and t :: "'a ptab_scheme"
    assume i: "i \<in> set slots" and t: "cpu_ok t" "locks t = locks s" "mycpu (settle t) = mycpu (settle s)"
    have c: "cproc (mycpu t) = cproc (mycpu s)" using t(3) by (rule cproc_settle)
    then have l: "lock_free (LProc i) t" if "cproc (mycpu t) \<noteq> Some i"
      using assms(2) [of i] i that by (simp add: lock_free_locks [OF t(2)])
    show "wakeup_one ch i t = Ok ((settle t)\<lparr>procs := (procs t)(i := ?h i (procs t i))\<rparr>)"
      by (subst wakeup_one_eq [OF t(1)]) (use l in \<open>simp_all only: c not_False_eq_True\<close>)
  qed (simp_all add: assms(1))
  moreover have "each_proc (set slots) ?h (procs s)
      = each_proc ({..<64} - set_option (cproc (mycpu s))) (\<lambda>_. wake ch) (procs s)"
    by (auto simp: each_proc_def)
  ultimately show ?thesis by simp
qed

text \<open>
  A process that runs alone in the kernel: it is the current one, and no other process's lock is
  taken.  Every routine below leaves the machine record as \<open>settle\<close> does.
\<close>

definition calm :: "nat \<Rightarrow> 'a mach_scheme \<Rightarrow> bool" where
  "calm p s \<longleftrightarrow> cpu_ok s \<and> cproc (mycpu s) = Some p \<and> (\<forall>i. i \<noteq> p \<longrightarrow> lock_free (LProc i) s)"

lemma calmD: "calm p s \<Longrightarrow> cpu_ok s" "calm p s \<Longrightarrow> cproc (mycpu s) = Some p"
  by (simp_all add: calm_def)

lemma calm_settle [simp]: "calm p (settle s) = calm p s"
  by (simp add: calm_def)

lemma cpu_ok_grab [simp]: "cpu_ok s \<Longrightarrow> cpu_ok (grab l s)"
  by (simp add: cpu_ok_def)

lemma calm_grab: "calm p s \<Longrightarrow> (\<And>i. l \<noteq> LProc i) \<Longrightarrow> calm p (grab l s)"
  by (simp add: calm_def) metis

lemma settle_grab: "cpu_ok s \<Longrightarrow> settle (grab l s) = grab l s"
  by (rule settle_nested) (simp add: cpu_ok_def)

text \<open>The data of \<open>t\<close> with the machine record of \<open>s\<close>.\<close>

definition at_mach :: "'b mach_scheme \<Rightarrow> 'a mach_scheme \<Rightarrow> 'a mach_scheme" where
  "at_mach s t = t\<lparr>cpus := cpus s, sie := sie s, tp := tp s, locks := locks s\<rparr>"

definition same_mach :: "'b mach_scheme \<Rightarrow> 'a mach_scheme \<Rightarrow> bool" where
  "same_mach s t \<longleftrightarrow> cpus s = cpus t \<and> sie s = sie t \<and> tp s = tp t \<and> locks s = locks t"

lemma at_mach_grab: "at_mach (settle s) (grab l s) = settle s"
  by (simp add: at_mach_def grab_def settle_def)

lemma at_mach_self: "same_mach s t \<Longrightarrow> at_mach s t = t"
  by (simp add: at_mach_def same_mach_def)

lemma calm_same_mach: "same_mach s t \<Longrightarrow> calm p t = calm p s"
  by (simp add: same_mach_def calm_def cpu_ok_def lock_free_def mach_defs)

lemma lock_free_same_mach: "same_mach s t \<Longrightarrow> lock_free l t = lock_free l s"
  by (simp add: same_mach_def lock_free_def)

lemma same_mach_settle: "same_mach s t \<Longrightarrow> same_mach (settle s) (settle t)"
  by (simp add: same_mach_def settle_def)

lemma settle_same_mach:
  assumes "same_mach (settle s) t"
  shows "settle t = t"
proof -
  have "cpus (settle t) = cpus t"
    using same_mach_settle [OF assms] assms by (simp add: same_mach_def)
  moreover have "settle t = t\<lparr>cpus := cpus (settle t)\<rparr>" by (simp add: settle_def)
  ultimately show ?thesis by (metis mach.surjective mach.update_convs(1))
qed

lemma release_section:
  assumes "cpu_ok s" and "lock_free l s" and "same_mach (grab l s) t"
  shows "release l t = Ok (at_mach (settle s) t)"
  using release_grab [OF assms(1,2), of t] assms(3)
  by (simp add: same_mach_def at_mach_def)

definition woken :: "nat \<Rightarrow> chan \<Rightarrow> (nat \<Rightarrow> proc) \<Rightarrow> nat \<Rightarrow> proc" where
  "woken p ch = each_proc ({..<NPROC} - {p}) (\<lambda>_. wake ch)"

lemma wakeup_calm:
  assumes "calm p s"
  shows "wakeup ch s = Ok ((settle s)\<lparr>procs := woken p ch (procs s)\<rparr>)"
  using wakeup_eq [of s ch] assms by (simp add: calm_def woken_def)

lemma curproc_calm: "calm p s \<Longrightarrow> curproc s = Ok (p, settle s)"
  by (rule curproc_ok) (simp_all add: calm_def)

text \<open>Waking up changes nothing but states.\<close>

definition only_states :: "(nat \<Rightarrow> proc) \<Rightarrow> (nat \<Rightarrow> proc) \<Rightarrow> bool" where
  "only_states ps qs \<longleftrightarrow> (\<forall>i. qs i = (ps i)\<lparr>state := state (qs i)\<rparr>)"

lemma only_states_refl [simp]: "only_states ps ps"
  by (simp add: only_states_def)

lemma only_states_upd: "(p\<lparr>state := a\<rparr>)\<lparr>state := b\<rparr> = (p :: proc)\<lparr>state := b\<rparr>"
  by simp

lemma only_states_trans: "only_states ps qs \<Longrightarrow> only_states qs rs \<Longrightarrow> only_states ps rs"
  unfolding only_states_def by (metis only_states_upd)

lemma only_states_woken [simp]: "only_states ps (woken p ch ps)"
  by (auto simp: only_states_def woken_def each_proc_def wake_def)

lemma only_statesD:
  assumes "only_states ps qs"
  shows "pid (qs i) = pid (ps i)" "pagetable (qs i) = pagetable (ps i)" "trapframe (qs i) = trapframe (ps i)"
    "ofile (qs i) = ofile (ps i)" "cwd (qs i) = cwd (ps i)" "pname (qs i) = pname (ps i)" "sz (qs i) = sz (ps i)"
    "pkilled (qs i) = pkilled (ps i)" "parent (qs i) = parent (ps i)"
proof -
  have "qs i = (ps i)\<lparr>state := state (qs i)\<rparr>" using assms by (simp add: only_states_def)
  then obtain x where "qs i = (ps i)\<lparr>state := x\<rparr>" by blast
  then show "pid (qs i) = pid (ps i)" "pagetable (qs i) = pagetable (ps i)" "trapframe (qs i) = trapframe (ps i)"
    "ofile (qs i) = ofile (ps i)" "cwd (qs i) = cwd (ps i)" "pname (qs i) = pname (ps i)" "sz (qs i) = sz (ps i)"
    "pkilled (qs i) = pkilled (ps i)" "parent (qs i) = parent (ps i)"
    by simp_all
qed

end
