(* ===== verification/Scheduler.thy ===== *)
theory Scheduler
  imports Proctab
begin

text \<open>
  The two schedulers of \<open>kernel/proc.c\<close>: the lottery over priority classes with a round robin
  inside the class, and stride scheduling.  One turn of a scheduler loop is a \<open>pick\<close> that
  runs up to \<open>swtch\<close> and a \<open>resume\<close> that runs after the chosen process has switched back;
  what happens in between is the parameter \<open>run\<close> of the turn.
\<close>

section \<open>Lottery\<close>

definition rand_lottery :: "'a ptab_scheme \<Rightarrow> i32 \<times> 'a ptab_scheme" where
  "rand_lottery s =
     (let sd = seed s * 1103515245 + 1248345
      in ((sd div 65536) mod 32768, s\<lparr>seed := sd\<rparr>))"

abbreviation (input) CLASS_0_BILHETES :: nat where "CLASS_0_BILHETES \<equiv> 6"
abbreviation (input) CLASS_1_BILHETES :: nat where "CLASS_1_BILHETES \<equiv> 3"
abbreviation (input) CLASS_2_BILHETES :: nat where "CLASS_2_BILHETES \<equiv> 2"
abbreviation (input) CLASS_3_BILHETES :: nat where "CLASS_3_BILHETES \<equiv> 1"

datatype priority_class = CLASS_0 | CLASS_1 | CLASS_2 | CLASS_3

fun class_num :: "priority_class \<Rightarrow> nat" where
  "class_num CLASS_0 = 0"
| "class_num CLASS_1 = 1"
| "class_num CLASS_2 = 2"
| "class_num CLASS_3 = 3"

text \<open>The class that owns ticket number \<open>sorteio\<close>.\<close>

definition ticket_class :: "nat \<Rightarrow> priority_class" where
  "ticket_class sorteio =
     (if sorteio < CLASS_0_BILHETES then CLASS_0
      else if sorteio < CLASS_0_BILHETES + CLASS_1_BILHETES then CLASS_1
      else if sorteio < CLASS_0_BILHETES + CLASS_1_BILHETES + CLASS_2_BILHETES then CLASS_2
      else CLASS_3)"

definition sorteio_prioridade :: "'a ptab_scheme \<Rightarrow> priority_class \<times> 'a ptab_scheme" where
  "sorteio_prioridade s =
     (let total = CLASS_0_BILHETES + CLASS_1_BILHETES + CLASS_2_BILHETES + CLASS_3_BILHETES;
          (r, s1) = rand_lottery s
      in (ticket_class (unat r mod total), s1))"

definition set_cproc :: "nat option \<Rightarrow> 'a mach_scheme \<Rightarrow> 'a mach_scheme" where
  "set_cproc p = set_mycpu (\<lambda>c. c\<lparr>cproc := p\<rparr>)"

text \<open>The inner loop of \<open>scheduler_loteria\<close> from the given values of \<open>i\<close> on.\<close>

fun loteria_scan ::
  "priority_class \<Rightarrow> nat \<Rightarrow> nat list \<Rightarrow> 'a ptab_scheme \<Rightarrow> (nat option \<times> 'a ptab_scheme) res" where
  "loteria_scan c start [] s = Ok (None, s)"
| "loteria_scan c start (i # is) s =
     (let idx = (start + i) mod NPROC
      in bindR (acquire (LProc idx) s) (\<lambda>s.
           if state (procs s idx) = RUNNABLE \<and> classe (procs s idx) = of_nat (class_num c)
           then Ok (Some idx, set_cproc (Some idx) (set_proc idx (\<lambda>p. p\<lparr>state := RUNNING\<rparr>) s))
           else bindR (release (LProc idx) s) (loteria_scan c start is)))"

definition loteria_pick ::
  "'a ptab_scheme \<Rightarrow> (priority_class \<times> nat option \<times> 'a ptab_scheme) res" where
  "loteria_pick s =
     (let (c, s) = sorteio_prioridade (intr_on s)
      in bindR (loteria_scan c (last_index s (class_num c)) slots s) (\<lambda>(r, s). Ok (c, r, s)))"

definition loteria_resume :: "priority_class \<Rightarrow> nat \<Rightarrow> 'a ptab_scheme \<Rightarrow> 'a ptab_scheme res" where
  "loteria_resume c idx s =
     bindR (release (LProc idx) (set_cproc None s)) (\<lambda>s.
       Ok (s\<lparr>last_index := (last_index s)(class_num c := (idx + 1) mod NPROC)\<rparr>))"

definition scheduler_loteria_turn ::
  "(nat \<Rightarrow> 'a ptab_scheme \<Rightarrow> 'a ptab_scheme res) \<Rightarrow> 'a ptab_scheme \<Rightarrow> 'a ptab_scheme res" where
  "scheduler_loteria_turn run s =
     bindR (loteria_pick s) (\<lambda>(c, r, s).
       case r of None \<Rightarrow> Ok s | Some idx \<Rightarrow> bindR (run idx s) (loteria_resume c idx))"

section \<open>Stride\<close>

text \<open>
  The scan keeps the lock of the best process found so far.  \<open>better\<close> is the condition under
  which \<open>p\<close> replaces it.
\<close>

definition better :: "proc \<Rightarrow> proc \<Rightarrow> bool" where
  "better p m \<longleftrightarrow> ilt (pass p) (pass m) \<or> pass p = pass m \<and> ilt (pid m) (pid p)"

definition improves :: "(nat \<Rightarrow> proc) \<Rightarrow> nat \<Rightarrow> nat option \<Rightarrow> bool" where
  "improves ps i m = (case m of None \<Rightarrow> True | Some j \<Rightarrow> better (ps i) (ps j))"

fun stride_scan ::
  "nat list \<Rightarrow> nat option \<Rightarrow> 'a ptab_scheme \<Rightarrow> (nat option \<times> 'a ptab_scheme) res" where
  "stride_scan [] m s = Ok (m, s)"
| "stride_scan (i # is) m s =
     bindR (acquire (LProc i) s) (\<lambda>s.
       if state (procs s i) = RUNNABLE
       then if improves (procs s) i m
            then bindR (case m of None \<Rightarrow> Ok s | Some j \<Rightarrow> release (LProc j) s) (\<lambda>s.
                 bindR (printf (''min pass=%d pid=%d'' @ newline)
                          [VInt (pass (procs s i)), VInt (pid (procs s i))] s)
                   (stride_scan is (Some i)))
            else bindR (release (LProc i) s) (stride_scan is m)
       else bindR (release (LProc i) s) (stride_scan is m))"

definition stride_pick :: "'a ptab_scheme \<Rightarrow> (nat option \<times> 'a ptab_scheme) res" where
  "stride_pick s =
     bindR (stride_scan slots None (intr_on s)) (\<lambda>(m, s).
       case m of
         None \<Rightarrow> Ok (None, s)
       | Some i \<Rightarrow> Ok (Some i, set_cproc (Some i) (set_proc i (\<lambda>p. p\<lparr>state := RUNNING\<rparr>) s)))"

definition stride_resume :: "nat \<Rightarrow> 'a ptab_scheme \<Rightarrow> 'a ptab_scheme res" where
  "stride_resume i s =
     (let s = set_proc i (\<lambda>p. p\<lparr>pass := pass p + stride p\<rparr>) (set_cproc None s)
      in bindR (printf (''soma do passo: %d'' @ newline) [VInt (pass (procs s i))] s)
           (release (LProc i)))"

definition scheduler_stride_turn ::
  "(nat \<Rightarrow> 'a ptab_scheme \<Rightarrow> 'a ptab_scheme res) \<Rightarrow> 'a ptab_scheme \<Rightarrow> 'a ptab_scheme res" where
  "scheduler_stride_turn run s =
     bindR (stride_pick s) (\<lambda>(m, s).
       case m of None \<Rightarrow> Ok s | Some i \<Rightarrow> bindR (run i s) (stride_resume i))"

text \<open>
  \<open>scheduler\<close> reads the mode once, since neither scheduler returns; the first argument is the
  number of turns observed.
\<close>

definition scheduler ::
  "nat \<Rightarrow> (nat \<Rightarrow> 'a ptab_scheme \<Rightarrow> 'a ptab_scheme res) \<Rightarrow> 'a ptab_scheme \<Rightarrow> 'a ptab_scheme res" where
  "scheduler n run s =
     turns n (if scheduler_mode s = 0 then scheduler_loteria_turn run else scheduler_stride_turn run) s"

section \<open>What the steps keep\<close>

lemma set_cproc_simps [simp]:
  "tp (set_cproc p s) = tp s" "noff (mycpu (set_cproc p s)) = noff (mycpu s)"
  "cproc (mycpu (set_cproc p s)) = p" "intena (mycpu (set_cproc p s)) = intena (mycpu s)"
  "intr_get (set_cproc p s) = intr_get s" "holding l (set_cproc p s) = holding l s"
  "lock_free l (set_cproc p s) = lock_free l s"
  by (simp_all add: set_cproc_def holding_def lock_free_def mach_defs)

lemma ptab_set_cproc [simp]:
  "procs (set_cproc p s) = procs s" "initproc (set_cproc p s) = initproc s"
  "nextpid (set_cproc p s) = nextpid s" "last_index (set_cproc p s) = last_index s"
  "seed (set_cproc p s) = seed s" "scheduler_mode (set_cproc p s) = scheduler_mode s"
  "panicked (set_cproc p s) = panicked s" "pr_locking (set_cproc p s) = pr_locking s"
  by (simp_all add: set_cproc_def mach_defs)

lemma set_proc_simps [simp]:
  "tp (set_proc i f s) = tp s" "mycpu (set_proc i f s) = mycpu s"
  "intr_get (set_proc i f s) = intr_get s" "holding l (set_proc i f s) = holding l s"
  "lock_free l (set_proc i f s) = lock_free l s" "cpu_ok (set_proc i f s) = cpu_ok s"
  "procs (set_proc i f s) = (procs s)(i := f (procs s i))" "initproc (set_proc i f s) = initproc s"
  "nextpid (set_proc i f s) = nextpid s" "last_index (set_proc i f s) = last_index s"
  "seed (set_proc i f s) = seed s" "scheduler_mode (set_proc i f s) = scheduler_mode s"
  "panicked (set_proc i f s) = panicked s" "pr_locking (set_proc i f s) = pr_locking s"
  by (simp_all add: set_proc_def)

text \<open>Everything but the machine state, the process table and the scheduler's own variables.\<close>

definition same_rest :: "'a ptab_scheme \<Rightarrow> 'a ptab_scheme \<Rightarrow> bool" where
  "same_rest s t \<longleftrightarrow> tp t = tp s \<and> initproc t = initproc s \<and> nextpid t = nextpid s \<and>
     scheduler_mode t = scheduler_mode s \<and> panicked t = panicked s \<and> pr_locking t = pr_locking s"

lemma same_rest_trans [trans]: "same_rest s t \<Longrightarrow> same_rest t u \<Longrightarrow> same_rest s u"
  by (simp add: same_rest_def)

text \<open>
  A hart in its scheduler: it holds at most the lock of process \<open>m\<close>, interrupts are off
  exactly as that lock requires, and printing is possible.
\<close>

definition scan_ok :: "nat option \<Rightarrow> 'a ptab_scheme \<Rightarrow> bool" where
  "scan_ok m s \<longleftrightarrow>
     (\<forall>i < NPROC. if m = Some i then holding (LProc i) s else lock_free (LProc i) s) \<and>
     lock_free LPr s \<and> pr_locking s \<and> \<not> panicked s \<and>
     noff (mycpu s) = (if m = None then 0 else 1) \<and> (m \<noteq> None \<longrightarrow> \<not> intr_get s) \<and>
     (\<forall>i. m = Some i \<longrightarrow> i < NPROC)"

lemma scan_ok_cpu_ok: "scan_ok m s \<Longrightarrow> cpu_ok s"
  by (auto simp: scan_ok_def cpu_ok_def split: if_splits)

lemma scan_ok_intr_on: "scan_ok None s \<Longrightarrow> scan_ok None (intr_on s)"
  by (simp add: scan_ok_def)

lemma scan_ok_settle [simp]: "scan_ok m (settle s) = scan_ok m s"
  by (simp add: scan_ok_def)

lemma uart_out_frame [simp]:
  "mycpu (s\<lparr>uart_out := X\<rparr>) = mycpu s" "intr_get (s\<lparr>uart_out := X\<rparr>) = intr_get s"
  "holding l (s\<lparr>uart_out := X\<rparr>) = holding l s" "lock_free l (s\<lparr>uart_out := X\<rparr>) = lock_free l s"
  by (simp_all add: holding_def lock_free_def mach_defs)

lemma scan_ok_uart_out [simp]: "scan_ok m (s\<lparr>uart_out := X\<rparr>) = scan_ok m s"
  by (simp add: scan_ok_def)

text \<open>Reading a slot: take its lock, look, give the lock back.\<close>

lemma look:
  assumes "scan_ok m s" and "i < NPROC" and "m \<noteq> Some i"
  shows "acquire (LProc i) s = Ok (grab (LProc i) s)"
    and "release (LProc i) (grab (LProc i) s) = Ok (settle s)"
proof -
  have l: "lock_free (LProc i) s" using assms unfolding scan_ok_def by auto
  show "acquire (LProc i) s = Ok (grab (LProc i) s)" using l by (rule acquire_free)
  show "release (LProc i) (grab (LProc i) s) = Ok (settle s)"
    using scan_ok_cpu_ok [OF assms(1)] l by (rule release_grab_same)
qed

lemma scan_ok_take:
  assumes "scan_ok None s" and "i < NPROC"
  shows "scan_ok (Some i) (grab (LProc i) s)"
  using assms by (auto simp: scan_ok_def)

text \<open>Taking the lock of a better process and then giving up the one held so far.\<close>

lemma scan_ok_swap:
  assumes "scan_ok (Some j) s" and "i < NPROC" and "i \<noteq> j"
  shows "release (LProc j) (grab (LProc i) s) = Ok (ungrab (LProc j) (grab (LProc i) s))"
    and "scan_ok (Some i) (ungrab (LProc j) (grab (LProc i) s))"
proof -
  have "j < NPROC" "holding (LProc j) s" using assms(1) by (auto simp: scan_ok_def)
  then show "release (LProc j) (grab (LProc i) s) = Ok (ungrab (LProc j) (grab (LProc i) s))"
    using assms by (intro release_held) (simp_all add: scan_ok_def)
  show "scan_ok (Some i) (ungrab (LProc j) (grab (LProc i) s))"
    using assms by (auto simp: scan_ok_def) metis
qed

lemma scan_ok_drop:
  assumes "scan_ok (Some i) s"
  shows "release (LProc i) s = Ok (ungrab (LProc i) s)" and "scan_ok None (ungrab (LProc i) s)"
proof -
  show "release (LProc i) s = Ok (ungrab (LProc i) s)"
    using assms by (intro release_held) (auto simp: scan_ok_def)
  show "scan_ok None (ungrab (LProc i) s)"
    using assms by (auto simp: scan_ok_def) metis
qed

lemma stride_messages:
  "\<exists>out. vformat (''min pass=%d pid=%d'' @ newline) [VInt a, VInt b] = Ok out"
  "\<exists>out. vformat (''soma do passo: %d'' @ newline) [VInt a] = Ok out"
  using printint_int [of a] printint_int [of b] by (auto simp: newline_def vformat_Nil vformat_char vformat_d)

lemma printf_scan:
  assumes "scan_ok m s" and "\<exists>out. vformat fmt ap = Ok out"
  obtains out where "printf fmt ap s = Ok ((settle s)\<lparr>uart_out := uart_out s @ out\<rparr>)"
proof -
  obtain out where "vformat fmt ap = Ok out" using assms(2) by blast
  moreover have "pr_locking s" "lock_free LPr s" "\<not> panicked s" using assms(1) by (auto simp: scan_ok_def)
  ultimately show ?thesis
    using that printf_out [OF scan_ok_cpu_ok [OF assms(1)]] by blast
qed

section \<open>The stride scan finds the best runnable process\<close>

definition take_better :: "(nat \<Rightarrow> proc) \<Rightarrow> nat option \<Rightarrow> nat \<Rightarrow> nat option" where
  "take_better ps m i =
     (if state (ps i) = RUNNABLE \<and> improves ps i m then Some i else m)"

definition scan_rel :: "'a ptab_scheme \<Rightarrow> 'a ptab_scheme \<Rightarrow> bool" where
  "scan_rel s t \<longleftrightarrow> same_rest s t \<and> procs t = procs s \<and> last_index t = last_index s \<and>
     seed t = seed s \<and> cproc (mycpu t) = cproc (mycpu s)"

lemma scan_rel_refl [simp]: "scan_rel s s" and
  scan_rel_trans: "scan_rel s t \<Longrightarrow> scan_rel t u \<Longrightarrow> scan_rel s u" and
  scan_rel_settle [simp]: "scan_rel s (settle s)" and
  scan_rel_grab [simp]: "scan_rel s (grab l s)" and
  scan_rel_ungrab [simp]: "scan_rel s (ungrab l s)" and
  scan_rel_uart_out [simp]: "scan_rel s (s\<lparr>uart_out := X\<rparr>)"
  by (simp_all add: scan_rel_def same_rest_def)

lemma stride_scan_choose:
  assumes "scan_ok m s" and "\<forall>i \<in> set is. i < NPROC" and "distinct is" and "\<forall>i \<in> set is. m \<noteq> Some i"
  shows "\<exists>t. stride_scan is m s = Ok (foldl (take_better (procs s)) m is, t) \<and>
           scan_ok (foldl (take_better (procs s)) m is) t \<and> scan_rel s t"
  using assms
proof (induction "is" arbitrary: m s)
  case (Cons i "is")
  have i: "i < NPROC" "m \<noteq> Some i" using Cons.prems by auto
  note look = look [OF Cons.prems(1) i]
  have rest: "\<exists>t. stride_scan is m' s' = Ok (foldl (take_better (procs s)) m' is, t) \<and>
      scan_ok (foldl (take_better (procs s)) m' is) t \<and> scan_rel s t"
    if "scan_ok m' s'" "scan_rel s s'" "m' = m \<or> m' = Some i" for m' s'
    using Cons.IH [of m' s'] Cons.prems that by (auto simp: scan_rel_def same_rest_def)
  show ?case
  proof (cases "take_better (procs s) m i = Some i")
    case False
    then have "stride_scan (i # is) m s = stride_scan is m (settle s)"
      using look by (auto simp: take_better_def split: if_splits)
    moreover have "take_better (procs s) m i = m" using False by (auto simp: take_better_def)
    ultimately show ?thesis using rest [of m "settle s"] Cons.prems(1) by simp
  next
    case True
    then have c: "state (procs s i) = RUNNABLE" "improves (procs s) i m"
      using i by (auto simp: take_better_def split: if_splits)
    obtain s1 where s1: "(case m of None \<Rightarrow> Ok (grab (LProc i) s)
          | Some j \<Rightarrow> release (LProc j) (grab (LProc i) s)) = Ok s1" "scan_ok (Some i) s1" "scan_rel s s1"
    proof (cases m)
      case None
      with that show ?thesis using scan_ok_take [of s i] Cons.prems(1) i by simp
    next
      case (Some j)
      then have "scan_ok (Some j) s" "i \<noteq> j" using Cons.prems(1) i by auto
      moreover have "scan_rel s (ungrab (LProc j) (grab (LProc i) s))"
        by (rule scan_rel_trans [OF scan_rel_grab scan_rel_ungrab])
      ultimately show ?thesis using that Some scan_ok_swap [of j s i] i(1) by simp
    qed
    obtain out where "printf (''min pass=%d pid=%d'' @ newline)
        [VInt (pass (procs s1 i)), VInt (pid (procs s1 i))] s1 = Ok ((settle s1)\<lparr>uart_out := uart_out s1 @ out\<rparr>)"
      using printf_scan [OF s1(2) stride_messages(1)] by blast
    then have "stride_scan (i # is) m s = stride_scan is (Some i) ((settle s1)\<lparr>uart_out := uart_out s1 @ out\<rparr>)"
      using look c s1 by simp
    moreover have "scan_rel s ((settle s1)\<lparr>uart_out := uart_out s1 @ out\<rparr>)"
      using s1(3) by (simp add: scan_rel_def same_rest_def)
    ultimately show ?thesis using rest s1(2) True by simp
  qed
qed simp

text \<open>\<open>better\<close> is a strict weak order: smaller pass first, larger pid on equal pass.\<close>

lemma better_irrefl: "\<not> better p p"
  by (simp add: better_def ilt_def)

lemma better_sint:
  "better p q \<longleftrightarrow> sint (pass p) < sint (pass q) \<or>
     sint (pass p) = sint (pass q) \<and> sint (pid q) < sint (pid p)"
  by (simp add: better_def ilt_def sint_inject)

lemma not_better_trans: "\<not> better p q \<Longrightarrow> \<not> better q r \<Longrightarrow> \<not> better p r"
  unfolding better_sint by linarith

definition best_in :: "nat set \<Rightarrow> (nat \<Rightarrow> proc) \<Rightarrow> nat option \<Rightarrow> bool" where
  "best_in I ps r \<longleftrightarrow>
     (case r of
        None \<Rightarrow> \<forall>i \<in> I. state (ps i) \<noteq> RUNNABLE
      | Some i \<Rightarrow> i \<in> I \<and> state (ps i) = RUNNABLE \<and>
          (\<forall>j \<in> I. state (ps j) = RUNNABLE \<longrightarrow> \<not> better (ps j) (ps i)))"

lemma better_asym: "better p q \<Longrightarrow> \<not> better q p"
  unfolding better_sint by linarith

lemma best_in_take_better:
  assumes "best_in I ps m"
  shows "best_in (insert i I) ps (take_better ps m i)"
proof (cases m)
  case None
  with assms show ?thesis by (auto simp: best_in_def take_better_def improves_def better_irrefl)
next
  case (Some j)
  with assms have j: "j \<in> I" "state (ps j) = RUNNABLE"
    "\<And>k. k \<in> I \<Longrightarrow> state (ps k) = RUNNABLE \<Longrightarrow> \<not> better (ps k) (ps j)"
    by (simp_all add: best_in_def)
  show ?thesis
  proof (cases "state (ps i) = RUNNABLE \<and> better (ps i) (ps j)")
    case True
    then have "\<not> better (ps k) (ps i)" if "k \<in> I" "state (ps k) = RUNNABLE" for k
      using not_better_trans [OF j(3) [OF that] better_asym] by blast
    with True Some show ?thesis
      by (simp add: best_in_def take_better_def improves_def better_irrefl)
  next
    case False
    with Some j show ?thesis by (auto simp: best_in_def take_better_def improves_def)
  qed
qed

lemma best_in_scan: "best_in (set is) ps (foldl (take_better ps) None is)"
  by (induction "is" rule: rev_induct) (simp_all add: best_in_take_better, simp add: best_in_def)

text \<open>The choice does not touch any process but the chosen one, and only its lock is kept.\<close>

lemma stride_pick_best:
  assumes "scan_ok None s"
  obtains r t where "stride_pick s = Ok (r, t)" and "best_in {..<NPROC} (procs s) r"
    and "scan_ok r t" and "same_rest s t" and "last_index t = last_index s" and "seed t = seed s"
    and "\<And>i. r = Some i \<Longrightarrow> cproc (mycpu t) = Some i"
    and "r = None \<Longrightarrow> cproc (mycpu t) = cproc (mycpu s)"
    and "procs t = (case r of None \<Rightarrow> procs s
                    | Some i \<Rightarrow> (procs s)(i := (procs s i)\<lparr>state := RUNNING\<rparr>))"
proof -
  let ?r = "foldl (take_better (procs s)) None slots"
  obtain u where u: "stride_scan slots None (intr_on s) = Ok (?r, u)" "scan_ok ?r u" "scan_rel (intr_on s) u"
    using stride_scan_choose [of None "intr_on s" slots] scan_ok_intr_on [OF assms] by auto
  have best: "best_in {..<64} (procs s) ?r" using best_in_scan [of slots "procs s"] by simp
  show thesis
  proof (cases ?r)
    case None
    show thesis
      using u best None by (intro that [of None u]) (auto simp: stride_pick_def scan_rel_def same_rest_def)
  next
    case (Some i)
    let ?t = "set_cproc (Some i) (set_proc i (\<lambda>p. p\<lparr>state := RUNNING\<rparr>) u)"
    have "scan_ok (Some i) ?t" using u(2) Some by (simp add: scan_ok_def)
    then show thesis
      using u best Some by (intro that [of "Some i" ?t]) (auto simp: stride_pick_def scan_rel_def same_rest_def)
  qed
qed

section \<open>A process that runs for one quantum\<close>

text \<open>
  The usual life of a process between two switches: it comes back from \<open>yield\<close>, runs user
  code, and the next timer interrupt makes it yield again.  The argument \<open>ie\<close> is the
  interrupt flag that its \<open>sched\<close> saved.
\<close>

definition quantum :: "bool \<Rightarrow> nat \<Rightarrow> 'a ptab_scheme \<Rightarrow> 'a ptab_scheme res" where
  "quantum ie i s = bindR (yield_in i ie s) (\<lambda>s. bindR (yield_out s) (\<lambda>(_, s). Ok s))"

lemma sched_in_simps [simp]:
  "tp (sched_in ie s) = tp s" "noff (mycpu (sched_in ie s)) = noff (mycpu s)"
  "cproc (mycpu (sched_in ie s)) = cproc (mycpu s)" "intena (mycpu (sched_in ie s)) = ie"
  "intr_get (sched_in ie s) = intr_get s" "holding l (sched_in ie s) = holding l s"
  "lock_free l (sched_in ie s) = lock_free l s" "procs (sched_in ie s) = procs s"
  "initproc (sched_in ie s) = initproc s" "nextpid (sched_in ie s) = nextpid s"
  "last_index (sched_in ie s) = last_index s" "seed (sched_in ie s) = seed s"
  "scheduler_mode (sched_in ie s) = scheduler_mode s" "panicked (sched_in ie s) = panicked s"
  "pr_locking (sched_in ie s) = pr_locking s"
  by (simp_all add: sched_in_def holding_def lock_free_def mach_defs)

lemma quantum_ok:
  assumes "scan_ok (Some i) s" and "cproc (mycpu s) = Some i"
  obtains t where "quantum ie i s = Ok t" and "scan_ok (Some i) t" and "same_rest s t"
    and "last_index t = last_index s" and "seed t = seed s" and "cproc (mycpu t) = Some i"
    and "procs t = (procs s)(i := (procs s i)\<lparr>state := RUNNABLE\<rparr>)"
proof -
  have i: "i < NPROC" "holding (LProc i) s" "noff (mycpu s) = 1" "\<not> intr_get s"
    using assms(1) by (auto simp: scan_ok_def)
  let ?a = "ungrab (LProc i) (sched_in ie s)"
  have a: "yield_in i ie s = Ok ?a"
    unfolding yield_in_def using i by (intro release_held) simp_all
  have ok: "cpu_ok ?a" using i by (simp add: cpu_ok_def)
  let ?b = "set_proc i (\<lambda>q. q\<lparr>state := RUNNABLE\<rparr>) (grab (LProc i) (settle ?a))"
  have b: "cpu_ok ?b" "cproc (mycpu ?b) = Some i" "noff (mycpu ?b) = 1"
    using i assms(2) by (simp_all add: cpu_ok_def)
  have "yield_out ?a = sched_out ?b"
    using ok assms(2) by (simp add: yield_out_def curproc_ok acquire_free)
  also have "\<dots> = Ok (intena (mycpu (settle ?b)), settle ?b)"
    using b by (simp add: sched_out_def curproc_ok)
  finally have "quantum ie i s = Ok (settle ?b)" using a by (simp add: quantum_def)
  moreover have "scan_ok (Some i) (settle ?b)" using assms(1) by (auto simp: scan_ok_def)
  ultimately show thesis using assms(2) by (intro that [of "settle ?b"]) (simp_all add: same_rest_def)
qed

end
