(* ===== verification/Stride.thy ===== *)
theory Stride
  imports Scheduler
begin

text \<open>
  Properties of \<open>scheduler_stride\<close> over many turns: the abstract stride machine that the turns
  of the loop implement, proportional share, and what happens to processes whose stride is 0.
\<close>

section \<open>One turn\<close>

lemma stride_resume_ok:
  assumes "scan_ok (Some i) s"
  obtains t where "stride_resume i s = Ok t" and "scan_ok None t" and "same_rest s t"
    and "last_index t = last_index s" and "seed t = seed s" and "cproc (mycpu t) = None"
    and "procs t = (procs s)(i := (procs s i)\<lparr>pass := pass (procs s i) + stride (procs s i)\<rparr>)"
proof -
  have i: "i < NPROC" using assms by (auto simp: scan_ok_def)
  let ?u = "set_proc i (\<lambda>p. p\<lparr>pass := pass p + stride p\<rparr>) (set_cproc None s)"
  have u: "scan_ok (Some i) ?u" using assms by (simp add: scan_ok_def)
  obtain out where "printf (''soma do passo: %d'' @ newline) [VInt (pass (procs ?u i))] ?u
      = Ok ((settle ?u)\<lparr>uart_out := uart_out ?u @ out\<rparr>)"
    using printf_scan [OF u stride_messages(2)] by blast
  moreover let ?v = "(settle ?u)\<lparr>uart_out := uart_out ?u @ out\<rparr>"
  have v: "scan_ok (Some i) ?v" using u by simp
  ultimately have "stride_resume i s = Ok (ungrab (LProc i) ?v)"
    using scan_ok_drop(1) by (simp only: stride_resume_def Let_def bindR.simps)
  then show thesis
    using scan_ok_drop(2) [OF v] by (intro that [of "ungrab (LProc i) ?v"]) (simp_all add: same_rest_def)
qed

text \<open>The abstract machine: the best runnable process advances its pass by its stride.\<close>

definition advance :: "(nat \<Rightarrow> proc) \<Rightarrow> nat option \<Rightarrow> nat \<Rightarrow> proc" where
  "advance ps r = (case r of None \<Rightarrow> ps
     | Some i \<Rightarrow> ps(i := (ps i)\<lparr>pass := pass (ps i) + stride (ps i)\<rparr>))"

lemma stride_turn_ok:
  assumes "scan_ok None s"
  obtains r t u where "scheduler_stride_turn (quantum ie) s = Ok t" and "scan_ok None t"
    and "same_rest s t" and "stride_pick s = Ok (r, u)"
    and "best_in {..<NPROC} (procs s) r" and "procs t = advance (procs s) r"
proof -
  obtain r u where u: "stride_pick s = Ok (r, u)" "best_in {..<NPROC} (procs s) r" "scan_ok r u"
    "same_rest s u" "\<And>i. r = Some i \<Longrightarrow> cproc (mycpu u) = Some i"
    "procs u = (case r of None \<Rightarrow> procs s | Some i \<Rightarrow> (procs s)(i := (procs s i)\<lparr>state := RUNNING\<rparr>))"
    by (rule stride_pick_best [OF assms, of thesis]) (rule that)
  show thesis
  proof (cases r)
    case None
    then show thesis using u by (intro that [of u r u]) (simp_all add: scheduler_stride_turn_def advance_def)
  next
    case (Some i)
    obtain v where v: "quantum ie i u = Ok v" "scan_ok (Some i) v" "same_rest u v"
      "procs v = (procs u)(i := (procs u i)\<lparr>state := RUNNABLE\<rparr>)"
      using quantum_ok [of i u ie] u(3,5) Some by metis
    obtain t where t: "stride_resume i v = Ok t" "scan_ok None t" "same_rest v t"
      "procs t = (procs v)(i := (procs v i)\<lparr>pass := pass (procs v i) + stride (procs v i)\<rparr>)"
      using stride_resume_ok [OF v(2)] by metis
    have "state (procs s i) = RUNNABLE" using u(2) Some by (simp add: best_in_def)
    then have "procs v = procs s" using u(6) v(4) Some by (simp add: fun_upd_idem)
    then have "procs t = advance (procs s) r" using t(4) Some by (simp add: advance_def)
    moreover have "same_rest s t" using u(4) v(3) t(3) same_rest_trans by blast
    moreover have "scheduler_stride_turn (quantum ie) s = Ok t"
      using u(1) v(1) t(1) Some by (simp add: scheduler_stride_turn_def)
    ultimately show thesis using t(2) u(1,2) by (intro that)
  qed
qed

section \<open>Proportional share\<close>

text \<open>
  The ghost counter \<open>k i\<close> is how often process \<open>i\<close> has run.  The passes of any two runnable
  processes never drift apart by more than one stride.
\<close>

definition stride_of :: "(nat \<Rightarrow> proc) \<Rightarrow> nat \<Rightarrow> int" where
  "stride_of ps i = sint (stride (ps i))"

definition runnable :: "(nat \<Rightarrow> proc) \<Rightarrow> nat set" where
  "runnable ps = {i. i < NPROC \<and> state (ps i) = RUNNABLE}"

definition share_inv :: "(nat \<Rightarrow> proc) \<Rightarrow> nat \<Rightarrow> (nat \<Rightarrow> nat) \<Rightarrow> (nat \<Rightarrow> proc) \<Rightarrow> bool" where
  "share_inv ps0 n k ps \<longleftrightarrow>
     (\<exists>f. ps = (\<lambda>i. (ps0 i)\<lparr>pass := f i\<rparr>)) \<and>
     (\<forall>i \<in> runnable ps0. sint (pass (ps i)) = int (k i) * stride_of ps0 i) \<and>
     (\<forall>i \<in> runnable ps0. \<forall>j \<in> runnable ps0.
        int (k i) * stride_of ps0 i \<le> int (k j) * stride_of ps0 j + stride_of ps0 i) \<and>
     sum k (runnable ps0) = n"

lemma finite_runnable [simp]: "finite (runnable ps)"
  by (simp add: runnable_def)

lemma share_inv_fields:
  assumes "share_inv ps0 n k ps"
  shows "state (ps i) = state (ps0 i)" "stride (ps i) = stride (ps0 i)" "pid (ps i) = pid (ps0 i)"
  using assms by (auto simp: share_inv_def)

lemma share_inv_step:
  assumes inv: "share_inv ps0 n k ps" and best: "best_in {..<NPROC} ps r" and "runnable ps0 \<noteq> {}"
    and pos: "\<And>i. i \<in> runnable ps0 \<Longrightarrow> 0 < stride_of ps0 i \<and> stride_of ps0 i \<le> S"
    and bound: "int (Suc n) * S < 2147483648"
  shows "\<exists>k'. share_inv ps0 (Suc n) k' (advance ps r)"
proof -
  note fields = share_inv_fields [OF inv]
  obtain i where r: "r = Some i" and i: "i \<in> runnable ps0"
    and min: "\<And>j. j \<in> runnable ps0 \<Longrightarrow> \<not> better (ps j) (ps i)"
    using best assms(3) by (cases r) (auto simp: best_in_def runnable_def fields)
  have val: "sint (pass (ps j)) = int (k j) * stride_of ps0 j" if "j \<in> runnable ps0" for j
    using inv that by (simp add: share_inv_def)
  have le: "int (k i) * stride_of ps0 i \<le> int (k j) * stride_of ps0 j" if "j \<in> runnable ps0" for j
    using min [OF that] val [OF that] val [OF i] by (auto simp: better_sint)
  have "k i \<le> n" using inv i member_le_sum [of i "runnable ps0" k] by (simp add: share_inv_def)
  then have "int (k i) * stride_of ps0 i \<le> int n * S" using pos [OF i] by (intro mult_mono) auto
  then have "sint (pass (ps i)) + sint (stride (ps i)) < 2147483648"
    using bound val [OF i] pos [OF i] fields(2) [of i] by (simp add: stride_of_def algebra_simps)
  moreover have "0 \<le> sint (pass (ps i)) + sint (stride (ps i))"
    using val [OF i] pos [OF i] fields(2) [of i] by (simp add: stride_of_def)
  ultimately have new: "sint (pass (ps i) + stride (ps i)) = int (Suc (k i)) * stride_of ps0 i"
    using val [OF i] fields(2) [of i] by (simp add: sint_i32_add stride_of_def algebra_simps)
  have "sum (k(i := Suc (k i))) (runnable ps0) = Suc n"
    using inv i by (simp add: share_inv_def sum.remove [of _ i])
  moreover have "int ((k(i := Suc (k i))) a) * stride_of ps0 a
      \<le> int ((k(i := Suc (k i))) b) * stride_of ps0 b + stride_of ps0 a"
    if "a \<in> runnable ps0" "b \<in> runnable ps0" for a b
  proof -
    have "int (k a) * stride_of ps0 a \<le> int (k b) * stride_of ps0 b + stride_of ps0 a"
      using inv that by (simp add: share_inv_def)
    then show ?thesis
      using le [OF that(2)] pos [OF i] pos [OF that(1)]
      by (cases "a = i"; cases "b = i"; simp add: algebra_simps)
  qed
  moreover have "\<exists>f. advance ps r = (\<lambda>j. (ps0 j)\<lparr>pass := f j\<rparr>)"
  proof -
    obtain f where "ps = (\<lambda>j. (ps0 j)\<lparr>pass := f j\<rparr>)" using inv by (auto simp: share_inv_def)
    then have "advance ps r = (\<lambda>j. (ps0 j)\<lparr>pass := (f(i := f i + stride (ps0 i))) j\<rparr>)"
      by (auto simp: r advance_def)
    then show ?thesis by blast
  qed
  ultimately have "share_inv ps0 (Suc n) (k(i := Suc (k i))) (advance ps r)"
    using new val unfolding share_inv_def by (auto simp: r advance_def)
  then show ?thesis by blast
qed

lemma stride_turns_share:
  assumes "scan_ok None s" and "runnable (procs s) \<noteq> {}"
    and "\<And>i. i \<in> runnable (procs s) \<Longrightarrow>
           pass (procs s i) = 0 \<and> 0 < stride_of (procs s) i \<and> stride_of (procs s) i \<le> S"
    and "int n * S < 2147483648"
  shows "\<exists>t k. turns n (scheduler_stride_turn (quantum ie)) s = Ok t \<and> scan_ok None t \<and>
           share_inv (procs s) n k (procs t)"
  using assms(4)
proof (induction n)
  case 0
  have "\<exists>f. procs s = (\<lambda>i. (procs s i)\<lparr>pass := f i\<rparr>)"
    by (rule exI [of _ "\<lambda>i. pass (procs s i)"]) simp
  then have "share_inv (procs s) 0 (\<lambda>_. 0) (procs s)"
    unfolding share_inv_def using assms(3) by (simp add: less_imp_le)
  then show ?case using assms(1) by auto
next
  case (Suc n)
  obtain i where "i \<in> runnable (procs s)" using assms(2) by blast
  then have "0 < S" using assms(3) [of i] by linarith
  then have "int n * S < 2147483648" using Suc.prems by (simp add: algebra_simps)
  then obtain t k where t: "turns n (scheduler_stride_turn (quantum ie)) s = Ok t" "scan_ok None t"
    "share_inv (procs s) n k (procs t)" using Suc.IH by blast
  obtain r u where u: "scheduler_stride_turn (quantum ie) t = Ok u" "scan_ok None u"
    "best_in {..<NPROC} (procs t) r" "procs u = advance (procs t) r"
    using stride_turn_ok [OF t(2), of ie] by metis
  obtain k' where "share_inv (procs s) (Suc n) k' (procs u)"
    using share_inv_step [OF t(3) u(3) assms(2) _ Suc.prems] assms(3) u(4) by auto
  then show ?case using t(1) u(1,2) by (auto simp: turns_Suc_end simp del: turns.simps)
qed

section \<open>Properties\<close>

text \<open>A process table with two runnable processes of strides 100 and 200.\<close>

definition two_procs :: ptab where
  "two_procs = (printfinit (init_ptab example_image (\<lambda>_. 0)))\<lparr>procs := (\<lambda>_. zero_proc)
     (2 := zero_proc\<lparr>state := RUNNABLE, pid := 1, stride := 100\<rparr>,
      3 := zero_proc\<lparr>state := RUNNABLE, pid := 2, stride := 200\<rparr>)\<rparr>"

lemma two_procs_ok:
  "scan_ok None two_procs" "runnable (procs two_procs) = {2, 3}" "scheduler_mode two_procs = 1"
  "procs two_procs 2 = zero_proc\<lparr>state := RUNNABLE, pid := 1, stride := 100\<rparr>"
  "procs two_procs 3 = zero_proc\<lparr>state := RUNNABLE, pid := 2, stride := 200\<rparr>"
  "i \<noteq> 2 \<Longrightarrow> i \<noteq> 3 \<Longrightarrow> procs two_procs i = zero_proc"
  by (auto simp: two_procs_def scan_ok_def lock_free_def printfinit_def initlock_def init_ptab_def
      mach_defs runnable_def zero_proc_def)

text \<open>C4. One turn of the stride scheduler returns and chooses, among all runnable processes, one
  with the smallest pass and, among those, the largest pid.  It marks that process running and
  leaves every other entry of the process table as it was; of all process locks exactly the
  chosen one is held at the switch, with interrupts off and nesting depth 1.\<close>

theorem stride_pick_min:
  assumes "scan_ok None s"
  shows "\<exists>r t. stride_pick s = Ok (r, t) \<and>
    (case r of
       None \<Rightarrow> (\<forall>i < NPROC. state (procs s i) \<noteq> RUNNABLE) \<and> procs t = procs s \<and> scan_ok None t
     | Some i \<Rightarrow> i < NPROC \<and> state (procs s i) = RUNNABLE \<and>
         (\<forall>j < NPROC. state (procs s j) = RUNNABLE \<longrightarrow>
            sint (pass (procs s i)) < sint (pass (procs s j)) \<or>
            pass (procs s i) = pass (procs s j) \<and> sint (pid (procs s j)) \<le> sint (pid (procs s i))) \<and>
         procs t = (procs s)(i := (procs s i)\<lparr>state := RUNNING\<rparr>) \<and>
         cproc (mycpu t) = Some i \<and> noff (mycpu t) = 1 \<and> \<not> intr_get t \<and>
         holding (LProc i) t \<and> (\<forall>j < NPROC. j \<noteq> i \<longrightarrow> lock_free (LProc j) t))"
proof -
  obtain r t where t: "stride_pick s = Ok (r, t)" "best_in {..<NPROC} (procs s) r" "scan_ok r t"
    "\<And>i. r = Some i \<Longrightarrow> cproc (mycpu t) = Some i"
    "procs t = (case r of None \<Rightarrow> procs s | Some i \<Rightarrow> (procs s)(i := (procs s i)\<lparr>state := RUNNING\<rparr>))"
    by (rule stride_pick_best [OF assms, of thesis]) (rule that)
  have order: "sint (pass p) < sint (pass q) \<or> pass p = pass q \<and> sint (pid q) \<le> sint (pid p)"
    if "\<not> better q p" for p q
    using that by (auto simp: better_sint sint_inject)
  show ?thesis
  proof (cases r)
    case None
    with t show ?thesis by (auto simp: best_in_def)
  next
    case (Some i)
    with t show ?thesis using order by (auto simp: best_in_def scan_ok_def)
  qed
qed

theorem stride_pick_min_witness:
  "\<exists>t. stride_pick two_procs = Ok (Some 3, t) \<and>
     procs t = (procs two_procs)(3 := (procs two_procs 3)\<lparr>state := RUNNING\<rparr>)"
proof -
  obtain r t where t: "stride_pick two_procs = Ok (r, t)" "case r of
       None \<Rightarrow> (\<forall>i < 64. state (procs two_procs i) \<noteq> RUNNABLE)
     | Some i \<Rightarrow> i < 64 \<and> state (procs two_procs i) = RUNNABLE \<and>
         (\<forall>j < 64. state (procs two_procs j) = RUNNABLE \<longrightarrow>
            sint (pass (procs two_procs i)) < sint (pass (procs two_procs j)) \<or>
            pass (procs two_procs i) = pass (procs two_procs j) \<and>
            sint (pid (procs two_procs j)) \<le> sint (pid (procs two_procs i))) \<and>
         procs t = (procs two_procs)(i := (procs two_procs i)\<lparr>state := RUNNING\<rparr>)"
    using stride_pick_min [OF two_procs_ok(1)] by (auto split: option.splits) 
  have q: "state (procs two_procs 2) = RUNNABLE" "state (procs two_procs 3) = RUNNABLE"
    by (simp_all add: two_procs_ok(4,5))
  have "r = Some 3"
  proof (cases r)
    case None
    then have "state (procs two_procs 2) \<noteq> RUNNABLE" using t(2) by simp
    with q show ?thesis by blast
  next
    case (Some i)
    then have "i \<in> runnable (procs two_procs)" using t(2) by (simp add: runnable_def)
    then have "i = 2 \<or> i = 3" by (simp add: two_procs_ok(2))
    moreover have "i \<noteq> 2"
    proof
      assume "i = 2"
      then have "sint (pass (procs two_procs 2)) < sint (pass (procs two_procs 3)) \<or>
          sint (pid (procs two_procs 3)) \<le> sint (pid (procs two_procs 2))"
        using t(2) Some q(2) by (auto dest!: spec [of _ 3])
      then show False unfolding two_procs_ok(4,5) by (simp add: zero_proc_def)
    qed
    ultimately show ?thesis using Some by simp
  qed
  with t show ?thesis by simp
qed

text \<open>C1. Proportional share.  From a state where every runnable process has pass 0 and a
  positive stride, \<open>n\<close> turns of the stride scheduler return, and if \<open>k i\<close> counts the turns
  given to process \<open>i\<close>, the counts add up to \<open>n\<close>, every pass is its count times its stride,
  and for any two runnable processes the products differ by at most the larger stride: the
  turns are shared in inverse proportion to the strides, that is, in proportion to the tickets.
  The bound on \<open>n\<close> says that no pass overflows the C \<open>int\<close>.\<close>

theorem stride_proportional_share:
  assumes "scan_ok None s" and "scheduler_mode s \<noteq> 0" and "runnable (procs s) \<noteq> {}"
    and "\<forall>i \<in> runnable (procs s). pass (procs s i) = 0 \<and>
           0 < sint (stride (procs s i)) \<and> sint (stride (procs s i)) \<le> S"
    and "int n * S < 2147483648"
  shows "\<exists>t k. scheduler n (quantum ie) s = Ok t \<and> sum k (runnable (procs s)) = n \<and>
    (\<forall>i \<in> runnable (procs s). sint (pass (procs t i)) = int (k i) * sint (stride (procs s i))) \<and>
    (\<forall>i \<in> runnable (procs s). \<forall>j \<in> runnable (procs s).
       \<bar>int (k i) * sint (stride (procs s i)) - int (k j) * sint (stride (procs s j))\<bar>
         \<le> max (sint (stride (procs s i))) (sint (stride (procs s j))))"
proof -
  obtain t k where t: "turns n (scheduler_stride_turn (quantum ie)) s = Ok t"
    and k: "share_inv (procs s) n k (procs t)"
    using stride_turns_share [OF assms(1,3) _ assms(5), of ie] assms(4) by (auto simp: stride_of_def)
  have "scheduler n (quantum ie) s = Ok t" using t assms(2) by (simp add: scheduler_def)
  moreover have "\<bar>int (k i) * sint (stride (procs s i)) - int (k j) * sint (stride (procs s j))\<bar>
      \<le> max (sint (stride (procs s i))) (sint (stride (procs s j)))"
    if "i \<in> runnable (procs s)" "j \<in> runnable (procs s)" for i j
  proof -
    have le: "int (k a) * sint (stride (procs s a))
        \<le> int (k b) * sint (stride (procs s b)) + sint (stride (procs s a))"
      if "a \<in> runnable (procs s)" "b \<in> runnable (procs s)" for a b
      using k that by (simp add: share_inv_def stride_of_def)
    show ?thesis using le [OF that] le [OF that(2,1)] by linarith
  qed
  ultimately show ?thesis using k by (auto simp: share_inv_def stride_of_def)
qed

theorem stride_proportional_share_witness:
  "\<exists>t (k :: nat \<Rightarrow> nat). scheduler 300 (quantum False) two_procs = Ok t \<and> k 2 + k 3 = 300 \<and>
     \<bar>int (k 2) * 100 - int (k 3) * 200\<bar> \<le> 200"
  using stride_proportional_share [of two_procs 200 300 False]
  by (auto simp: two_procs_ok(1,2,3)) (auto simp: two_procs_ok(4) two_procs_ok(5) zero_proc_def)

text \<open>
  A process created by plain \<open>fork\<close> in a slot never used before has stride 0, so running it
  does not move its pass.
\<close>

lemma stride_zero_turn:
  assumes "scan_ok None s" and "i \<in> runnable (procs s)" and "stride (procs s i) = 0"
    and "\<And>j. j \<in> runnable (procs s) \<Longrightarrow> j \<noteq> i \<Longrightarrow> better (procs s i) (procs s j)"
  shows "\<exists>t u. scheduler_stride_turn (quantum ie) s = Ok t \<and> scan_ok None t \<and>
    same_rest s t \<and> procs t = procs s \<and> stride_pick s = Ok (Some i, u)"
proof -
  obtain r t u where t: "scheduler_stride_turn (quantum ie) s = Ok t" "scan_ok None t" "same_rest s t"
    "stride_pick s = Ok (r, u)" "best_in {..<NPROC} (procs s) r" "procs t = advance (procs s) r"
    by (rule stride_turn_ok [OF assms(1), of ie thesis]) (rule that)
  have "r = Some i"
    using t(5) assms(2,4) by (cases r) (auto simp: best_in_def runnable_def)
  moreover from this have "procs t = procs s"
    using t(6) assms(3) by (simp add: advance_def fun_upd_idem)
  ultimately show ?thesis using t by blast
qed

text \<open>C7. Starvation.  If a runnable process has stride 0 and precedes every other runnable
  process, then after any number of turns of the stride scheduler the process table is
  unchanged and the next choice is that process again: no other process ever runs, however
  many turns pass.\<close>

theorem stride_zero_starves:
  assumes "scan_ok None s" and "scheduler_mode s \<noteq> 0"
    and "i < NPROC" and "state (procs s i) = RUNNABLE" and "stride (procs s i) = 0"
    and "\<forall>j < NPROC. j \<noteq> i \<longrightarrow> state (procs s j) = RUNNABLE \<longrightarrow> better (procs s i) (procs s j)"
  shows "\<exists>t u. scheduler n (quantum ie) s = Ok t \<and> procs t = procs s \<and> stride_pick t = Ok (Some i, u)"
proof -
  have turn: "\<exists>t u. scheduler_stride_turn (quantum ie) s' = Ok t \<and> scan_ok None t \<and> procs t = procs s \<and>
      stride_pick s' = Ok (Some i, u)" if "scan_ok None s'" "procs s' = procs s" for s'
    using stride_zero_turn [OF that(1), of i ie] assms that(2) by (auto simp: runnable_def)
  have "\<exists>t. turns n (scheduler_stride_turn (quantum ie)) s = Ok t \<and> scan_ok None t \<and> procs t = procs s"
  proof (induction n)
    case (Suc n)
    then obtain t where "turns n (scheduler_stride_turn (quantum ie)) s = Ok t" "scan_ok None t" "procs t = procs s"
      by blast
    with turn [of t] show ?case by (auto simp only: turns_Suc_end bindR.simps)
  qed (simp add: assms(1))
  then obtain t where "scheduler n (quantum ie) s = Ok t" "scan_ok None t" "procs t = procs s"
    using assms(2) by (auto simp: scheduler_def)
  with turn [of t] show ?thesis by blast
qed

definition forked_first :: ptab where
  "forked_first = two_procs\<lparr>procs := (procs two_procs)
     (3 := zero_proc\<lparr>state := RUNNABLE, pid := 3, stride := 0\<rparr>)\<rparr>"

theorem stride_zero_starves_witness:
  "\<exists>t u. scheduler 1000 (quantum False) forked_first = Ok t \<and> procs t = procs forked_first \<and>
     stride_pick t = Ok (Some 3, u)"
proof -
  have other: "j \<noteq> 2 \<Longrightarrow> j \<noteq> 3 \<Longrightarrow> state (procs forked_first j) = UNUSED" for j
    by (simp add: forked_first_def two_procs_ok(6) zero_proc_def)
  have "better (procs forked_first 3) (procs forked_first 2)"
    by (simp add: forked_first_def two_procs_ok(4) zero_proc_def better_def ilt_def)
  then have "\<forall>j < 64. j \<noteq> 3 \<longrightarrow> state (procs forked_first j) = RUNNABLE \<longrightarrow>
      better (procs forked_first 3) (procs forked_first j)"
    using other by (metis procstate.distinct(5))
  moreover have "scan_ok None forked_first"
    using two_procs_ok(1) by (simp add: forked_first_def scan_ok_def)
  ultimately show ?thesis
    using stride_zero_starves [of forked_first 3 1000 False] two_procs_ok(3)
    by (simp add: forked_first_def zero_proc_def)
qed

end
