(* ===== verification/Lottery.thy ===== *)
theory Lottery
  imports Scheduler
begin

text \<open>
  Properties of \<open>scheduler_loteria\<close>: the generator behind the draw has full period, the draw
  gives the classes their shares of the tickets, the round robin inside a class is bounded,
  and together every runnable process of a valid class is eventually chosen.
\<close>

section \<open>The generator\<close>

definition next_seed :: "u32 \<Rightarrow> u32" where
  "next_seed x = x * 1103515245 + 1248345"

primrec geo :: "nat \<Rightarrow> nat" where
  "geo 0 = 0"
| "geo (Suc n) = 1 + 1103515245 * geo n"

lemma power_geo: "1103515245 ^ n = 1 + 1103515244 * geo n"
  by (induction n) simp_all

lemma geo_add: "geo (m + n) = geo m + 1103515245 ^ m * geo n"
  by (induction m) (simp_all add: algebra_simps)

lemma geo_double: "geo (2 * m) = geo m * (1 + 1103515245 ^ m)"
  unfolding mult_2 geo_add by (simp add: algebra_simps)

lemma geo_odd: "odd (geo n) \<longleftrightarrow> odd n"
  by (induction n) simp_all

text \<open>\<open>1 + a ^ m\<close> is twice an odd number, since the multiplier is 1 modulo 4.\<close>

lemma one_plus_power: "\<exists>q. (1 + 1103515245 ^ m :: nat) = 2 * q \<and> odd q"
proof -
  have "(1 + 1103515245 ^ m :: nat) = 2 * (1 + 551757622 * geo m)" by (simp add: power_geo)
  then show ?thesis by (intro exI [of _ "1 + 551757622 * geo m"]) simp
qed

lemma pow2_dvd_odd: "odd (q :: nat) \<Longrightarrow> 2 ^ k dvd m * q \<longleftrightarrow> 2 ^ k dvd m"
  by (auto intro: coprime_dvd_mult_left_iff [THEN iffD1])

lemma pow2_dvd_geo: "2 ^ k dvd geo n \<longleftrightarrow> 2 ^ k dvd n"
proof (induction k arbitrary: n)
  case (Suc k)
  show ?case
  proof (cases "even n")
    case True
    then obtain m where m: "n = 2 * m" by blast
    obtain q where q: "(1 + 1103515245 ^ m :: nat) = 2 * q" "odd q" using one_plus_power by blast
    have "2 ^ Suc k dvd geo n \<longleftrightarrow> 2 * 2 ^ k dvd 2 * (geo m * q)"
      unfolding m geo_double q(1) by (simp add: algebra_simps)
    also have "\<dots> \<longleftrightarrow> 2 ^ k dvd geo m"
      unfolding dvd_mult_cancel_left using pow2_dvd_odd [OF q(2)] by simp
    finally show ?thesis using Suc m by simp
  next
    case False
    then show ?thesis using geo_odd [of n] by (metis dvd_trans dvd_triv_left power_Suc)
  qed
qed simp

lemma unat_next_seed: "unat (next_seed x) = (1103515245 * unat x + 1248345) mod 2 ^ 32"
  by (simp add: next_seed_def unat_word_ariths mod_add_left_eq mult.commute)

lemma affine_mod: "(a * (b mod m) + c) mod m = (a * b + c) mod (m :: nat)"
  by (metis mod_add_left_eq mod_mult_right_eq)

lemma unat_iter_seed:
  "unat ((next_seed ^^ n) x) = (unat x + geo n * (1103515244 * unat x + 1248345)) mod 2 ^ 32"
proof (induction n)
  case 0
  show ?case using unat_u32_lt [of x] by simp
next
  case (Suc n)
  have "unat ((next_seed ^^ Suc n) x)
      = (1103515245 * (unat x + geo n * (1103515244 * unat x + 1248345)) + 1248345) mod 2 ^ 32"
    unfolding funpow.simps o_apply unat_next_seed Suc by (rule affine_mod)
  also have "1103515245 * (unat x + geo n * (1103515244 * unat x + 1248345)) + 1248345
      = unat x + geo (Suc n) * (1103515244 * unat x + 1248345)"
    by (simp add: algebra_simps)
  finally show ?case .
qed

lemma seed_period: "(next_seed ^^ n) x = x \<longleftrightarrow> 2 ^ 32 dvd n"
proof -
  let ?c = "1103515244 * unat x + 1248345"
  have x: "unat x = unat x mod 2 ^ 32" using unat_u32_lt [of x] by simp
  have "(next_seed ^^ n) x = x \<longleftrightarrow> (unat x + geo n * ?c) mod 2 ^ 32 = unat x mod 2 ^ 32"
    using x by (simp add: word_unat_eq_iff unat_iter_seed del: power_numeral)
  also have "\<dots> \<longleftrightarrow> 2 ^ 32 dvd geo n * ?c"
    by (subst mod_eq_dvd_iff_nat) (simp_all only: le_add1 add_diff_cancel_left')
  also have "\<dots> \<longleftrightarrow> 2 ^ 32 dvd n" using pow2_dvd_odd [of ?c 32 "geo n"] pow2_dvd_geo [of 32 n] by simp
  finally show ?thesis .
qed

text \<open>Every seed is reached from every other one, exactly once in a period.\<close>

lemma seed_bij: "bij_betw (\<lambda>n. (next_seed ^^ n) x) {..<2 ^ 32} UNIV"
proof -
  let ?f = "\<lambda>n. (next_seed ^^ n) x"
  have eq: "m = n" if "m \<le> n" "n < 2 ^ 32" "?f m = ?f n" for m n
  proof -
    have "(next_seed ^^ (n - m)) (?f m) = (next_seed ^^ (n - m + m)) x"
      by (simp only: funpow_add o_apply)
    also have "\<dots> = ?f m" using that by simp
    finally have "(next_seed ^^ (n - m)) (?f m) = ?f m" .
    then have "2 ^ 32 dvd n - m" by (simp only: seed_period)
    with that show ?thesis by (auto dest: dvd_imp_le)
  qed
  have inj: "inj_on ?f {..<2 ^ 32}"
    by (rule linorder_inj_onI') (metis eq lessThan_iff less_imp_le nat_neq_iff)
  then have "card (?f ` {..<2 ^ 32}) = CARD(u32)" by (simp add: card_image card_word)
  then have "?f ` {..<2 ^ 32} = UNIV" by (intro card_eq_UNIV_imp_eq_UNIV) simp_all
  with inj show ?thesis by (simp only: bij_betw_def)
qed

lemma seed_reach: "\<exists>n < 2 ^ 32. (next_seed ^^ n) x = y"
proof -
  have "y \<in> (\<lambda>n. (next_seed ^^ n) x) ` {..<2 ^ 32}"
    using seed_bij [of x] by (simp only: bij_betw_def UNIV_I)
  then show ?thesis by (elim imageE) (auto simp only: lessThan_iff)
qed

section \<open>The draw\<close>

definition draw_class :: "u32 \<Rightarrow> priority_class" where
  "draw_class sd = ticket_class (unat sd div 65536 mod 32768 mod 12)"

lemma sorteio_eq:
  "sorteio_prioridade s = (draw_class (next_seed (seed s)), s\<lparr>seed := next_seed (seed s)\<rparr>)"
  by (simp add: sorteio_prioridade_def rand_lottery_def draw_class_def next_seed_def unat_div unat_mod Let_def)

lemma card_block_mod:
  assumes "d \<le> (b :: nat)"
  shows "card {u. m * b \<le> u \<and> u < m * b + d \<and> P (u mod b)} = card {r. r < d \<and> P r}"
proof -
  have "{u. m * b \<le> u \<and> u < m * b + d \<and> P (u mod b)} = (\<lambda>r. m * b + r) ` {r. r < d \<and> P r}"
  proof (intro equalityI subsetI)
    fix u assume u: "u \<in> {u. m * b \<le> u \<and> u < m * b + d \<and> P (u mod b)}"
    then have "u - m * b < b" using assms by auto
    moreover from u have "u = m * b + (u - m * b)" by simp
    ultimately have "u mod b = u - m * b" by (metis mod_less mod_mult_self3 mult.commute)
    with u show "u \<in> (\<lambda>r. m * b + r) ` {r. r < d \<and> P r}" by (intro image_eqI [of _ _ "u - m * b"]) auto
  qed (use assms in auto)
  then show ?thesis by (simp add: card_image)
qed

lemma card_split: "m \<le> n \<Longrightarrow> card {u. u < n \<and> P u} = card {u. u < m \<and> P u} + card {u. m \<le> u \<and> u < n \<and> P (u :: nat)}"
  by (subst card_Un_disjoint [symmetric]) (auto intro!: arg_cong [where f = card])

lemma card_mod:
  assumes "d \<le> b"
  shows "card {u. u < a * b + d \<and> P (u mod b)} = a * card {r. r < b \<and> P r} + card {r. r < d \<and> P r}"
proof -
  have full: "card {u. u < a * b \<and> P (u mod b)} = a * card {r. r < b \<and> P r}"
  proof (induction a)
    case (Suc a)
    have "card {u. u < Suc a * b \<and> P (u mod b)}
        = card {u. u < a * b \<and> P (u mod b)} + card {u. a * b \<le> u \<and> u < a * b + b \<and> P (u mod b)}"
      using card_split [of "a * b" "Suc a * b" "\<lambda>u. P (u mod b)"] by (simp add: add.commute)
    then show ?case using Suc card_block_mod [of b b a P] by simp
  qed simp
  show ?thesis
    using card_split [of "a * b" "a * b + d" "\<lambda>u. P (u mod b)"] full card_block_mod [OF assms, of a P]
    by simp
qed

lemma card_div: "card {v. v < a * b \<and> P (v div b)} = b * card {u. u < a \<and> P u}"
proof (induction a)
  case (Suc a)
  have "{v. a * b \<le> v \<and> v < a * b + b \<and> P (v div b)} = (if P a then {a * b..<a * b + b} else {})"
  proof -
    have "v div b = a" if "a * b \<le> v" "v < a * b + b" for v
      using that by (intro div_nat_eqI) (auto simp: algebra_simps)
    then show ?thesis by auto
  qed
  moreover have "{u. u < Suc a \<and> P u} = {u. u < a \<and> P u} \<union> (if P a then {a} else {})"
    by (auto simp: less_Suc_eq)
  ultimately show ?case
    using Suc card_split [of "a * b" "Suc a * b" "\<lambda>v. P (v div b)"] by (auto simp: add.commute card_insert_if)
qed simp

lemma card_unat: "card {y :: u32. Q (unat y)} = card {v. v < 4294967296 \<and> Q v}"
proof -
  have "unat ` {y :: u32. Q (unat y)} = {v. v < 4294967296 \<and> Q v}"
  proof (intro equalityI subsetI)
    fix v assume "v \<in> {v. v < 4294967296 \<and> Q v}"
    then show "v \<in> unat ` {y :: u32. Q (unat y)}"
      by (intro image_eqI [of _ _ "of_nat v"]) (simp_all add: unat_of_nat)
  qed auto
  moreover have "inj_on unat {y :: u32. Q (unat y)}"
    by (rule inj_onI) (simp add: word_unat_eq_iff)
  ultimately show ?thesis by (metis card_image)
qed

lemma draws_of_class:
  "card {y. draw_class y = c} = 131072 * (2730 * card {r. r < 12 \<and> ticket_class r = c}
     + card {r. r < 8 \<and> ticket_class r = c})"
proof -
  let ?P = "\<lambda>r. ticket_class (r mod 12) = c"
  have "card {y. draw_class y = c} = card {v. v < 65536 * 65536 \<and> ?P (v div 65536 mod 32768)}"
    unfolding draw_class_def using card_unat [of "\<lambda>v. ?P (v div 65536 mod 32768)"] by simp
  also have "\<dots> = 65536 * card {u. u < 65536 \<and> ?P (u mod 32768)}"
    using card_div [of 65536 65536 "\<lambda>u. ?P (u mod 32768)"] by simp
  also have "card {u. u < 65536 \<and> ?P (u mod 32768)} = 2 * card {w. w < 32768 \<and> ?P w}"
    using card_mod [of 0 32768 2 ?P] by simp
  also have "card {w. w < 32768 \<and> ?P w}
      = 2730 * card {r. r < 12 \<and> ticket_class r = c} + card {r. r < 8 \<and> ticket_class r = c}"
    using card_mod [of 8 12 2730 "\<lambda>r. ticket_class r = c"] by simp
  finally show ?thesis by simp
qed

text \<open>The state before draw number \<open>n\<close>.\<close>

definition after_draws :: "nat \<Rightarrow> 'a ptab_scheme \<Rightarrow> 'a ptab_scheme" where
  "after_draws n s = ((\<lambda>s. snd (sorteio_prioridade s)) ^^ n) s"

lemma after_draws_seed: "seed (after_draws n s) = (next_seed ^^ n) (seed s)"
  by (induction n) (simp_all add: after_draws_def sorteio_eq)

lemma ticket_counts:
  "card {r. r < 12 \<and> ticket_class r = c} =
     (case c of CLASS_0 \<Rightarrow> 6 | CLASS_1 \<Rightarrow> 3 | CLASS_2 \<Rightarrow> 2 | CLASS_3 \<Rightarrow> 1)"
  "card {r. r < 8 \<and> ticket_class r = c} =
     (case c of CLASS_0 \<Rightarrow> 6 | CLASS_1 \<Rightarrow> 2 | CLASS_2 \<Rightarrow> 0 | CLASS_3 \<Rightarrow> 0)"
proof -
  have "{r. r < 12 \<and> ticket_class r = c} =
      (case c of CLASS_0 \<Rightarrow> {0..<6} | CLASS_1 \<Rightarrow> {6..<9} | CLASS_2 \<Rightarrow> {9..<11} | CLASS_3 \<Rightarrow> {11..<12})"
    by (cases c) (auto simp: ticket_class_def split: if_splits)
  then show "card {r. r < 12 \<and> ticket_class r = c} =
      (case c of CLASS_0 \<Rightarrow> 6 | CLASS_1 \<Rightarrow> 3 | CLASS_2 \<Rightarrow> 2 | CLASS_3 \<Rightarrow> 1)"
    by (cases c) simp_all
  have "{r. r < 8 \<and> ticket_class r = c} =
      (case c of CLASS_0 \<Rightarrow> {0..<6} | CLASS_1 \<Rightarrow> {6..<8} | CLASS_2 \<Rightarrow> {} | CLASS_3 \<Rightarrow> {})"
    by (cases c) (auto simp: ticket_class_def split: if_splits)
  then show "card {r. r < 8 \<and> ticket_class r = c} =
      (case c of CLASS_0 \<Rightarrow> 6 | CLASS_1 \<Rightarrow> 2 | CLASS_2 \<Rightarrow> 0 | CLASS_3 \<Rightarrow> 0)"
    by (cases c) simp_all
qed

text \<open>C6. The lottery gives the classes their tickets.  Counted over one full period of the
  generator, that is \<open>2 ^ 32\<close> consecutive draws from any seed, class 0 is drawn
  \<open>131072 * 16386\<close> times, class 1 \<open>131072 * 8192\<close> times, class 2 \<open>131072 * 5460\<close> times
  and class 3 \<open>131072 * 2730\<close> times: 6, 3, 2 and 1 parts out of 12 up to the remainder of
  32768 by 12.\<close>

theorem lottery_shares:
  "card {n. n < 2 ^ 32 \<and> fst (sorteio_prioridade (after_draws n s)) = c} =
     131072 * (case c of CLASS_0 \<Rightarrow> 16386 | CLASS_1 \<Rightarrow> 8192 | CLASS_2 \<Rightarrow> 5460 | CLASS_3 \<Rightarrow> 2730)"
proof -
  let ?f = "\<lambda>n. (next_seed ^^ n) (next_seed (seed s))"
  have fst: "fst (sorteio_prioridade (after_draws n s)) = draw_class (?f n)" for n
    by (simp add: sorteio_eq after_draws_seed funpow_swap1)
  have "bij_betw ?f {n \<in> {..<2 ^ 32}. draw_class (?f n) = c} {y. draw_class y = c}"
    using seed_bij [of "next_seed (seed s)"] by (auto simp: bij_betw_def inj_on_def image_iff simp del: power_numeral)
  then have "card {n \<in> {..<2 ^ 32}. draw_class (?f n) = c} = card {y. draw_class y = c}"
    by (rule bij_betw_same_card)
  then show ?thesis
    unfolding fst draws_of_class ticket_counts by (cases c) (simp_all add: ticket_class_def)
qed

section \<open>The scan of one class\<close>

definition elig :: "priority_class \<Rightarrow> proc \<Rightarrow> bool" where
  "elig c p \<longleftrightarrow> state p = RUNNABLE \<and> classe p = of_nat (class_num c)"

definition rr_pick :: "(nat \<Rightarrow> proc) \<Rightarrow> priority_class \<Rightarrow> nat \<Rightarrow> nat option" where
  "rr_pick ps c start =
     map_option (\<lambda>i. (start + i) mod NPROC) (find (\<lambda>i. elig c (ps ((start + i) mod NPROC))) slots)"

definition picked :: "nat \<Rightarrow> 'a ptab_scheme \<Rightarrow> 'a ptab_scheme" where
  "picked idx s = set_cproc (Some idx) (set_proc idx (\<lambda>p. p\<lparr>state := RUNNING\<rparr>) (grab (LProc idx) s))"

lemma grab_settle: "grab l (settle s) = grab l s"
  by (simp add: grab_def settle_def)

lemma loteria_scan_find:
  assumes "scan_ok None s"
  shows "loteria_scan c start is s =
    (case find (\<lambda>i. elig c (procs s ((start + i) mod NPROC))) is of
       None \<Rightarrow> Ok (None, if is = [] then s else settle s)
     | Some i \<Rightarrow> Ok (Some ((start + i) mod NPROC), picked ((start + i) mod NPROC) s))"
  using assms
proof (induction "is" arbitrary: s)
  case (Cons i "is")
  let ?idx = "(start + i) mod 64"
  have l: "acquire (LProc ?idx) s = Ok (grab (LProc ?idx) s)"
    "release (LProc ?idx) (grab (LProc ?idx) s) = Ok (settle s)"
    using look [OF Cons.prems, of ?idx] by simp_all
  show ?case
  proof (cases "elig c (procs s ?idx)")
    case True
    then show ?thesis using l by (simp add: elig_def picked_def Let_def)
  next
    case False
    then have "loteria_scan c start (i # is) s = loteria_scan c start is (settle s)"
      using l by (auto simp: elig_def Let_def)
    then show ?thesis
      using Cons False by (auto simp: picked_def grab_settle split: option.splits)
  qed
qed simp

text \<open>The number of slots the round robin passes before it comes to \<open>j\<close>.\<close>

definition rr_dist :: "nat \<Rightarrow> nat \<Rightarrow> nat" where
  "rr_dist start j = (j + NPROC - start) mod NPROC"

lemma rr_dist_index:
  assumes "start < NPROC" and "i < NPROC"
  shows "rr_dist start ((start + i) mod NPROC) = i"
proof (cases "start + i < 64")
  case False
  then have "(start + i) mod 64 = start + i - 64" using assms by (simp add: mod_if)
  with False assms show ?thesis by (simp add: rr_dist_def)
qed (use assms in \<open>simp add: rr_dist_def\<close>)

lemma rr_dist_inv:
  assumes "start < NPROC" and "j < NPROC"
  shows "(start + rr_dist start j) mod NPROC = j" and "rr_dist start j < NPROC"
proof -
  have d: "rr_dist start j = (if start \<le> j then j - start else j + 64 - start)"
  proof (cases "start \<le> j")
    case True
    then have "j + 64 - start = (j - start) + 64" by linarith
    then have "rr_dist start j = (j - start) mod 64" by (simp only: rr_dist_def mod_add_self2)
    also have "\<dots> = j - start" using assms by (intro mod_less) linarith
    finally show ?thesis using True by (simp only: if_True)
  next
    case False
    then have "j + 64 - start < 64" by linarith
    then show ?thesis using False by (simp only: rr_dist_def mod_less if_False)
  qed
  show "(start + rr_dist start j) mod NPROC = j"
  proof (cases "start \<le> j")
    case False
    then have "start + rr_dist start j = j + 64" using d assms by simp
    then show ?thesis using assms by simp
  qed (use d assms in simp)
  show "rr_dist start j < NPROC" by (simp add: rr_dist_def)
qed

lemma rr_pick_None: "start < NPROC \<Longrightarrow> rr_pick ps c start = None \<longleftrightarrow> (\<forall>j < NPROC. \<not> elig c (ps j))"
  unfolding rr_pick_def
  by (auto simp: find_None_iff) (metis rr_dist_inv)

lemma rr_pick_Some:
  assumes "start < NPROC" and "rr_pick ps c start = Some idx"
  shows "idx < NPROC" and "elig c (ps idx)"
    and "\<And>j. j < NPROC \<Longrightarrow> elig c (ps j) \<Longrightarrow> rr_dist start idx \<le> rr_dist start j"
proof -
  obtain i where i: "i < 64" "elig c (ps ((start + i) mod 64))" "idx = (start + i) mod 64"
    and first: "\<And>k. k < i \<Longrightarrow> \<not> elig c (ps ((start + k) mod 64))"
    using assms(2) by (auto simp: rr_pick_def find_Some_iff slots_def simp del: upt_rec_numeral)
  show "idx < NPROC" "elig c (ps idx)" using i by auto
  show "rr_dist start idx \<le> rr_dist start j" if "j < NPROC" "elig c (ps j)" for j
  proof (rule ccontr)
    assume "\<not> rr_dist start idx \<le> rr_dist start j"
    then have "rr_dist start j < i" using rr_dist_index [OF assms(1) i(1)] i(3) by simp
    then show False using first [of "rr_dist start j"] rr_dist_inv [OF assms(1) that(1)] that(2) by simp
  qed
qed

section \<open>The abstract lottery\<close>

text \<open>
  Between turns only the seed and the round-robin positions change, so a turn is a function of
  them: it yields the class drawn and the process chosen.
\<close>

type_synonym lot = "u32 \<times> (nat \<Rightarrow> nat)"

definition lot_pick :: "(nat \<Rightarrow> proc) \<Rightarrow> lot \<Rightarrow> priority_class \<times> nat option" where
  "lot_pick ps \<sigma> = (let c = draw_class (next_seed (fst \<sigma>)) in (c, rr_pick ps c (snd \<sigma> (class_num c))))"

definition lot_next :: "(nat \<Rightarrow> proc) \<Rightarrow> lot \<Rightarrow> lot" where
  "lot_next ps \<sigma> = (next_seed (fst \<sigma>),
     case lot_pick ps \<sigma> of
       (c, None) \<Rightarrow> snd \<sigma>
     | (c, Some idx) \<Rightarrow> (snd \<sigma>)(class_num c := (idx + 1) mod NPROC))"

definition lot_of :: "'a ptab_scheme \<Rightarrow> lot" where
  "lot_of s = (seed s, last_index s)"

lemma scan_ok_seed [simp]: "scan_ok m (s\<lparr>seed := X\<rparr>) = scan_ok m s"
  and scan_ok_last_index [simp]: "scan_ok m (s\<lparr>last_index := Y\<rparr>) = scan_ok m s"
  by (simp_all add: scan_ok_def holding_def lock_free_def mach_defs)

lemma scan_ok_picked: "scan_ok None s \<Longrightarrow> idx < NPROC \<Longrightarrow> scan_ok (Some idx) (picked idx s)"
  using scan_ok_take [of s idx] by (simp add: picked_def scan_ok_def)

lemma picked_simps [simp]:
  "procs (picked idx s) = (procs s)(idx := (procs s idx)\<lparr>state := RUNNING\<rparr>)"
  "seed (picked idx s) = seed s" "last_index (picked idx s) = last_index s"
  "cproc (mycpu (picked idx s)) = Some idx"
  by (simp_all add: picked_def)

lemma same_rest_picked [simp]: "same_rest s (picked idx s)"
  by (simp add: picked_def same_rest_def)

lemma loteria_resume_ok:
  assumes "scan_ok (Some i) s"
  obtains t where "loteria_resume c i s = Ok t" and "scan_ok None t" and "same_rest s t"
    and "procs t = procs s" and "seed t = seed s"
    and "last_index t = (last_index s)(class_num c := (i + 1) mod NPROC)"
proof -
  let ?u = "set_cproc None s"
  have "scan_ok (Some i) ?u" using assms by (simp add: scan_ok_def)
  note d = scan_ok_drop [OF this]
  show thesis
    using d by (intro that [of "(ungrab (LProc i) ?u)\<lparr>last_index := (last_index s)(class_num c := (i + 1) mod NPROC)\<rparr>"])
      (simp_all add: loteria_resume_def same_rest_def)
qed

lemma lot_pick_bound:
  "lot_pick ps \<sigma> = (c, Some idx) \<Longrightarrow> idx < NPROC"
  by (auto simp: lot_pick_def rr_pick_def Let_def)

lemma loteria_pick_eq:
  assumes "scan_ok None s"
  shows "loteria_pick s = (case lot_pick (procs s) (lot_of s) of
       (c, None) \<Rightarrow> Ok (c, None, settle ((intr_on s)\<lparr>seed := next_seed (seed s)\<rparr>))
     | (c, Some idx) \<Rightarrow> Ok (c, Some idx, picked idx ((intr_on s)\<lparr>seed := next_seed (seed s)\<rparr>)))"
proof -
  let ?s = "(intr_on s)\<lparr>seed := next_seed (seed s)\<rparr>"
  have ok: "scan_ok None ?s" using scan_ok_intr_on [OF assms] by simp
  show ?thesis
    by (simp add: loteria_pick_def sorteio_eq loteria_scan_find [OF ok] lot_pick_def lot_of_def rr_pick_def
        Let_def split: option.splits)
qed

text \<open>Refinement: one turn of the loop is one step of the abstract lottery.\<close>

lemma loteria_turn_ok:
  assumes "scan_ok None s"
  obtains t where "scheduler_loteria_turn (quantum ie) s = Ok t" and "scan_ok None t"
    and "same_rest s t" and "procs t = procs s" and "lot_of t = lot_next (procs s) (lot_of s)"
proof -
  let ?s = "(intr_on s)\<lparr>seed := next_seed (seed s)\<rparr>"
  have ok: "scan_ok None ?s" using scan_ok_intr_on [OF assms] by simp
  have rest: "same_rest s ?s" by (simp add: same_rest_def)
  obtain c r where cr: "lot_pick (procs s) (lot_of s) = (c, r)" by fastforce
  show thesis
  proof (cases r)
    case None
    then show thesis
      using ok cr rest
      by (intro that [of "settle ?s"]) (simp_all add: scheduler_loteria_turn_def loteria_pick_eq [OF assms]
          lot_next_def lot_of_def same_rest_def)
  next
    case (Some idx)
    have idx: "idx < NPROC" using cr Some lot_pick_bound by blast
    obtain v where v: "quantum ie idx (picked idx ?s) = Ok v" "scan_ok (Some idx) v"
      "same_rest (picked idx ?s) v" "last_index v = last_index s" "seed v = next_seed (seed s)"
      "procs v = (procs s)(idx := (procs s idx)\<lparr>state := RUNNABLE\<rparr>)"
      by (rule quantum_ok [of idx "picked idx ?s" ie thesis])
        (use scan_ok_picked [OF ok idx] in \<open>simp_all add: that\<close>)
    obtain t where t: "loteria_resume c idx v = Ok t" "scan_ok None t" "same_rest v t"
      "procs t = procs v" "seed t = seed v" "last_index t = (last_index v)(class_num c := (idx + 1) mod NPROC)"
      using loteria_resume_ok [OF v(2)] by blast
    have "state (procs s idx) = RUNNABLE"
      using cr Some by (auto simp: lot_pick_def rr_pick_def elig_def find_Some_iff Let_def)
    then have "procs t = procs s" using v(6) t(4) by (simp add: fun_upd_idem)
    moreover have "same_rest s t"
      using rest same_rest_picked v(3) t(3) same_rest_trans by blast
    moreover have "scheduler_loteria_turn (quantum ie) s = Ok t"
      using v(1) t(1) cr Some by (simp add: scheduler_loteria_turn_def loteria_pick_eq [OF assms])
    moreover have "lot_of t = lot_next (procs s) (lot_of s)"
      using v t cr Some by (simp add: lot_next_def lot_of_def)
    ultimately show thesis using t(2) by (intro that)
  qed
qed

section \<open>Bounded waiting\<close>

lemma rr_dist_shift:
  assumes "start < NPROC" and "i < NPROC" and "idx < NPROC"
    and "rr_dist start idx < rr_dist start i"
  shows "rr_dist ((idx + 1) mod NPROC) i = rr_dist start i - rr_dist start idx - 1"
proof -
  let ?d = "rr_dist start idx" and ?e = "rr_dist start i"
  have idx: "idx = (start + ?d) mod 64" and i: "i = (start + ?e) mod 64" and e: "?e < 64"
    using rr_dist_inv assms by auto
  have "((idx + 1) mod 64 + (?e - ?d - 1)) mod 64 = (idx + (1 + (?e - ?d - 1))) mod 64"
    by (simp only: mod_add_left_eq add.assoc)
  also have "\<dots> = (start + ?d + (1 + (?e - ?d - 1))) mod 64"
    by (subst (1) idx) (simp only: mod_add_left_eq)
  also have "start + ?d + (1 + (?e - ?d - 1)) = start + ?e" using assms(4) by simp
  finally have "((idx + 1) mod 64 + (?e - ?d - 1)) mod 64 = i" using i by simp
  then show ?thesis using rr_dist_index [of "(idx + 1) mod 64" "?e - ?d - 1"] e by simp
qed

text \<open>The eligible processes that the round robin meets before \<open>j\<close>.\<close>

definition ahead :: "(nat \<Rightarrow> proc) \<Rightarrow> priority_class \<Rightarrow> nat \<Rightarrow> nat \<Rightarrow> nat set" where
  "ahead ps c start j = {i. i < NPROC \<and> elig c (ps i) \<and> rr_dist start i < rr_dist start j}"

lemma finite_ahead [simp]: "finite (ahead ps c start j)"
  by (simp add: ahead_def)

lemma rr_progress:
  assumes "start < NPROC" and "j < NPROC" and "elig c (ps j)"
    and "rr_pick ps c start = Some idx" and "idx \<noteq> j"
  shows "ahead ps c ((idx + 1) mod NPROC) j \<subset> ahead ps c start j"
proof -
  note idx = rr_pick_Some [OF assms(1,4)]
  have inj: "a = b" if "rr_dist start a = rr_dist start b" "a < 64" "b < 64" for a b
    using rr_dist_inv(1) [OF assms(1)] that by metis
  have lt: "rr_dist start idx < rr_dist start i" if "i < 64" "elig c (ps i)" "i \<noteq> idx" for i
    using idx(3) [OF that(1,2)] inj [of i idx] idx(1) that by (metis le_neq_implies_less)
  have j: "rr_dist ((idx + 1) mod 64) j = rr_dist start j - rr_dist start idx - 1"
    using rr_dist_shift [OF assms(1,2) idx(1)] lt [OF assms(2,3)] assms(5) by simp
  have "idx \<in> ahead ps c start j" using idx lt [OF assms(2,3)] assms(5) by (simp add: ahead_def)
  moreover have "idx \<notin> ahead ps c ((idx + 1) mod 64) j"
  proof -
    have "((idx + 1) mod 64 + 63) mod 64 = idx"
      using idx(1) by (simp add: mod_add_left_eq)
    then have "rr_dist ((idx + 1) mod 64) idx = 63" using rr_dist_index [of "(idx + 1) mod 64" 63] by simp
    moreover have "rr_dist ((idx + 1) mod 64) j < 64" by (simp add: rr_dist_def)
    ultimately show ?thesis by (simp add: ahead_def)
  qed
  moreover have "i \<in> ahead ps c start j" if "i \<in> ahead ps c ((idx + 1) mod 64) j" for i
  proof -
    have i: "i < 64" "elig c (ps i)" "i \<noteq> idx" using that \<open>idx \<notin> _\<close> by (auto simp: ahead_def)
    have "rr_dist ((idx + 1) mod 64) i = rr_dist start i - rr_dist start idx - 1"
      using rr_dist_shift [OF assms(1) i(1) idx(1)] lt [OF i] by simp
    with that j lt [OF i] i show ?thesis by (simp add: ahead_def)
  qed
  ultimately show ?thesis by blast
qed

section \<open>Every process of a valid class is chosen\<close>

lemma class_num_inject [simp]: "class_num c = class_num d \<longleftrightarrow> c = d"
  by (cases c; cases d) simp_all

lemma fst_lot_next: "fst (lot_next ps \<sigma>) = next_seed (fst \<sigma>)"
  by (simp add: lot_next_def)

lemma snd_lot_next:
  "snd (lot_next ps \<sigma>) = (case lot_pick ps \<sigma> of (c, None) \<Rightarrow> snd \<sigma>
     | (c, Some idx) \<Rightarrow> (snd \<sigma>)(class_num c := (idx + 1) mod NPROC))"
  by (simp add: lot_next_def)

lemma lot_next_seed: "fst ((lot_next ps ^^ n) \<sigma>) = (next_seed ^^ n) (fst \<sigma>)"
  by (induction n) (simp_all add: fst_lot_next)

lemma lot_next_bound:
  assumes "\<forall>c. snd \<sigma> (class_num c) < NPROC"
  shows "\<forall>c. snd ((lot_next ps ^^ n) \<sigma>) (class_num c) < NPROC"
  using assms by (induction n) (auto simp: snd_lot_next split: prod.splits option.splits)

lemma lot_next_other:
  assumes "\<And>k. k < n \<Longrightarrow> draw_class ((next_seed ^^ k) (next_seed (fst \<sigma>))) \<noteq> c"
  shows "snd ((lot_next ps ^^ n) \<sigma>) (class_num c) = snd \<sigma> (class_num c)"
  using assms
proof (induction n)
  case (Suc n)
  let ?\<tau> = "(lot_next ps ^^ n) \<sigma>"
  have "fst (lot_pick ps ?\<tau>) \<noteq> c"
    using Suc.prems [of n] by (simp add: lot_pick_def Let_def lot_next_seed funpow_swap1)
  moreover have "snd ?\<tau> (class_num c) = snd \<sigma> (class_num c)" using Suc by simp
  ultimately show ?case by (auto simp: snd_lot_next split: prod.splits option.splits)
qed simp

lemma draw_class_surj: "\<exists>y. draw_class y = c"
proof -
  have "draw_class 0 = CLASS_0" "draw_class 0x60000 = CLASS_1" "draw_class 0x90000 = CLASS_2"
    "draw_class 0xB0000 = CLASS_3"
    by (simp_all add: draw_class_def ticket_class_def)
  then show ?thesis by (cases c) blast+
qed

lemma lot_live:
  assumes j: "j < NPROC" "elig c (ps j)" and "\<forall>c. snd \<sigma> (class_num c) < NPROC"
  shows "\<exists>n < 2 ^ 32 * Suc (card (ahead ps c (snd \<sigma> (class_num c)) j)).
           lot_pick ps ((lot_next ps ^^ n) \<sigma>) = (c, Some j)"
  using assms(3)
proof (induction "card (ahead ps c (snd \<sigma> (class_num c)) j)" arbitrary: \<sigma> rule: less_induct)
  case less
  let ?start = "snd \<sigma> (class_num c)" and ?P = "\<lambda>k. draw_class ((next_seed ^^ k) (next_seed (fst \<sigma>))) = c"
  obtain y where "draw_class y = c" using draw_class_surj by blast
  then obtain k where k: "k < 2 ^ 32" "?P k" using seed_reach [of "next_seed (fst \<sigma>)" y] by metis
  define K where "K = (LEAST k. ?P k)"
  have K: "?P K" "K < 2 ^ 32" "\<And>k. k < K \<Longrightarrow> \<not> ?P k"
    using LeastI [of ?P k] Least_le [of ?P k] not_less_Least [of _ ?P] k unfolding K_def by auto
  let ?\<tau> = "(lot_next ps ^^ K) \<sigma>"
  have start: "snd ?\<tau> (class_num c) = ?start" using K(3) by (rule lot_next_other)
  have pick: "lot_pick ps ?\<tau> = (c, rr_pick ps c ?start)"
    using K(1) start by (simp add: lot_pick_def Let_def lot_next_seed funpow_swap1)
  obtain idx where idx: "rr_pick ps c ?start = Some idx"
    using rr_pick_None [of ?start ps c] less.prems j by (cases "rr_pick ps c ?start") auto
  show ?case
  proof (cases "idx = j")
    case True
    then show ?thesis using K(2) pick idx by (intro exI [of _ K]) auto
  next
    case False
    let ?\<rho> = "lot_next ps ?\<tau>"
    let ?A = "ahead ps c ?start j" and ?B = "ahead ps c (snd ?\<rho> (class_num c)) j"
    have "snd ?\<rho> (class_num c) = (idx + 1) mod 64" using pick idx by (simp add: snd_lot_next)
    then have less: "card ?B < card ?A"
      using rr_progress [OF _ j idx False] less.prems by (auto intro!: psubset_card_mono)
    moreover have "\<forall>c. snd ?\<rho> (class_num c) < 64" using lot_next_bound [OF less.prems, of "Suc K" ps] by simp
    ultimately obtain n where n: "n < 2 ^ 32 * Suc (card ?B)" "lot_pick ps ((lot_next ps ^^ n) ?\<rho>) = (c, Some j)"
      using less.hyps by blast
    have "(lot_next ps ^^ n) ?\<rho> = (lot_next ps ^^ (n + Suc K)) \<sigma>" by (simp only: funpow_add o_apply funpow.simps)
    moreover have "n + Suc K < 2 ^ 32 * Suc (card ?A)" using n(1) K(2) less by simp
    ultimately show ?thesis using n(2) by metis
  qed
qed

text \<open>The scheduler loop with a log of what every turn drew and chose.\<close>

primrec loteria_log ::
  "nat \<Rightarrow> bool \<Rightarrow> 'a ptab_scheme \<Rightarrow> ((priority_class \<times> nat option) list \<times> 'a ptab_scheme) res" where
  "loteria_log 0 ie s = Ok ([], s)"
| "loteria_log (Suc n) ie s =
     bindR (loteria_pick s) (\<lambda>(c, r, _).
     bindR (scheduler_loteria_turn (quantum ie) s) (\<lambda>s1.
     bindR (loteria_log n ie s1) (\<lambda>(log, t). Ok ((c, r) # log, t))))"

lemma map_upt_shift: "map f [0..<Suc n] = f 0 # map (\<lambda>k. f (Suc k)) [0..<n]"
  by (simp add: upt_conv_Cons map_Suc_upt [symmetric] comp_def del: upt_Suc)

lemma loteria_log_eq:
  assumes "scan_ok None s"
  shows "\<exists>t. loteria_log n ie s
      = Ok (map (\<lambda>k. lot_pick (procs s) ((lot_next (procs s) ^^ k) (lot_of s))) [0..<n], t)"
  using assms
proof (induction n arbitrary: s)
  case (Suc n)
  let ?ps = "procs s"
  obtain t where t: "scheduler_loteria_turn (quantum ie) s = Ok t" "scan_ok None t"
    "procs t = ?ps" "lot_of t = lot_next ?ps (lot_of s)"
    using loteria_turn_ok [OF Suc.prems, of ie] by metis
  obtain u where "loteria_log n ie t
      = Ok (map (\<lambda>k. lot_pick ?ps ((lot_next ?ps ^^ k) (lot_next ?ps (lot_of s)))) [0..<n], u)"
    using Suc.IH [OF t(2)] t(3,4) by metis
  moreover obtain c r v where "loteria_pick s = Ok (c, r, v)" "lot_pick ?ps (lot_of s) = (c, r)"
    using loteria_pick_eq [OF Suc.prems] by (auto split: prod.splits option.splits)
  ultimately show ?case using t(1) by (simp add: funpow_swap1 map_upt_shift del: upt_Suc)
qed simp

section \<open>Properties\<close>

text \<open>A table with a runnable process of class 1 in slot 2 and one of class 7 in slot 3.\<close>

definition class_demo :: ptab where
  "class_demo = (printfinit (init_ptab example_image (\<lambda>_. 0)))\<lparr>procs := (\<lambda>_. zero_proc)
     (2 := zero_proc\<lparr>state := RUNNABLE, pid := 1, classe := 1\<rparr>,
      3 := zero_proc\<lparr>state := RUNNABLE, pid := 2, classe := 7\<rparr>)\<rparr>"

lemma class_demo_ok:
  "scan_ok None class_demo" "last_index class_demo i = 0"
  "procs class_demo 2 = zero_proc\<lparr>state := RUNNABLE, pid := 1, classe := 1\<rparr>"
  "procs class_demo 3 = zero_proc\<lparr>state := RUNNABLE, pid := 2, classe := 7\<rparr>"
  "{i. i < 64 \<and> elig CLASS_1 (procs class_demo i)} = {2}"
  by (auto simp: class_demo_def scan_ok_def lock_free_def printfinit_def initlock_def init_ptab_def
      mach_defs zero_proc_def elig_def)

text \<open>C5. One turn of the lottery returns and draws a class; it chooses the first process, in
  round-robin order from the class's saved position, that is runnable and of that class, or none
  when there is none.  It marks that process running and leaves every other entry as it was; of
  all process locks exactly the chosen one is held at the switch.\<close>

theorem loteria_pick_first:
  assumes "scan_ok None s" and "\<forall>c. last_index s (class_num c) < NPROC"
  shows "\<exists>c r t. loteria_pick s = Ok (c, r, t) \<and> c = fst (sorteio_prioridade s) \<and>
    (case r of
       None \<Rightarrow> (\<forall>j < NPROC. \<not> (state (procs s j) = RUNNABLE \<and> classe (procs s j) = of_nat (class_num c))) \<and>
         procs t = procs s \<and> scan_ok None t
     | Some i \<Rightarrow> i < NPROC \<and> state (procs s i) = RUNNABLE \<and> classe (procs s i) = of_nat (class_num c) \<and>
         (\<forall>j < NPROC. state (procs s j) = RUNNABLE \<and> classe (procs s j) = of_nat (class_num c) \<longrightarrow>
            rr_dist (last_index s (class_num c)) i \<le> rr_dist (last_index s (class_num c)) j) \<and>
         procs t = (procs s)(i := (procs s i)\<lparr>state := RUNNING\<rparr>) \<and>
         cproc (mycpu t) = Some i \<and> noff (mycpu t) = 1 \<and> \<not> intr_get t \<and>
         holding (LProc i) t \<and> (\<forall>j < NPROC. j \<noteq> i \<longrightarrow> lock_free (LProc j) t))"
proof -
  let ?c = "draw_class (next_seed (seed s))" and ?s = "(intr_on s)\<lparr>seed := next_seed (seed s)\<rparr>"
  let ?r = "rr_pick (procs s) ?c (last_index s (class_num ?c))"
  have ok: "scan_ok None ?s" using scan_ok_intr_on [OF assms(1)] by simp
  have start: "last_index s (class_num ?c) < NPROC" using assms(2) by blast
  have pick: "loteria_pick s = (case ?r of None \<Rightarrow> Ok (?c, None, settle ?s)
      | Some idx \<Rightarrow> Ok (?c, Some idx, picked idx ?s))"
    by (simp add: loteria_pick_eq [OF assms(1)] lot_pick_def lot_of_def Let_def)
  show ?thesis
  proof (cases ?r)
    case None
    with pick ok rr_pick_None [OF start] show ?thesis by (simp add: sorteio_eq elig_def)
  next
    case (Some i)
    note r = rr_pick_Some [OF start Some]
    have "scan_ok (Some i) (picked i ?s)" using ok r(1) by (rule scan_ok_picked)
    with pick Some r show ?thesis by (auto simp: sorteio_eq elig_def scan_ok_def)
  qed
qed

theorem loteria_pick_first_witness:
  "\<exists>c r t. loteria_pick class_demo = Ok (c, r, t) \<and> c = fst (sorteio_prioridade class_demo)"
  using loteria_pick_first [OF class_demo_ok(1)] by (auto simp: class_demo_ok(2))

text \<open>C2. No starvation in the lottery.  A runnable process of one of the four classes is chosen
  within \<open>2 ^ 32\<close> turns for every runnable process of its class: the generator reaches every
  seed, so the class is drawn again and again, and the round robin serves its members in turn.\<close>

theorem lottery_no_starvation:
  assumes "scan_ok None s" and "\<forall>c. last_index s (class_num c) < NPROC"
    and "j < NPROC" and "state (procs s j) = RUNNABLE" and "classe (procs s j) = of_nat (class_num c)"
  shows "\<exists>log t. loteria_log (2 ^ 32 * card {i. i < NPROC \<and> elig c (procs s i)}) ie s = Ok (log, t) \<and>
    (c, Some j) \<in> set log"
proof -
  let ?E = "{i. i < 64 \<and> elig c (procs s i)}" and ?start = "last_index s (class_num c)"
  have j: "elig c (procs s j)" using assms(4,5) by (simp add: elig_def)
  have "ahead (procs s) c ?start j \<subset> ?E" using j assms(3) by (auto simp: ahead_def)
  then have "Suc (card (ahead (procs s) c ?start j)) \<le> card ?E" by (simp add: psubset_card_mono Suc_leI)
  then have le: "2 ^ 32 * Suc (card (ahead (procs s) c ?start j)) \<le> 2 ^ 32 * card ?E"
    by (rule mult_le_mono2)
  obtain n where n: "n < 2 ^ 32 * Suc (card (ahead (procs s) c ?start j))"
    "lot_pick (procs s) ((lot_next (procs s) ^^ n) (lot_of s)) = (c, Some j)"
    using lot_live [of j c "procs s" "lot_of s"] assms(2,3) j by (auto simp: lot_of_def)
  have "n \<in> set [0..<2 ^ 32 * card ?E]" unfolding set_upt using less_le_trans [OF n(1) le] by simp
  then have "(c, Some j) \<in> set (map (\<lambda>k. lot_pick (procs s) ((lot_next (procs s) ^^ k) (lot_of s)))
      [0..<2 ^ 32 * card ?E])"
    unfolding set_map n(2) [symmetric] by (rule imageI)
  moreover obtain t where "loteria_log (2 ^ 32 * card ?E) ie s
      = Ok (map (\<lambda>k. lot_pick (procs s) ((lot_next (procs s) ^^ k) (lot_of s))) [0..<2 ^ 32 * card ?E], t)"
    using loteria_log_eq [OF assms(1), of "2 ^ 32 * card ?E" ie] by blast
  ultimately show ?thesis by (intro exI conjI)
qed

theorem lottery_no_starvation_witness:
  "\<exists>log t. loteria_log (2 ^ 32) True class_demo = Ok (log, t) \<and> (CLASS_1, Some 2) \<in> set log"
proof -
  have "2 ^ 32 * card {i. i < NPROC \<and> elig CLASS_1 (procs class_demo i)} = (2 ^ 32 :: nat)"
    unfolding class_demo_ok(5) by simp
  moreover have "state (procs class_demo 2) = RUNNABLE" "classe (procs class_demo 2) = of_nat (class_num CLASS_1)"
    by (simp_all add: class_demo_ok(3))
  ultimately show ?thesis
    using lottery_no_starvation [OF class_demo_ok(1), of 2 CLASS_1 True] unfolding class_demo_ok(2)
    by (simp only: simp_thms zero_less_numeral rel_simps)
qed

text \<open>C8. A process whose class is none of 0 to 3 is never chosen by the lottery, in any number of
  turns, although it is runnable: \<open>fork\<close> and \<open>forkprio\<close> accept any class number.\<close>

theorem lottery_bad_class_starves:
  assumes "scan_ok None s" and "classe (procs s j) \<notin> {0, 1, 2, 3}"
  shows "\<exists>log t. loteria_log n ie s = Ok (log, t) \<and> (\<forall>c. (c, Some j) \<notin> set log)"
proof -
  have "lot_pick (procs s) \<sigma> \<noteq> (c, Some j)" for \<sigma> c
  proof
    assume "lot_pick (procs s) \<sigma> = (c, Some j)"
    then have "elig c (procs s j)" by (auto simp: lot_pick_def rr_pick_def find_Some_iff Let_def)
    then show False using assms(2) by (cases c) (auto simp: elig_def)
  qed
  then have "(c, Some j) \<notin> set (map (\<lambda>k. lot_pick (procs s) ((lot_next (procs s) ^^ k) (lot_of s))) [0..<n])" for c
    unfolding set_map by (metis imageE)
  then show ?thesis using loteria_log_eq [OF assms(1), of n ie] by blast
qed

theorem lottery_bad_class_starves_witness:
  "\<exists>log t. loteria_log 1000 True class_demo = Ok (log, t) \<and> (\<forall>c. (c, Some 3) \<notin> set log)"
  using lottery_bad_class_starves [OF class_demo_ok(1), of 3 1000 True]
  by (simp add: class_demo_ok(4) zero_proc_def)

end
