(* ===== verification/Sleeplock.thy ===== *)
theory Sleeplock
  imports Proctab
begin

text \<open>
  \<open>kernel/sleeplock.c\<close>.  A thread that finds the lock taken goes to sleep until another thread
  releases it; in the sequential model that outcome is \<open>Spin\<close>, as for a spin lock.
\<close>

record sleeplock =
  slname :: string
  slocked :: bool
  slpid :: i32

record slk = ptab +
  slocks :: "sleepid \<Rightarrow> sleeplock"

definition set_slock :: "sleepid \<Rightarrow> (sleeplock \<Rightarrow> sleeplock) \<Rightarrow> 'a slk_scheme \<Rightarrow> 'a slk_scheme" where
  "set_slock k f s = s\<lparr>slocks := (slocks s)(k := f (slocks s k))\<rparr>"

definition initsleeplock :: "sleepid \<Rightarrow> string \<Rightarrow> 'a slk_scheme \<Rightarrow> 'a slk_scheme" where
  "initsleeplock k nm s =
     set_slock k (\<lambda>_. \<lparr>slname = nm, slocked = False, slpid = 0\<rparr>) (initlock (LSleep k) ''sleep lock'' s)"

text \<open>Where the lock is taken the code sleeps in a loop until the owner has released it.  That takes other threads,
  so the thread by itself gives \<open>Spin\<close>.\<close>

definition acquiresleep :: "sleepid \<Rightarrow> 'a slk_scheme \<Rightarrow> 'a slk_scheme res" where
  "acquiresleep k s =
     bindR (acquire (LSleep k) s) (\<lambda>s.
       if slocked (slocks s k) then Spin
       else let s = set_slock k (\<lambda>x. x\<lparr>slocked := True\<rparr>) s
            in bindR (curproc s) (\<lambda>(p, s).
               release (LSleep k) (set_slock k (\<lambda>x. x\<lparr>slpid := pid (procs s p)\<rparr>) s)))"

definition releasesleep :: "sleepid \<Rightarrow> 'a slk_scheme \<Rightarrow> 'a slk_scheme res" where
  "releasesleep k s =
     bindR (acquire (LSleep k) s) (\<lambda>s.
     bindR (wakeup (ChSleep k) (set_slock k (\<lambda>x. x\<lparr>slocked := False, slpid := 0\<rparr>) s))
       (release (LSleep k)))"

definition holdingsleep :: "sleepid \<Rightarrow> 'a slk_scheme \<Rightarrow> (bool \<times> 'a slk_scheme) res" where
  "holdingsleep k s =
     bindR (acquire (LSleep k) s) (\<lambda>s.
     bindR (if slocked (slocks s k)
            then bindR (curproc s) (\<lambda>(p, s). Ok (slpid (slocks s k) = pid (procs s p), s))
            else Ok (False, s)) (\<lambda>(r, s).
     bindR (release (LSleep k) s) (\<lambda>s. Ok (r, s))))"

section \<open>The operations of a process that runs alone\<close>

lemma slk_frame [simp]:
  "slocks (settle s) = slocks s" "slocks (grab l s) = slocks s"
  "same_mach u (s\<lparr>slocks := X\<rparr>) = same_mach u s" "same_mach u (s\<lparr>procs := Y\<rparr>) = same_mach u s"
  "same_mach u u"
  "settle (s\<lparr>slocks := X\<rparr>) = (settle s)\<lparr>slocks := X\<rparr>" "calm p (s\<lparr>slocks := X\<rparr>) = calm p s"
  "calm p (s\<lparr>procs := Y\<rparr>) = calm p s" "lock_free l (s\<lparr>slocks := X\<rparr>) = lock_free l s"
  "at_mach u (s\<lparr>slocks := X\<rparr>) = (at_mach u s)\<lparr>slocks := X\<rparr>"
  "at_mach u (s\<lparr>procs := Y\<rparr>) = (at_mach u s)\<lparr>procs := Y\<rparr>"
  by (simp_all add: settle_def grab_def same_mach_def calm_def cpu_ok_def lock_free_def at_mach_def mach_defs)

lemma acquiresleep_eq:
  assumes "calm p s" and "lock_free (LSleep k) s" and "\<not> slocked (slocks s k)"
  shows "acquiresleep k s = Ok ((settle s)\<lparr>slocks := (slocks s)(k := (slocks s k)
           \<lparr>slocked := True, slpid := pid (procs s p)\<rparr>)\<rparr>)"
  using assms calm_grab [OF assms(1), of "LSleep k"]
  by (simp add: acquiresleep_def acquire_free set_slock_def curproc_calm release_section [OF calmD(1) [OF assms(1)] assms(2)]
      settle_grab [OF calmD(1) [OF assms(1)]] at_mach_grab)

lemma acquiresleep_taken:
  assumes "lock_free (LSleep k) s" and "slocked (slocks s k)"
  shows "acquiresleep k s = Spin"
  using assms by (simp add: acquiresleep_def acquire_free)

lemma releasesleep_eq:
  assumes "calm p s" and "lock_free (LSleep k) s"
  shows "releasesleep k s = Ok ((settle s)\<lparr>slocks := (slocks s)(k := (slocks s k)\<lparr>slocked := False, slpid := 0\<rparr>),
           procs := woken p (ChSleep k) (procs s)\<rparr>)"
  using assms calm_grab [OF assms(1), of "LSleep k"]
  by (simp add: releasesleep_def acquire_free set_slock_def wakeup_calm release_section [OF calmD(1) [OF assms(1)] assms(2)]
      settle_grab [OF calmD(1) [OF assms(1)]] at_mach_grab)

lemma holdingsleep_eq:
  assumes "calm p s" and "lock_free (LSleep k) s"
  shows "holdingsleep k s = Ok (slocked (slocks s k) \<and> slpid (slocks s k) = pid (procs s p), settle s)"
  using assms calm_grab [OF assms(1), of "LSleep k"]
  by (simp add: holdingsleep_def acquire_free curproc_calm release_section [OF calmD(1) [OF assms(1)] assms(2)]
      settle_grab [OF calmD(1) [OF assms(1)]] at_mach_grab)

end
