(* ===== verification/Virtio.thy ===== *)
theory Virtio
  imports Sleeplock
begin

text \<open>
  \<open>kernel/virtio_disk.c\<close> with the buffer header of \<open>kernel/buf.h\<close>.  The memory that the disk
  device reads and writes by DMA is the record \<open>vq\<close>: descriptors, rings, request headers, status
  bytes, the data of the buffers, and the medium itself.  The device is the field \<open>vdev\<close>, an
  arbitrary function on that memory; \<open>vdev_ok\<close> states the documented behaviour that the driver
  relies on.  Addresses in descriptors are symbolic.
\<close>

section \<open>Memory shared with the device\<close>

abbreviation (input) NUM :: nat where "NUM \<equiv> 8"
abbreviation (input) BSIZE :: nat where "BSIZE \<equiv> 1024"
abbreviation (input) VRING_DESC_F_NEXT :: u16 where "VRING_DESC_F_NEXT \<equiv> 1"
abbreviation (input) VRING_DESC_F_WRITE :: u16 where "VRING_DESC_F_WRITE \<equiv> 2"
abbreviation (input) VIRTIO_BLK_T_IN :: u32 where "VIRTIO_BLK_T_IN \<equiv> 0"
abbreviation (input) VIRTIO_BLK_T_OUT :: u32 where "VIRTIO_BLK_T_OUT \<equiv> 1"

datatype dma = DNull | DReq nat | DBuf nat | DStatus nat

record virtq_desc =
  daddr :: dma
  dlen :: u32
  dflags :: u16
  dnext :: u16

record virtio_blk_req =
  vtype :: u32
  vreserved :: u32
  vsector :: u64

record vq =
  vdesc :: "nat \<Rightarrow> virtq_desc"
  avail_idx :: u16
  avail_ring :: "nat \<Rightarrow> nat"
  ring_used_idx :: u16
  ring_used :: "nat \<Rightarrow> nat"
  vops :: "nat \<Rightarrow> virtio_blk_req"
  vstatus :: "nat \<Rightarrow> u8"
  vdata :: "nat \<Rightarrow> u8 list"
  medium :: "u64 \<Rightarrow> u8"

record buf =
  bvalid :: bool
  bdisk :: bool
  bdev :: u32
  blockno :: u32
  refcnt :: u32
  bprev :: nat
  bnext :: nat

record vdisk = slk +
  bufs :: "nat \<Rightarrow> buf"
  vqueue :: vq
  vfree :: "nat \<Rightarrow> bool"
  used_idx :: u16
  vinfo :: "nat \<Rightarrow> nat option"
  vdev :: "vq \<Rightarrow> vq"
  mmio :: "(string \<times> u32) list"

definition set_buf :: "nat \<Rightarrow> (buf \<Rightarrow> buf) \<Rightarrow> 'a vdisk_scheme \<Rightarrow> 'a vdisk_scheme" where
  "set_buf b f s = s\<lparr>bufs := (bufs s)(b := f (bufs s b))\<rparr>"

definition set_desc :: "nat \<Rightarrow> (virtq_desc \<Rightarrow> virtq_desc) \<Rightarrow> 'a vdisk_scheme \<Rightarrow> 'a vdisk_scheme" where
  "set_desc i f s = s\<lparr>vqueue := (vqueue s)\<lparr>vdesc := (vdesc (vqueue s))(i := f (vdesc (vqueue s) i))\<rparr>\<rparr>"

text \<open>\<open>b->data\<close>.\<close>

definition bdata :: "'a vdisk_scheme \<Rightarrow> nat \<Rightarrow> u8 list" where
  "bdata s b = vdata (vqueue s) b"

definition set_bdata :: "nat \<Rightarrow> u8 list \<Rightarrow> 'a vdisk_scheme \<Rightarrow> 'a vdisk_scheme" where
  "set_bdata b d s = s\<lparr>vqueue := (vqueue s)\<lparr>vdata := (vdata (vqueue s))(b := d)\<rparr>\<rparr>"

section \<open>Initialisation\<close>

text \<open>
  \<open>rg r\<close> is what the device answers when register \<open>r\<close> is read; every register is read once.
  Writes to device registers are logged in \<open>mmio\<close>.
\<close>

definition wreg :: "string \<Rightarrow> u32 \<Rightarrow> 'a vdisk_scheme \<Rightarrow> 'a vdisk_scheme" where
  "wreg r v s = s\<lparr>mmio := mmio s @ [(r, v)]\<rparr>"

definition virtio_features :: "u32 \<Rightarrow> u32" where
  "virtio_features f =
     f AND NOT (push_bit 5 1) AND NOT (push_bit 7 1) AND NOT (push_bit 11 1) AND NOT (push_bit 12 1)
       AND NOT (push_bit 27 1) AND NOT (push_bit 29 1) AND NOT (push_bit 28 1)"

definition virtio_disk_init :: "(string \<Rightarrow> u32) \<Rightarrow> 'a vdisk_scheme \<Rightarrow> 'a vdisk_scheme res" where
  "virtio_disk_init rg s =
     (let s = initlock LDisk ''virtio_disk'' s
      in if rg ''MAGIC_VALUE'' \<noteq> 0x74726976 \<or> rg ''VERSION'' \<noteq> 2 \<or> rg ''DEVICE_ID'' \<noteq> 2
            \<or> rg ''VENDOR_ID'' \<noteq> 0x554d4551
         then Panic ''could not find virtio disk''
         else let s = wreg ''STATUS'' 0 s;
                  s = wreg ''STATUS'' 1 s;
                  s = wreg ''STATUS'' (1 OR 2) s;
                  s = wreg ''DRIVER_FEATURES'' (virtio_features (rg ''DEVICE_FEATURES'')) s;
                  s = wreg ''STATUS'' (1 OR 2 OR 8) s;
                  status = rg ''STATUS''
              in if status AND 8 = 0 then Panic ''virtio disk FEATURES_OK unset''
                 else let s = wreg ''QUEUE_SEL'' 0 s
                      in if rg ''QUEUE_READY'' \<noteq> 0 then Panic ''virtio disk should not be ready''
                         else if rg ''QUEUE_NUM_MAX'' = 0 then Panic ''virtio disk has no queue 0''
                         else if rg ''QUEUE_NUM_MAX'' < 8 then Panic ''virtio disk max queue too short''
                         else bindR (kalloc s) (\<lambda>(desc, s).
                              bindR (kalloc s) (\<lambda>(avail, s).
                              bindR (kalloc s) (\<lambda>(used, s).
                              if desc = 0 \<or> avail = 0 \<or> used = 0 then Panic ''virtio disk kalloc''
                              else let s = s\<lparr>mem := memset used 0 4096 (memset avail 0 4096
                                             (memset desc 0 4096 (mem s))),
                                             vqueue := (vqueue s)\<lparr>vdesc := (\<lambda>_. \<lparr>daddr = DNull, dlen = 0,
                                               dflags = 0, dnext = 0\<rparr>), avail_idx := 0, avail_ring := (\<lambda>_. 0),
                                               ring_used_idx := 0, ring_used := (\<lambda>_. 0)\<rparr>\<rparr>;
                                       s = wreg ''QUEUE_NUM'' 8 s;
                                       s = wreg ''QUEUE_DESC_LOW'' (ucast desc) s;
                                       s = wreg ''QUEUE_DESC_HIGH'' (ucast (drop_bit 32 desc)) s;
                                       s = wreg ''DRIVER_DESC_LOW'' (ucast avail) s;
                                       s = wreg ''DRIVER_DESC_HIGH'' (ucast (drop_bit 32 avail)) s;
                                       s = wreg ''DEVICE_DESC_LOW'' (ucast used) s;
                                       s = wreg ''DEVICE_DESC_HIGH'' (ucast (drop_bit 32 used)) s;
                                       s = wreg ''QUEUE_READY'' 1 s;
                                       s = s\<lparr>vfree := (\<lambda>i. i < NUM \<or> vfree s i)\<rparr>
                                   in Ok (wreg ''STATUS'' (status OR 4) s)))))"

section \<open>Descriptors\<close>

fun alloc_desc_from :: "nat list \<Rightarrow> 'a vdisk_scheme \<Rightarrow> nat option \<times> 'a vdisk_scheme" where
  "alloc_desc_from [] s = (None, s)"
| "alloc_desc_from (i # is) s =
     (if vfree s i then (Some i, s\<lparr>vfree := (vfree s)(i := False)\<rparr>) else alloc_desc_from is s)"

definition alloc_desc :: "'a vdisk_scheme \<Rightarrow> nat option \<times> 'a vdisk_scheme" where
  "alloc_desc = alloc_desc_from [0..<NUM]"

definition free_desc :: "nat \<Rightarrow> 'a vdisk_scheme \<Rightarrow> 'a vdisk_scheme res" where
  "free_desc i s =
     (if i \<ge> NUM then Panic ''free_desc 1''
      else if vfree s i then Panic ''free_desc 2''
      else let s = set_desc i (\<lambda>_. \<lparr>daddr = DNull, dlen = 0, dflags = 0, dnext = 0\<rparr>) s
           in wakeup ChDiskFree (s\<lparr>vfree := (vfree s)(i := True)\<rparr>))"

text \<open>
  The chain is followed until a descriptor without the next flag; freeing a descriptor twice
  panics, so the loop ends.
\<close>

lemma wakeup_more:
  assumes "wakeup ch s = Ok t"
  shows "ptab.more t = ptab.more s"
proof -
  have one: "ptab.more t = ptab.more s" if "wakeup_one ch i s = Ok t" for i and s t :: "'a ptab_scheme"
    using that
    by (auto simp: wakeup_one_def myproc_def acquire_def release_def push_off_def pop_off_def set_proc_def
        mach_defs Let_def split: if_splits elim!: bindR_OkE)
  show ?thesis
    using assms unfolding wakeup_def
    by (rule foldR_inv [where P = "\<lambda>t. ptab.more t = ptab.more s"]) (auto dest: one)
qed

lemma wakeup_vdisk:
  assumes "wakeup ch s = Ok t"
  shows "bufs t = bufs s" "vqueue t = vqueue s" "vfree t = vfree s" "used_idx t = used_idx s"
    "vinfo t = vinfo s" "vdev t = vdev s" "slocks t = slocks s"
  using wakeup_more [OF assms] by (cases s; cases t; simp)+

lemma free_desc_OkD:
  "free_desc i s = Ok t \<Longrightarrow> i < NUM \<and> \<not> vfree s i \<and> vfree t = (vfree s)(i := True)"
  by (auto simp: free_desc_def set_desc_def Let_def split: if_splits dest!: wakeup_vdisk(3))

function free_chain :: "nat \<Rightarrow> 'a vdisk_scheme \<Rightarrow> 'a vdisk_scheme res" where
  "free_chain i s =
     (let flag = dflags (vdesc (vqueue s) i);
          nxt = unat (dnext (vdesc (vqueue s) i))
      in bindR (free_desc i s) (\<lambda>s.
         if flag AND VRING_DESC_F_NEXT \<noteq> 0 then free_chain nxt s else Ok s))"
  by pat_completeness auto
termination
proof (relation "measure (\<lambda>(i, s). card {j. j < NUM \<and> \<not> vfree s j})")
  fix i and s t :: "'a vdisk_scheme" and nxt :: nat
  assume "free_desc i s = Ok t"
  then have "{j. j < NUM \<and> \<not> vfree t j} = {j. j < NUM \<and> \<not> vfree s j} - {i}"
    and "i \<in> {j. j < NUM \<and> \<not> vfree s j}" by (auto dest!: free_desc_OkD split: if_splits)
  then show "((nxt, t), i, s) \<in> measure (\<lambda>(i, s). card {j. j < NUM \<and> \<not> vfree s j})"
    unfolding in_measure prod.case by (simp only:) (rule card_Diff1_less, simp)
qed simp

declare free_chain.simps [simp del]

definition alloc3_desc :: "'a vdisk_scheme \<Rightarrow> ((nat \<times> nat \<times> nat) option \<times> 'a vdisk_scheme) res" where
  "alloc3_desc s =
     (case alloc_desc s of
        (None, s) \<Rightarrow> Ok (None, s)
      | (Some a, s) \<Rightarrow>
          (case alloc_desc s of
             (None, s) \<Rightarrow> bindR (free_desc a s) (\<lambda>s. Ok (None, s))
           | (Some b, s) \<Rightarrow>
               (case alloc_desc s of
                  (None, s) \<Rightarrow> bindR (free_desc a s) (\<lambda>s. bindR (free_desc b s) (\<lambda>s. Ok (None, s)))
                | (Some c, s) \<Rightarrow> Ok (Some (a, b, c), s))))"

section \<open>A transfer\<close>

text \<open>The request and the three descriptors of its chain.\<close>

definition format_req :: "nat \<Rightarrow> bool \<Rightarrow> nat \<Rightarrow> nat \<Rightarrow> nat \<Rightarrow> 'a vdisk_scheme \<Rightarrow> 'a vdisk_scheme" where
  "format_req b wr i0 i1 i2 s =
     (let sector = ucast (blockno (bufs s b) * 2);
          s = s\<lparr>vqueue := (vqueue s)\<lparr>vops := (vops (vqueue s))
                 (i0 := \<lparr>vtype = (if wr then VIRTIO_BLK_T_OUT else VIRTIO_BLK_T_IN),
                        vreserved = 0, vsector = sector\<rparr>)\<rparr>\<rparr>;
          s = set_desc i0 (\<lambda>_. \<lparr>daddr = DReq i0, dlen = 16, dflags = VRING_DESC_F_NEXT, dnext = of_nat i1\<rparr>) s;
          s = set_desc i1 (\<lambda>_. \<lparr>daddr = DBuf b, dlen = 1024,
                 dflags = (if wr then 0 else VRING_DESC_F_WRITE) OR VRING_DESC_F_NEXT, dnext = of_nat i2\<rparr>) s;
          s = s\<lparr>vqueue := (vqueue s)\<lparr>vstatus := (vstatus (vqueue s))(i0 := 0xff)\<rparr>\<rparr>
      in set_desc i2 (\<lambda>_. \<lparr>daddr = DStatus i0, dlen = 1, dflags = VRING_DESC_F_WRITE, dnext = 0\<rparr>) s)"

definition submit :: "nat \<Rightarrow> nat \<Rightarrow> 'a vdisk_scheme \<Rightarrow> 'a vdisk_scheme" where
  "submit b i0 s =
     (let s = set_buf b (\<lambda>x. x\<lparr>bdisk := True\<rparr>) s;
          s = s\<lparr>vinfo := (vinfo s)(i0 := Some b)\<rparr>;
          q = vqueue s;
          q = q\<lparr>avail_ring := (avail_ring q)(unat (avail_idx q) mod NUM := i0)\<rparr>
      in wreg ''QUEUE_NOTIFY'' 0 (s\<lparr>vqueue := q\<lparr>avail_idx := avail_idx q + 1\<rparr>\<rparr>))"

function intr_loop :: "'a vdisk_scheme \<Rightarrow> 'a vdisk_scheme res" where
  "intr_loop s =
     (if used_idx s = ring_used_idx (vqueue s) then Ok s
      else let id = ring_used (vqueue s) (unat (used_idx s) mod NUM)
           in if id \<ge> NUM then Undef
              else if vstatus (vqueue s) id \<noteq> 0 then Panic ''virtio_disk_intr status''
              else (case vinfo s id of
                      None \<Rightarrow> Undef
                    | Some b \<Rightarrow> bindR (wakeup (ChBuf b) (set_buf b (\<lambda>x. x\<lparr>bdisk := False\<rparr>) s)) (\<lambda>s.
                        intr_loop (s\<lparr>used_idx := used_idx s + 1\<rparr>))))"
  by pat_completeness auto
termination
proof (relation "measure (\<lambda>s. unat (ring_used_idx (vqueue s) - used_idx s))")
  fix s t :: "'a vdisk_scheme" and id b
  assume ne: "used_idx s \<noteq> ring_used_idx (vqueue s)"
    and t: "wakeup (ChBuf b) (set_buf b (\<lambda>x. x\<lparr>bdisk := False\<rparr>) s) = Ok t"
  let ?d = "ring_used_idx (vqueue s) - used_idx s"
  have "unat (?d - 1) = unat ?d - 1" using ne by (intro unat_minus_one) simp
  moreover have "0 < unat ?d" using ne by (simp add: unat_gt_0)
  moreover have "ring_used_idx (vqueue t) = ring_used_idx (vqueue s)" "used_idx t = used_idx s"
    using wakeup_vdisk [OF t] by (simp_all add: set_buf_def)
  then have "ring_used_idx (vqueue (t\<lparr>used_idx := used_idx t + 1\<rparr>)) - used_idx (t\<lparr>used_idx := used_idx t + 1\<rparr>) = ?d - 1"
    by (simp add: diff_diff_eq)
  ultimately show "(t\<lparr>used_idx := used_idx t + 1\<rparr>, s) \<in> measure (\<lambda>s. unat (ring_used_idx (vqueue s) - used_idx s))"
    by (simp only: in_measure)
qed simp

declare intr_loop.simps [simp del]

text \<open>Before the loop the code writes the register \<open>VIRTIO_MMIO_INTERRUPT_ACK\<close>, so that the device may raise the next
  interrupt.  The registers are not part of this state, and the write is left out.\<close>

definition virtio_disk_intr :: "'a vdisk_scheme \<Rightarrow> 'a vdisk_scheme res" where
  "virtio_disk_intr s = bindR (acquire LDisk s) (\<lambda>s. bindR (intr_loop s) (release LDisk))"

text \<open>
  \<open>sleep(b, &vdisk_lock)\<close> while the device owns the buffer: the lock is given up, the device
  works, its interrupt handler runs, and the lock is taken again.  The switch to other threads
  and back is not shown, and one round of the loop is: if the device has not finished, the thread goes on
  waiting, \<open>Spin\<close>.
\<close>

definition await_disk :: "nat \<Rightarrow> 'a vdisk_scheme \<Rightarrow> 'a vdisk_scheme res" where
  "await_disk b s =
     bindR (release LDisk s) (\<lambda>s.
     bindR (virtio_disk_intr (s\<lparr>vqueue := vdev s (vqueue s)\<rparr>)) (\<lambda>s.
     bindR (acquire LDisk s) (\<lambda>s. if bdisk (bufs s b) then Spin else Ok s)))"

definition virtio_disk_rw :: "nat \<Rightarrow> bool \<Rightarrow> 'a vdisk_scheme \<Rightarrow> 'a vdisk_scheme res" where
  "virtio_disk_rw b wr s =
     bindR (acquire LDisk s) (\<lambda>s.
     bindR (alloc3_desc s) (\<lambda>(idx, s).
       case idx of
         None \<Rightarrow> Spin
       | Some (i0, i1, i2) \<Rightarrow>
           bindR (await_disk b (submit b i0 (format_req b wr i0 i1 i2 s))) (\<lambda>s.
           bindR (free_chain i0 (s\<lparr>vinfo := (vinfo s)(i0 := None)\<rparr>)) (release LDisk))))"

section \<open>The device\<close>

text \<open>
  The block device of the virtio specification, serving the request whose chain starts at the last
  entry of the available ring: the second descriptor points to the data, the device copies between
  it and the medium, sets the status byte and appends the chain to the used ring.
\<close>

definition disk_addr :: "u32 \<Rightarrow> u64" where
  "disk_addr bno = 1024 * ucast bno"

definition disk_block :: "(u64 \<Rightarrow> u8) \<Rightarrow> u32 \<Rightarrow> u8 list" where
  "disk_block m bno = load_bytes m (disk_addr bno) BSIZE"

definition last_chain :: "vq \<Rightarrow> nat" where
  "last_chain q = avail_ring q (unat (avail_idx q - 1) mod NUM)"

definition serve :: "vq \<Rightarrow> vq" where
  "serve q =
     (let i = last_chain q;
          r = vops q i;
          a = 512 * vsector r
      in case daddr (vdesc q (unat (dnext (vdesc q i)))) of
           DBuf b \<Rightarrow>
             let q = (if vtype r = VIRTIO_BLK_T_OUT then q\<lparr>medium := store_bytes a (vdata q b) (medium q)\<rparr>
                      else q\<lparr>vdata := (vdata q)(b := load_bytes (medium q) a BSIZE)\<rparr>)
             in q\<lparr>vstatus := (vstatus q)(i := 0),
                  ring_used := (ring_used q)(unat (ring_used_idx q) mod NUM := i),
                  ring_used_idx := ring_used_idx q + 1\<rparr>
         | _ \<Rightarrow> q)"

text \<open>A well-formed request on a disk of \<open>cap\<close> blocks, the only one in the queue.\<close>

definition request :: "nat \<Rightarrow> vq \<Rightarrow> bool" where
  "request cap q \<longleftrightarrow>
     (let i = last_chain q; d0 = vdesc q i; j = unat (dnext d0); d1 = vdesc q j;
          k = unat (dnext d1); d2 = vdesc q k; r = vops q i
      in avail_idx q = ring_used_idx q + 1 \<and> i < NUM \<and> j < NUM \<and> k < NUM \<and>
         daddr d0 = DReq i \<and> dlen d0 = 16 \<and> dflags d0 = VRING_DESC_F_NEXT \<and>
         (\<exists>b. daddr d1 = DBuf b \<and> length (vdata q b) = BSIZE) \<and> dlen d1 = 1024 \<and>
         dflags d1 AND VRING_DESC_F_NEXT \<noteq> 0 \<and>
         daddr d2 = DStatus i \<and> dlen d2 = 1 \<and> dflags d2 = VRING_DESC_F_WRITE \<and>
         (vtype r = VIRTIO_BLK_T_IN \<and> dflags d1 AND VRING_DESC_F_WRITE \<noteq> 0 \<or>
          vtype r = VIRTIO_BLK_T_OUT \<and> dflags d1 AND VRING_DESC_F_WRITE = 0) \<and>
         vreserved r = 0 \<and> unat (vsector r) + 2 \<le> 2 * cap)"

text \<open>What the driver relies on.\<close>

definition vdev_ok :: "nat \<Rightarrow> (vq \<Rightarrow> vq) \<Rightarrow> bool" where
  "vdev_ok cap dev \<longleftrightarrow> (\<forall>q. request cap q \<longrightarrow> dev q = serve q)"

section \<open>A transfer of a process that runs alone\<close>

text \<open>The driver between requests.\<close>

definition disk_idle :: "'a vdisk_scheme \<Rightarrow> bool" where
  "disk_idle s \<longleftrightarrow> (\<forall>i < NUM. vfree s i) \<and> used_idx s = ring_used_idx (vqueue s) \<and>
     avail_idx (vqueue s) = ring_used_idx (vqueue s)"

lemma vdisk_frame [simp]:
  "bufs (settle s) = bufs s" "vqueue (settle s) = vqueue s" "vfree (settle s) = vfree s"
  "used_idx (settle s) = used_idx s" "vinfo (settle s) = vinfo s" "vdev (settle s) = vdev s"
  "mmio (settle s) = mmio s"
  "bufs (grab l s) = bufs s" "vqueue (grab l s) = vqueue s" "vfree (grab l s) = vfree s"
  "used_idx (grab l s) = used_idx s" "vinfo (grab l s) = vinfo s" "vdev (grab l s) = vdev s"
  "mmio (grab l s) = mmio s"
  "same_mach u (s\<lparr>bufs := A\<rparr>) = same_mach u s" "same_mach u (s\<lparr>vqueue := B\<rparr>) = same_mach u s"
  "same_mach u (s\<lparr>vfree := C\<rparr>) = same_mach u s" "same_mach u (s\<lparr>used_idx := D\<rparr>) = same_mach u s"
  "same_mach u (s\<lparr>vinfo := E\<rparr>) = same_mach u s" "same_mach u (s\<lparr>mmio := F\<rparr>) = same_mach u s"
  "settle (s\<lparr>bufs := A\<rparr>) = (settle s)\<lparr>bufs := A\<rparr>" "settle (s\<lparr>vqueue := B\<rparr>) = (settle s)\<lparr>vqueue := B\<rparr>"
  "settle (s\<lparr>vfree := C\<rparr>) = (settle s)\<lparr>vfree := C\<rparr>" "settle (s\<lparr>used_idx := D\<rparr>) = (settle s)\<lparr>used_idx := D\<rparr>"
  "settle (s\<lparr>vinfo := E\<rparr>) = (settle s)\<lparr>vinfo := E\<rparr>" "settle (s\<lparr>mmio := F\<rparr>) = (settle s)\<lparr>mmio := F\<rparr>"
  "calm p (s\<lparr>bufs := A\<rparr>) = calm p s" "calm p (s\<lparr>vqueue := B\<rparr>) = calm p s"
  "calm p (s\<lparr>vfree := C\<rparr>) = calm p s" "calm p (s\<lparr>used_idx := D\<rparr>) = calm p s"
  "calm p (s\<lparr>vinfo := E\<rparr>) = calm p s" "calm p (s\<lparr>mmio := F\<rparr>) = calm p s"
  "lock_free l (s\<lparr>bufs := A\<rparr>) = lock_free l s" "lock_free l (s\<lparr>vqueue := B\<rparr>) = lock_free l s"
  "lock_free l (s\<lparr>vfree := C\<rparr>) = lock_free l s" "lock_free l (s\<lparr>used_idx := D\<rparr>) = lock_free l s"
  "lock_free l (s\<lparr>vinfo := E\<rparr>) = lock_free l s" "lock_free l (s\<lparr>mmio := F\<rparr>) = lock_free l s"
  "at_mach u (s\<lparr>bufs := A\<rparr>) = (at_mach u s)\<lparr>bufs := A\<rparr>"
  "at_mach u (s\<lparr>vqueue := B\<rparr>) = (at_mach u s)\<lparr>vqueue := B\<rparr>"
  "at_mach u (s\<lparr>vfree := C\<rparr>) = (at_mach u s)\<lparr>vfree := C\<rparr>"
  "at_mach u (s\<lparr>used_idx := D\<rparr>) = (at_mach u s)\<lparr>used_idx := D\<rparr>"
  "at_mach u (s\<lparr>vinfo := E\<rparr>) = (at_mach u s)\<lparr>vinfo := E\<rparr>"
  "at_mach u (s\<lparr>mmio := F\<rparr>) = (at_mach u s)\<lparr>mmio := F\<rparr>"
  by (simp_all add: settle_def grab_def same_mach_def calm_def cpu_ok_def lock_free_def at_mach_def mach_defs)

lemma alloc3_desc_idle:
  assumes "\<And>i. i < NUM \<Longrightarrow> vfree s i"
  shows "alloc3_desc s = Ok (Some (0, 1, 2), s\<lparr>vfree := (vfree s)(0 := False, 1 := False, 2 := False)\<rparr>)"
proof -
  have "[0..<NUM] = 0 # 1 # 2 # [3..<NUM]" by (simp add: upt_rec numeral_eq_Suc)
  then have d: "alloc_desc = alloc_desc_from (0 # 1 # 2 # [3..<NUM])" by (simp only: alloc_desc_def)
  show ?thesis
    unfolding alloc3_desc_def d using assms [of 0] assms [of 1] assms [of 2] by simp
qed

text \<open>The queue with one request for buffer \<open>b\<close> in descriptors 0, 1 and 2.\<close>

definition prepared :: "nat \<Rightarrow> bool \<Rightarrow> u32 \<Rightarrow> vq \<Rightarrow> vq" where
  "prepared b wr bno q = q\<lparr>
     vdesc := (vdesc q)(
       0 := \<lparr>daddr = DReq 0, dlen = 16, dflags = VRING_DESC_F_NEXT, dnext = 1\<rparr>,
       1 := \<lparr>daddr = DBuf b, dlen = 1024,
              dflags = (if wr then 0 else VRING_DESC_F_WRITE) OR VRING_DESC_F_NEXT, dnext = 2\<rparr>,
       2 := \<lparr>daddr = DStatus 0, dlen = 1, dflags = VRING_DESC_F_WRITE, dnext = 0\<rparr>),
     avail_idx := avail_idx q + 1,
     avail_ring := (avail_ring q)(unat (avail_idx q) mod NUM := 0),
     vops := (vops q)(0 := \<lparr>vtype = (if wr then VIRTIO_BLK_T_OUT else VIRTIO_BLK_T_IN), vreserved = 0,
       vsector = ucast (bno * 2)\<rparr>),
     vstatus := (vstatus q)(0 := 0xff)\<rparr>"

lemma submit_format:
  "submit b 0 (format_req b wr 0 1 2 s) =
     s\<lparr>bufs := (bufs s)(b := (bufs s b)\<lparr>bdisk := True\<rparr>), vinfo := (vinfo s)(0 := Some b),
       mmio := mmio s @ [(''QUEUE_NOTIFY'', 0)], vqueue := prepared b wr (blockno (bufs s b)) (vqueue s)\<rparr>"
  by (simp add: submit_def format_req_def set_buf_def set_desc_def wreg_def prepared_def Let_def)

lemma unat_sector:
  assumes "unat (bno :: u32) < 2147483648"
  shows "unat (ucast (bno * 2) :: u64) = 2 * unat bno"
proof -
  have "unat (bno * 2) = 2 * unat bno"
    using assms by (simp add: unat_word_ariths mult.commute)
  then show ?thesis by simp
qed

lemma sector_addr:
  assumes "unat (bno :: u32) < 2147483648"
  shows "512 * ucast (bno * 2) = disk_addr bno"
proof -
  have "unat (512 * (ucast (bno * 2) :: u64)) = unat (disk_addr bno)"
    using assms unat_sector [OF assms] by (simp add: disk_addr_def unat_word_ariths)
  then show ?thesis by (simp only: word_unat_eq_iff)
qed

lemma last_chain_prepared [simp]: "last_chain (prepared b wr bno q) = 0"
  by (simp add: last_chain_def prepared_def)

lemma request_prepared:
  assumes "avail_idx q = ring_used_idx q" and "length (vdata q b) = BSIZE"
    and "unat bno < cap" and "cap \<le> 2147483648"
  shows "request cap (prepared b wr bno q)"
proof -
  have "unat (ucast (bno * 2) :: u64) = 2 * unat bno" by (rule unat_sector) (use assms(3,4) in simp)
  then show ?thesis
    using assms by (simp add: request_def prepared_def Let_def last_chain_def)
qed

text \<open>The queue when the device is done.\<close>

definition finished :: "nat \<Rightarrow> bool \<Rightarrow> u32 \<Rightarrow> vq \<Rightarrow> vq" where
  "finished b wr bno q = (prepared b wr bno q)\<lparr>
     vstatus := (vstatus q)(0 := 0),
     ring_used := (ring_used q)(unat (ring_used_idx q) mod NUM := 0),
     ring_used_idx := ring_used_idx q + 1,
     medium := (if wr then store_bytes (disk_addr bno) (vdata q b) (medium q) else medium q),
     vdata := (if wr then vdata q else (vdata q)(b := disk_block (medium q) bno))\<rparr>"

lemma serve_prepared:
  assumes "unat bno < 2147483648"
  shows "serve (prepared b wr bno q) = finished b wr bno q"
  using sector_addr [OF assms]
  by (simp add: serve_def finished_def Let_def disk_block_def) (simp add: prepared_def)

lemma intr_loop_one:
  assumes "calm p s" and "ring_used_idx (vqueue s) = used_idx s + 1"
    and "ring_used (vqueue s) (unat (used_idx s) mod NUM) = i" and "i < NUM"
    and "vstatus (vqueue s) i = 0" and "vinfo s i = Some b"
  shows "intr_loop s = Ok ((settle s)\<lparr>bufs := (bufs s)(b := (bufs s b)\<lparr>bdisk := False\<rparr>),
           procs := woken p (ChBuf b) (procs s), used_idx := used_idx s + 1\<rparr>)"
  using assms
  by (subst intr_loop.simps)
     (simp add: Let_def wakeup_calm set_buf_def, subst intr_loop.simps, simp)

lemma free_desc_calm:
  assumes "calm p s" and "i < NUM" and "\<not> vfree s i"
  shows "free_desc i s = Ok ((settle s)\<lparr>
    vqueue := (vqueue s)\<lparr>vdesc := (vdesc (vqueue s))(i := \<lparr>daddr = DNull, dlen = 0, dflags = 0, dnext = 0\<rparr>)\<rparr>,
    vfree := (vfree s)(i := True), procs := woken p ChDiskFree (procs s)\<rparr>)"
  using assms by (simp add: free_desc_def set_desc_def Let_def wakeup_calm)

lemma free_chain_calm:
  assumes "calm p s" and "\<not> vfree s 0" "\<not> vfree s 1" "\<not> vfree s 2"
    and "dflags (vdesc (vqueue s) 0) AND VRING_DESC_F_NEXT \<noteq> 0" and "dnext (vdesc (vqueue s) 0) = 1"
    and "dflags (vdesc (vqueue s) 1) AND VRING_DESC_F_NEXT \<noteq> 0" and "dnext (vdesc (vqueue s) 1) = 2"
    and "dflags (vdesc (vqueue s) 2) AND VRING_DESC_F_NEXT = 0"
  shows "\<exists>ps ds. free_chain 0 s = Ok ((settle s)\<lparr>vqueue := (vqueue s)\<lparr>vdesc := ds\<rparr>,
           vfree := (vfree s)(0 := True, 1 := True, 2 := True), procs := ps\<rparr>) \<and> only_states (procs s) ps"
proof -
  let ?n = "\<lparr>daddr = DNull, dlen = 0, dflags = 0, dnext = 0\<rparr>"
  let ?s1 = "(settle s)\<lparr>vqueue := (vqueue s)\<lparr>vdesc := (vdesc (vqueue s))(0 := ?n)\<rparr>,
    vfree := (vfree s)(0 := True), procs := woken p ChDiskFree (procs s)\<rparr>"
  let ?s2 = "?s1\<lparr>vqueue := (vqueue s)\<lparr>vdesc := (vdesc (vqueue s))(0 := ?n, 1 := ?n)\<rparr>,
    vfree := (vfree s)(0 := True, 1 := True), procs := woken p ChDiskFree (woken p ChDiskFree (procs s))\<rparr>"
  let ?s3 = "?s2\<lparr>vqueue := (vqueue s)\<lparr>vdesc := (vdesc (vqueue s))(0 := ?n, 1 := ?n, 2 := ?n)\<rparr>,
    vfree := (vfree s)(0 := True, 1 := True, 2 := True),
    procs := woken p ChDiskFree (woken p ChDiskFree (woken p ChDiskFree (procs s)))\<rparr>"
  have d: "free_desc 0 s = Ok ?s1" "free_desc 1 ?s1 = Ok ?s2" "free_desc 2 ?s2 = Ok ?s3"
    using assms(1-4) by (simp_all add: free_desc_calm)
  have "free_chain 2 ?s2 = Ok ?s3"
    using d(3) assms(9) by (subst free_chain.simps) (simp add: Let_def)
  then have "free_chain 1 ?s1 = Ok ?s3"
    using d(2) assms(7,8) by (subst free_chain.simps) (simp add: Let_def)
  then have "free_chain 0 s = Ok ?s3"
    using d(1) assms(5,6) by (subst free_chain.simps) (simp add: Let_def)
  moreover have "only_states (procs s) (woken p ChDiskFree (woken p ChDiskFree (woken p ChDiskFree (procs s))))"
    by (meson only_states_trans only_states_woken)
  ultimately show ?thesis by (intro exI conjI) simp_all
qed

lemma virtio_disk_intr_one:
  assumes "calm p s" and "lock_free LDisk s" and "ring_used_idx (vqueue s) = used_idx s + 1"
    and "ring_used (vqueue s) (unat (used_idx s) mod NUM) = i" and "i < NUM"
    and "vstatus (vqueue s) i = 0" and "vinfo s i = Some b"
  shows "virtio_disk_intr s = Ok ((settle s)\<lparr>bufs := (bufs s)(b := (bufs s b)\<lparr>bdisk := False\<rparr>),
           procs := woken p (ChBuf b) (procs s), used_idx := used_idx s + 1\<rparr>)"
proof -
  note ok = calmD(1) [OF assms(1)]
  have "calm p (grab LDisk s)" by (rule calm_grab) (simp_all add: assms(1))
  from intr_loop_one [OF this, of i b] assms(3-7) show ?thesis
    by (simp add: virtio_disk_intr_def acquire_free [OF assms(2)] settle_grab [OF ok]
        release_section [OF ok assms(2)] at_mach_grab)
qed

lemma settle_at_mach [simp]: "settle (at_mach (settle s) t) = at_mach (settle s) t"
  by (rule settle_same_mach [of s]) (simp add: same_mach_def at_mach_def)

text \<open>Waiting for the device, which answers with the queue \<open>q\<close>.\<close>

lemma await_disk_eq:
  assumes "calm p s" and "lock_free LDisk s" and "same_mach (grab LDisk s) t"
    and "vdev t (vqueue t) = q" and "ring_used_idx q = used_idx t + 1"
    and "ring_used q (unat (used_idx t) mod NUM) = i" and "i < NUM"
    and "vstatus q i = 0" and "vinfo t i = Some b"
  shows "await_disk b t = Ok (grab LDisk ((at_mach (settle s) t)\<lparr>vqueue := q,
           bufs := (bufs t)(b := (bufs t b)\<lparr>bdisk := False\<rparr>),
           procs := woken p (ChBuf b) (procs t), used_idx := used_idx t + 1\<rparr>))"
proof -
  note ok = calmD(1) [OF assms(1)]
  let ?u = "(at_mach (settle s) t)\<lparr>vqueue := q\<rparr>"
  have m: "same_mach (settle s) ?u" by (simp add: same_mach_def at_mach_def)
  have u: "calm p ?u" "lock_free LDisk ?u" "settle ?u = ?u"
    using calm_same_mach [OF m] lock_free_same_mach [OF m] settle_same_mach [OF m] assms(1,2) by simp_all
  have f: "vqueue (at_mach (settle s) t) = vqueue t" "vdev (at_mach (settle s) t) = vdev t"
    "used_idx (at_mach (settle s) t) = used_idx t" "vinfo (at_mach (settle s) t) = vinfo t"
    "bufs (at_mach (settle s) t) = bufs t" "procs (at_mach (settle s) t) = procs t"
    by (simp_all add: at_mach_def)
  have "virtio_disk_intr ?u = Ok (?u\<lparr>bufs := (bufs t)(b := (bufs t b)\<lparr>bdisk := False\<rparr>),
           procs := woken p (ChBuf b) (procs t), used_idx := used_idx t + 1\<rparr>)" (is "_ = Ok ?v")
    using virtio_disk_intr_one [OF u(1,2), of i b] assms(5-9) by (simp add: u(3) f)
  moreover have "lock_free LDisk ?v" using u(2) by simp
  ultimately show ?thesis
    by (simp add: await_disk_def release_section [OF ok assms(2,3)] f assms(4) acquire_free)
qed

text \<open>
  A transfer, for a device that answers with some medium and some data: the driver is idle again,
  and nothing else has changed.
\<close>

lemma virtio_disk_rw_eq:
  assumes calm: "calm p s" and free: "lock_free LDisk s" and idle: "disk_idle s"
    and dev: "vdev s (prepared b wr (blockno (bufs s b)) (vqueue s))
                = (finished b wr (blockno (bufs s b)) (vqueue s))\<lparr>medium := M, vdata := V\<rparr>"
  shows "\<exists>ps q. virtio_disk_rw b wr s = Ok ((settle s)\<lparr>bufs := (bufs s)(b := (bufs s b)\<lparr>bdisk := False\<rparr>),
           vinfo := (vinfo s)(0 := None), mmio := mmio s @ [(''QUEUE_NOTIFY'', 0)], used_idx := used_idx s + 1,
           vqueue := q, procs := ps\<rparr>) \<and> only_states (procs s) ps \<and>
         ring_used_idx q = ring_used_idx (vqueue s) + 1 \<and> avail_idx q = avail_idx (vqueue s) + 1 \<and>
         medium q = M \<and> vdata q = V"
proof -
  let ?q = "(finished b wr (blockno (bufs s b)) (vqueue s))\<lparr>medium := M, vdata := V\<rparr>"
  let ?F = "(vfree s)(0 := False, 1 := False, 2 := False)"
  note ok = calmD(1) [OF calm]
  define t where "t = submit b 0 (format_req b wr 0 1 2 ((grab LDisk s)\<lparr>vfree := ?F\<rparr>))"
  have f: "vfree s 0" "vfree s 1" "vfree s 2" and al: "alloc3_desc (grab LDisk s)
      = Ok (Some (0, 1, 2), (grab LDisk s)\<lparr>vfree := ?F\<rparr>)"
    using idle by (simp_all add: disk_idle_def alloc3_desc_idle)
  have t: "bufs t = (bufs s)(b := (bufs s b)\<lparr>bdisk := True\<rparr>)" "vinfo t = (vinfo s)(0 := Some b)"
    "used_idx t = used_idx s" "procs t = procs s" "vdev t (vqueue t) = ?q" "vfree t = ?F"
    "same_mach (grab LDisk s) t"
    unfolding t_def submit_format using dev by simp_all
  define v where "v = (at_mach (settle s) t)\<lparr>vqueue := ?q, bufs := (bufs s)(b := (bufs s b)\<lparr>bdisk := False\<rparr>),
      procs := woken p (ChBuf b) (procs s), used_idx := used_idx s + 1\<rparr>"
  have aw: "await_disk b t = Ok (grab LDisk v)"
    using await_disk_eq [OF calm free t(7,5), of 0 b] idle
    by (simp add: disk_idle_def finished_def t v_def)
  have m: "same_mach (settle s) v" by (simp add: v_def same_mach_def at_mach_def)
  have cv: "calm p v" "lock_free LDisk v" "settle v = v"
    using calm_same_mach [OF m] lock_free_same_mach [OF m] settle_same_mach [OF m] calm free by simp_all
  note okv = calmD(1) [OF cv(1)]
  let ?w = "(grab LDisk v)\<lparr>vinfo := (vinfo v)(0 := None)\<rparr>"
  have vv: "vfree v = ?F" "vqueue v = ?q" "vinfo v = (vinfo s)(0 := Some b)"
    "procs v = woken p (ChBuf b) (procs s)"
    by (simp_all add: v_def at_mach_def t)
  have "calm p ?w" using calm_grab [OF cv(1), of LDisk] by simp
  from free_chain_calm [OF this] obtain ps ds where
    fc: "free_chain 0 ?w = Ok (?w\<lparr>vqueue := ?q\<lparr>vdesc := ds\<rparr>, vfree := (?F)(0 := True, 1 := True, 2 := True), procs := ps\<rparr>)"
    and ps: "only_states (woken p (ChBuf b) (procs s)) ps"
    by (auto simp: settle_grab [OF okv] vv finished_def prepared_def)
  have fr: "(vfree s)(0 := True, 1 := True, 2 := True) = vfree s" using f by (auto simp: fun_eq_iff)
  have "virtio_disk_rw b wr s = Ok (v\<lparr>vinfo := (vinfo s)(0 := None), vqueue := ?q\<lparr>vdesc := ds\<rparr>,
      vfree := vfree s, procs := ps\<rparr>)"
    using fc at_mach_grab [of v LDisk]
    by (simp add: virtio_disk_rw_def release_section [OF okv cv(2)] acquire_free [OF free] al t_def [symmetric] aw cv(3) fr vv del: One_nat_def)
  moreover have "v\<lparr>vinfo := (vinfo s)(0 := None), vqueue := ?q\<lparr>vdesc := ds\<rparr>, vfree := vfree s, procs := ps\<rparr>
      = (settle s)\<lparr>bufs := (bufs s)(b := (bufs s b)\<lparr>bdisk := False\<rparr>), vinfo := (vinfo s)(0 := None),
          mmio := mmio s @ [(''QUEUE_NOTIFY'', 0)], used_idx := used_idx s + 1,
          vqueue := ?q\<lparr>vdesc := ds\<rparr>, procs := ps\<rparr>"
    unfolding v_def t_def submit_format by (simp add: at_mach_grab)
  ultimately show ?thesis
    using only_states_trans [OF only_states_woken ps]
    by (intro exI [of _ ps] exI [of _ "?q\<lparr>vdesc := ds\<rparr>"]) (simp add: finished_def prepared_def)
qed

section \<open>Blocks of the medium\<close>

lemma unat_disk_addr: "unat (disk_addr bno) = 1024 * unat bno"
proof -
  have "unat bno < 4294967296" by (rule unat_u32_lt)
  then have "1024 * unat bno < 18446744073709551616" by linarith
  then have "1024 * unat bno mod 18446744073709551616 = 1024 * unat bno" by (rule mod_less)
  then show ?thesis by (simp add: disk_addr_def unat_word_ariths)
qed

lemma load_bytes_store_other:
  assumes "unat a + length d \<le> unat b \<or> unat b + n \<le> unat a"
    and "unat a + length d \<le> 2 ^ 64" and "unat b + n \<le> 2 ^ 64"
  shows "load_bytes (store_bytes a d m) b n = load_bytes m b n"
proof -
  have "\<not> unat (b + of_nat i - a) < length d" if "i < n" for i
  proof -
    have bi: "unat (b + of_nat i) = unat b + i"
      using that assms(3) unat_of_nat_u64 [of i] by (subst unat_plus_if') simp_all
    show ?thesis
    proof
      let ?k = "unat (b + of_nat i - a)"
      assume k: "?k < length d"
      have "b + of_nat i = a + (b + of_nat i - a)" by simp
      then have "unat (b + of_nat i) = unat (a + (b + of_nat i - a))" by simp
      also have "\<dots> = unat a + ?k" using k assms(2) by (intro unat_add_no_wrap) simp
      finally show False using k that assms(1) bi by linarith
    qed
  qed
  then show ?thesis by (auto simp: load_bytes_def store_bytes_def)
qed

lemma load_bytes_store_same:
  assumes "length d \<le> 2 ^ 64"
  shows "load_bytes (store_bytes a d m) a (length d) = d"
proof (rule nth_equalityI)
  fix i assume "i < length (load_bytes (store_bytes a d m) a (length d))"
  then have "i < length d" by (simp add: load_bytes_def)
  moreover from this have "unat (of_nat i :: u64) = i" using assms by (intro unat_of_nat_u64) simp
  ultimately show "load_bytes (store_bytes a d m) a (length d) ! i = d ! i"
    by (simp add: load_bytes_def store_bytes_def)
qed (simp add: load_bytes_def)

lemma disk_block_store:
  assumes "length d = BSIZE"
  shows "disk_block (store_bytes (disk_addr n) d m) n' = (if n' = n then d else disk_block m n')"
proof (cases "n' = n")
  case True
  then show ?thesis using load_bytes_store_same [of d "disk_addr n" m] assms by (simp add: disk_block_def)
next
  case False
  have "unat n < 4294967296" "unat n' < 4294967296" by (rule unat_u32_lt)+
  then have lt: "unat n \<le> 18014398509481983" "unat n' \<le> 18014398509481983" by linarith+
  from False have "unat n \<noteq> unat n'" by (simp add: word_unat_eq_iff)
  then have "unat n + 1 \<le> unat n' \<or> unat n' + 1 \<le> unat n" by linarith
  then have "1024 * unat n + 1024 \<le> 1024 * unat n' \<or> 1024 * unat n' + 1024 \<le> 1024 * unat n" by linarith
  then show ?thesis
    unfolding disk_block_def using False assms lt
    by (subst load_bytes_store_other) (simp_all add: unat_disk_addr)
qed

lemma virtio_disk_rw_ok:
  assumes "calm p s" and "lock_free LDisk s" and "disk_idle s" and "vdev_ok cap (vdev s)"
    and "unat (blockno (bufs s b)) < cap" and "cap \<le> 2 ^ 31" and "length (bdata s b) = BSIZE"
  shows "\<exists>ps q. virtio_disk_rw b wr s = Ok ((settle s)\<lparr>bufs := (bufs s)(b := (bufs s b)\<lparr>bdisk := False\<rparr>),
           vinfo := (vinfo s)(0 := None), mmio := mmio s @ [(''QUEUE_NOTIFY'', 0)], used_idx := used_idx s + 1,
           vqueue := q, procs := ps\<rparr>) \<and> only_states (procs s) ps \<and>
         ring_used_idx q = ring_used_idx (vqueue s) + 1 \<and> avail_idx q = avail_idx (vqueue s) + 1 \<and>
         medium q = (if wr then store_bytes (disk_addr (blockno (bufs s b))) (bdata s b) (medium (vqueue s))
                     else medium (vqueue s)) \<and>
         vdata q = (if wr then vdata (vqueue s)
                    else (vdata (vqueue s))(b := disk_block (medium (vqueue s)) (blockno (bufs s b))))"
proof -
  let ?bno = "blockno (bufs s b)"
  have "request cap (prepared b wr ?bno (vqueue s))"
    using assms(3,5-7) by (intro request_prepared) (simp_all add: disk_idle_def bdata_def)
  then have "vdev s (prepared b wr ?bno (vqueue s)) = finished b wr ?bno (vqueue s)"
    using assms(4-6) by (simp add: vdev_ok_def serve_prepared)
  then have dev: "vdev s (prepared b wr ?bno (vqueue s)) = (finished b wr ?bno (vqueue s))
      \<lparr>medium := medium (finished b wr ?bno (vqueue s)), vdata := vdata (finished b wr ?bno (vqueue s))\<rparr>" by simp
  from virtio_disk_rw_eq [OF assms(1-3) dev] show ?thesis
    by (cases wr) (simp_all add: finished_def bdata_def)
qed

text \<open>C19. A transfer by a process that runs alone: the driver comes back idle, a write puts the data of
  the buffer on the medium and changes no other block and no buffer, a read fills the buffer with
  the block and changes neither the medium nor another buffer.\<close>

theorem disk_transfer:
  assumes "calm p s" and "lock_free LDisk s" and "disk_idle s" and "vdev_ok cap (vdev s)"
    and "unat (blockno (bufs s b)) < cap" and "cap \<le> 2 ^ 31" and "length (bdata s b) = BSIZE"
  shows "\<exists>t. virtio_disk_rw b wr s = Ok t \<and> disk_idle t \<and> calm p t \<and> locks t = locks s \<and>
    (\<forall>n. disk_block (medium (vqueue t)) n
       = (if wr \<and> n = blockno (bufs s b) then bdata s b else disk_block (medium (vqueue s)) n)) \<and>
    (\<forall>c. bdata t c = (if \<not> wr \<and> c = b then disk_block (medium (vqueue s)) (blockno (bufs s b)) else bdata s c))"
  using virtio_disk_rw_ok [OF assms, of wr] assms(1,3,7)
  by (auto simp: disk_idle_def bdata_def disk_block_store)

text \<open>A machine whose hart 0 runs process 3, with the device of the specification.\<close>

definition demo_vdisk :: "(vq \<Rightarrow> vq) \<Rightarrow> (u64 \<Rightarrow> u8) \<Rightarrow> 'x \<Rightarrow> 'x vdisk_scheme" where
  "demo_vdisk dev med x =
     vdisk.extend (slk.extend (ptab.extend ((init_ptab example_image (\<lambda>_. 0))\<lparr>cpus := (\<lambda>_. \<lparr>cproc = Some 3, noff = 0, intena = False\<rparr>)\<rparr>)
       (slk.fields (\<lambda>_. \<lparr>slname = [], slocked = False, slpid = 0\<rparr>)))
     (vdisk.fields
       (\<lambda>_. \<lparr>bvalid = False, bdisk = False, bdev = 0, blockno = 7, refcnt = 0, bprev = 0, bnext = 0\<rparr>)
       \<lparr>vdesc = (\<lambda>_. \<lparr>daddr = DNull, dlen = 0, dflags = 0, dnext = 0\<rparr>), avail_idx = 0, avail_ring = (\<lambda>_. 0),
        ring_used_idx = 0, ring_used = (\<lambda>_. 0), vops = (\<lambda>_. \<lparr>vtype = 0, vreserved = 0, vsector = 0\<rparr>),
        vstatus = (\<lambda>_. 0), vdata = (\<lambda>_. replicate BSIZE 5), medium = med\<rparr>
       (\<lambda>_. True) 0 (\<lambda>_. None) dev [])) x"

lemma demo_vdisk_simps:
  "calm 3 (demo_vdisk dev med x)" "lock_free l (demo_vdisk dev med x)" "disk_idle (demo_vdisk dev med x)"
  "vdev (demo_vdisk dev med x) = dev" "blockno (bufs (demo_vdisk dev med x) b) = 7"
  "bdata (demo_vdisk dev med x) b = replicate BSIZE 5" "medium (vqueue (demo_vdisk dev med x)) = med"
  by (simp_all add: demo_vdisk_def init_ptab_def calm_def cpu_ok_def lock_free_def mach_defs disk_idle_def bdata_def
      slk.defs ptab.defs vdisk.defs)

theorem disk_transfer_witness:
  "\<exists>t. virtio_disk_rw 2 True (demo_vdisk serve (\<lambda>_. 0) ()) = Ok t \<and> disk_block (medium (vqueue t)) 7 = replicate BSIZE 5
     \<and> disk_block (medium (vqueue t)) 8 = disk_block (\<lambda>_. 0) 8"
proof -
  have "vdev_ok 1000 serve" by (simp add: vdev_ok_def)
  then show ?thesis
    using disk_transfer [of 3 "demo_vdisk serve (\<lambda>_. 0) ()" 1000 2 True] by (auto simp: demo_vdisk_simps)
qed

end
