(* ===== verification/Bio.thy ===== *)
theory Bio
  imports Virtio
begin

text \<open>
  \<open>kernel/bio.c\<close>: the buffer cache.  Buffers are numbered; the number \<open>NBUF\<close> is the list head
  \<open>bcache.head\<close>, and the fields \<open>bprev\<close> and \<open>bnext\<close> are the links of the circular list in
  order of last use.
\<close>

abbreviation (input) NBUF :: nat where "NBUF \<equiv> 30"
abbreviation (input) bhead :: nat where "bhead \<equiv> NBUF"

text \<open>Insert \<open>b\<close> right after the head, the four stores at the end of \<open>binit\<close> and \<open>brelse\<close>.\<close>

definition push_front :: "nat \<Rightarrow> 'a vdisk_scheme \<Rightarrow> 'a vdisk_scheme" where
  "push_front b s =
     (let s = set_buf b (\<lambda>x. x\<lparr>bnext := bnext (bufs s bhead)\<rparr>) s;
          s = set_buf b (\<lambda>x. x\<lparr>bprev := bhead\<rparr>) s;
          s = set_buf (bnext (bufs s bhead)) (\<lambda>x. x\<lparr>bprev := b\<rparr>) s
      in set_buf bhead (\<lambda>x. x\<lparr>bnext := b\<rparr>) s)"

definition binit :: "'a vdisk_scheme \<Rightarrow> 'a vdisk_scheme" where
  "binit s =
     fold (\<lambda>b s. push_front b (initsleeplock (SBuf b) ''buffer'' s)) [0..<NBUF]
       (set_buf bhead (\<lambda>x. x\<lparr>bprev := bhead, bnext := bhead\<rparr>) (initlock LBcache ''bcache'' s))"

text \<open>
  The two searches of \<open>bget\<close> follow the links until they are back at the head; the first
  argument bounds the number of steps, and \<open>NBUF + 1\<close> is enough for a well-formed list.
\<close>

fun bfind :: "nat \<Rightarrow> u32 \<Rightarrow> u32 \<Rightarrow> nat \<Rightarrow> 'a vdisk_scheme \<Rightarrow> nat option res" where
  "bfind 0 dev bno b s = Spin"
| "bfind (Suc n) dev bno b s =
     (if b = bhead then Ok None
      else if bdev (bufs s b) = dev \<and> blockno (bufs s b) = bno then Ok (Some b)
      else bfind n dev bno (bnext (bufs s b)) s)"

fun bvictim :: "nat \<Rightarrow> nat \<Rightarrow> 'a vdisk_scheme \<Rightarrow> nat option res" where
  "bvictim 0 b s = Spin"
| "bvictim (Suc n) b s =
     (if b = bhead then Ok None
      else if refcnt (bufs s b) = 0 then Ok (Some b)
      else bvictim n (bprev (bufs s b)) s)"

definition bget :: "u32 \<Rightarrow> u32 \<Rightarrow> 'a vdisk_scheme \<Rightarrow> (nat \<times> 'a vdisk_scheme) res" where
  "bget dev bno s =
     bindR (acquire LBcache s) (\<lambda>s.
     bindR (bfind (NBUF + 1) dev bno (bnext (bufs s bhead)) s) (\<lambda>r.
       case r of
         Some b \<Rightarrow>
           bindR (release LBcache (set_buf b (\<lambda>x. x\<lparr>refcnt := refcnt x + 1\<rparr>) s)) (\<lambda>s.
           bindR (acquiresleep (SBuf b) s) (\<lambda>s. Ok (b, s)))
       | None \<Rightarrow>
           bindR (bvictim (NBUF + 1) (bprev (bufs s bhead)) s) (\<lambda>r.
             case r of
               Some b \<Rightarrow>
                 bindR (release LBcache (set_buf b (\<lambda>x. x\<lparr>bdev := dev, blockno := bno, bvalid := False,
                                                        refcnt := 1\<rparr>) s)) (\<lambda>s.
                 bindR (acquiresleep (SBuf b) s) (\<lambda>s. Ok (b, s)))
             | None \<Rightarrow> Panic ''bget: no buffers'')))"

definition bread :: "u32 \<Rightarrow> u32 \<Rightarrow> 'a vdisk_scheme \<Rightarrow> (nat \<times> 'a vdisk_scheme) res" where
  "bread dev bno s =
     bindR (bget dev bno s) (\<lambda>(b, s).
       if \<not> bvalid (bufs s b)
       then bindR (virtio_disk_rw b False s) (\<lambda>s. Ok (b, set_buf b (\<lambda>x. x\<lparr>bvalid := True\<rparr>) s))
       else Ok (b, s))"

definition bwrite :: "nat \<Rightarrow> 'a vdisk_scheme \<Rightarrow> 'a vdisk_scheme res" where
  "bwrite b s =
     bindR (holdingsleep (SBuf b) s) (\<lambda>(h, s).
       if \<not> h then Panic ''bwrite'' else virtio_disk_rw b True s)"

definition unlink_buf :: "nat \<Rightarrow> 'a vdisk_scheme \<Rightarrow> 'a vdisk_scheme" where
  "unlink_buf b s =
     (let s = set_buf (bnext (bufs s b)) (\<lambda>x. x\<lparr>bprev := bprev (bufs s b)\<rparr>) s
      in set_buf (bprev (bufs s b)) (\<lambda>x. x\<lparr>bnext := bnext (bufs s b)\<rparr>) s)"

definition brelse :: "nat \<Rightarrow> 'a vdisk_scheme \<Rightarrow> 'a vdisk_scheme res" where
  "brelse b s =
     bindR (holdingsleep (SBuf b) s) (\<lambda>(h, s).
       if \<not> h then Panic ''brelse''
       else bindR (releasesleep (SBuf b) s) (\<lambda>s.
            bindR (acquire LBcache s) (\<lambda>s.
            let s = set_buf b (\<lambda>x. x\<lparr>refcnt := refcnt x - 1\<rparr>) s
            in release LBcache (if refcnt (bufs s b) = 0 then push_front b (unlink_buf b s) else s))))"

definition bpin :: "nat \<Rightarrow> 'a vdisk_scheme \<Rightarrow> 'a vdisk_scheme res" where
  "bpin b s = bindR (acquire LBcache s) (\<lambda>s. release LBcache (set_buf b (\<lambda>x. x\<lparr>refcnt := refcnt x + 1\<rparr>) s))"

definition bunpin :: "nat \<Rightarrow> 'a vdisk_scheme \<Rightarrow> 'a vdisk_scheme res" where
  "bunpin b s = bindR (acquire LBcache s) (\<lambda>s. release LBcache (set_buf b (\<lambda>x. x\<lparr>refcnt := refcnt x - 1\<rparr>) s))"

section \<open>The list of buffers\<close>

text \<open>
  \<open>linked\<close> follows the links in both directions; \<open>lru\<close> says that the list from the head is \<open>xs\<close>,
  most recently used first.
\<close>

fun linked :: "(nat \<Rightarrow> nat) \<Rightarrow> (nat \<Rightarrow> nat) \<Rightarrow> nat list \<Rightarrow> bool" where
  "linked nx pv (x # y # ys) \<longleftrightarrow> nx x = y \<and> pv y = x \<and> linked nx pv (y # ys)"
| "linked nx pv _ \<longleftrightarrow> True"

definition lru :: "'a vdisk_scheme \<Rightarrow> nat list \<Rightarrow> bool" where
  "lru s xs \<longleftrightarrow> distinct (bhead # xs) \<and>
     linked (\<lambda>b. bnext (bufs s b)) (\<lambda>b. bprev (bufs s b)) (bhead # xs @ [bhead])"

lemma linked_append:
  "linked nx pv (xs @ y # ys) \<longleftrightarrow> linked nx pv (xs @ [y]) \<and> linked nx pv (y # ys)"
proof (induction xs)
  case (Cons x xs)
  then show ?case by (cases xs) auto
qed simp

lemma linked_cong:
  assumes "\<And>x. x \<in> set (butlast xs) \<Longrightarrow> nx x = nx' x" and "\<And>x. x \<in> set (tl xs) \<Longrightarrow> pv x = pv' x"
  shows "linked nx pv xs = linked nx' pv' xs"
  using assms by (induction nx pv xs rule: linked.induct) auto

lemma linked_first: "linked nx pv (x # xs @ [z]) \<Longrightarrow> nx x = hd (xs @ [z])"
  by (cases xs) auto

lemma linked_last: "linked nx pv (x # xs @ [z]) \<Longrightarrow> pv z = last (x # xs)"
  by (induction xs arbitrary: x) auto

lemma lru_head:
  assumes "lru s xs"
  shows "bnext (bufs s bhead) = hd (xs @ [bhead])" "bprev (bufs s bhead) = last (bhead # xs)"
  using assms linked_first linked_last unfolding lru_def by blast+

text \<open>Insertion at the front, and removal.\<close>

lemma lru_push_front:
  assumes "lru s xs" and "b \<notin> set xs" and "b \<noteq> bhead"
  shows "lru (push_front b s) (b # xs)"
proof -
  let ?t = "push_front b s"
  let ?h = "hd (xs @ [bhead])"
  have h: "bnext (bufs s bhead) = ?h" using lru_head [OF assms(1)] by simp
  have hb: "?h \<noteq> b" using assms(2,3) by (cases xs) auto
  have nx: "bnext (bufs ?t c) = (if c = bhead then b else if c = b then ?h else bnext (bufs s c))" for c
    using assms(3) h by (auto simp: push_front_def set_buf_def Let_def)
  have pv: "bprev (bufs ?t c) = (if c = ?h then b else if c = b then bhead else bprev (bufs s c))" for c
    using assms(3) h hb by (auto simp: push_front_def set_buf_def Let_def)
  have d: "distinct (bhead # b # xs)" using assms by (auto simp: lru_def)
  obtain y ys where y: "xs @ [bhead] = y # ys" by (cases xs) auto
  have l: "linked (\<lambda>b. bnext (bufs s b)) (\<lambda>b. bprev (bufs s b)) (y # ys)"
    using assms(1) y by (auto simp: lru_def)
  have yd: "y \<notin> set ys" using y d by (cases xs) auto
  have bl: "set (butlast (y # ys)) \<subseteq> set xs" using y by (metis butlast_snoc subset_refl)
  have "linked (\<lambda>b. bnext (bufs ?t b)) (\<lambda>b. bprev (bufs ?t b)) (y # ys)"
    using l
  proof (rule iffD1 [OF linked_cong, rotated 2])
    show "bnext (bufs s x) = bnext (bufs ?t x)" if "x \<in> set (butlast (y # ys))" for x
      using that bl d by (auto simp: nx)
    show "bprev (bufs s x) = bprev (bufs ?t x)" if "x \<in> set (tl (y # ys))" for x
    proof -
      have "x \<noteq> y" using that yd by auto
      moreover have "x \<noteq> b"
      proof
        assume "x = b"
        with that have "b \<in> set (xs @ [bhead])" unfolding y by simp
        with assms(2,3) show False by simp
      qed
      ultimately show ?thesis using y by (simp add: pv)
    qed
  qed
  moreover have "?h = y" using y by simp
  moreover have "y \<noteq> b" using hb y by simp
  ultimately have "linked (\<lambda>b. bnext (bufs ?t b)) (\<lambda>b. bprev (bufs ?t b)) (bhead # b # y # ys)"
    using d by (simp add: nx pv)
  then show ?thesis using d y by (simp add: lru_def)
qed

lemma lru_unlink:
  assumes "lru s (xs @ b # ys)"
  shows "lru (unlink_buf b s) (xs @ ys)"
proof -
  let ?t = "unlink_buf b s"
  let ?l = "\<lambda>s. linked (\<lambda>b. bnext (bufs s b)) (\<lambda>b. bprev (bufs s b))"
  obtain us u where u: "bhead # xs = us @ [u]" by (metis append_butlast_last_id list.distinct(1))
  obtain v vs where v: "ys @ [bhead] = v # vs" by (cases ys) auto
  have "bhead # (xs @ b # ys) @ [bhead] = (bhead # xs) @ b # (ys @ [bhead])" by simp
  then have "bhead # (xs @ b # ys) @ [bhead] = us @ u # b # v # vs" unfolding u v by simp
  then have d: "distinct (bhead # xs @ b # ys)" and l: "?l s (us @ u # b # v # vs)"
    using assms unfolding lru_def by simp_all
  have b: "bnext (bufs s b) = v" "bprev (bufs s b) = u" and l1: "?l s (us @ [u])" and l2: "?l s (v # vs)"
    using l linked_append [of _ _ us u "b # v # vs"] by auto
  have "set (bhead # xs) = set (us @ [u])" "distinct (bhead # xs) = distinct (us @ [u])"
    "set (tl (bhead # xs)) = set (tl (us @ [u]))" unfolding u by (rule refl)+
  then have su: "set (us @ [u]) = insert bhead (set xs)" "distinct (us @ [u])" "set (tl (us @ [u])) = set xs"
    using d by simp_all
  have "set (ys @ [bhead]) = set (v # vs)" "distinct (ys @ [bhead]) = distinct (v # vs)"
    "set (butlast (ys @ [bhead])) = set (butlast (v # vs))" unfolding v by (rule refl)+
  then have sv: "set (v # vs) = insert bhead (set ys)" "distinct (v # vs)" "set (butlast (v # vs)) = set ys"
    using d by simp_all
  have uv: "u \<in> insert bhead (set xs)" "v \<in> insert bhead (set ys)"
    unfolding su(1) [symmetric] sv(1) [symmetric] by simp_all
  then have bv: "b \<noteq> v" "b \<noteq> u" using d by auto
  have nx: "bnext (bufs ?t c) = (if c = u then v else bnext (bufs s c))" for c
    using b bv by (auto simp: unlink_buf_def set_buf_def Let_def)
  have pv: "bprev (bufs ?t c) = (if c = v then u else bprev (bufs s c))" for c
    using b bv by (auto simp: unlink_buf_def set_buf_def Let_def)
  have "?l ?t (us @ [u])"
    using l1 by (rule iffD1 [OF linked_cong, rotated 2]) (use su sv uv d in \<open>auto simp: nx pv\<close>)
  moreover have "?l ?t (v # vs)"
    using l2 by (rule iffD1 [OF linked_cong, rotated 2]) (use su sv uv d in \<open>auto simp: nx pv\<close>)
  ultimately have "?l ?t (us @ u # v # vs)"
    using linked_append [of _ _ us u "v # vs"] by (simp add: nx pv)
  moreover have "us @ u # v # vs = bhead # (xs @ ys) @ [bhead]" using u v by simp
  ultimately show ?thesis using d by (simp add: lru_def)
qed

lemma lru_links:
  assumes "lru s (us @ z # zs)"
  shows "bnext (bufs s z) = hd (zs @ [bhead])" "bprev (bufs s z) = last (bhead # us)"
proof -
  let ?l = "linked (\<lambda>b. bnext (bufs s b)) (\<lambda>b. bprev (bufs s b))"
  have "?l ((bhead # us) @ z # zs @ [bhead])" using assms by (simp add: lru_def)
  then have "?l ((bhead # us) @ [z])" "?l (z # zs @ [bhead])"
    using linked_append [of _ _ "bhead # us" z "zs @ [bhead]"] by blast+
  then show "bnext (bufs s z) = hd (zs @ [bhead])" "bprev (bufs s z) = last (bhead # us)"
    using linked_first linked_last by (blast, fastforce)
qed

lemma bfind_list:
  assumes "lru s (us @ zs)" and "length zs < n"
  shows "bfind n dev bno (hd (zs @ [bhead])) s
    = Ok (List.find (\<lambda>b. bdev (bufs s b) = dev \<and> blockno (bufs s b) = bno) zs)"
  using assms
proof (induction zs arbitrary: us n)
  case Nil
  then show ?case by (cases n) simp_all
next
  case (Cons z zs)
  then obtain m where n: "n = Suc m" by (cases n) auto
  have "z \<noteq> bhead" using Cons.prems(1) by (auto simp: lru_def)
  moreover have "bfind m dev bno (hd (zs @ [bhead])) s
      = Ok (List.find (\<lambda>b. bdev (bufs s b) = dev \<and> blockno (bufs s b) = bno) zs)"
    using Cons.IH [of "us @ [z]" m] Cons.prems n by simp
  ultimately show ?case using lru_links(1) [OF Cons.prems(1)] by (simp add: n)
qed

lemma bvictim_list:
  assumes "lru s (zs @ vs)" and "length zs < n"
  shows "bvictim n (last (bhead # zs)) s = Ok (List.find (\<lambda>b. refcnt (bufs s b) = 0) (rev zs))"
  using assms
proof (induction zs arbitrary: vs n rule: rev_induct)
  case Nil
  then show ?case by (cases n) simp_all
next
  case (snoc z zs)
  then obtain m where n: "n = Suc m" by (cases n) auto
  have l: "lru s (zs @ z # vs)" using snoc.prems by simp
  then have "z \<noteq> bhead" by (auto simp: lru_def)
  moreover have "bvictim m (last (bhead # zs)) s = Ok (List.find (\<lambda>b. refcnt (bufs s b) = 0) (rev zs))"
    using snoc.IH [OF l, of m] snoc.prems(2) n by simp
  ultimately show ?case using lru_links(2) [OF l] by (simp add: n)
qed

text \<open>The lookup of \<open>bget\<close> on a full list: a cached block, otherwise the least recently used free buffer.\<close>

lemma bget_searches:
  assumes "lru s xs" and "length xs = NBUF"
  shows "bfind (NBUF + 1) dev bno (bnext (bufs s bhead)) s
      = Ok (List.find (\<lambda>b. bdev (bufs s b) = dev \<and> blockno (bufs s b) = bno) xs)"
    and "bvictim (NBUF + 1) (bprev (bufs s bhead)) s = Ok (List.find (\<lambda>b. refcnt (bufs s b) = 0) (rev xs))"
  using bfind_list [of s "[]" xs "NBUF + 1"] bvictim_list [of s xs "[]" "NBUF + 1"] lru_head [OF assms(1)] assms
  by simp_all

lemma lru_cong: "(\<And>b. bnext (bufs t b) = bnext (bufs s b)) \<Longrightarrow> (\<And>b. bprev (bufs t b) = bprev (bufs s b)) \<Longrightarrow> lru t xs = lru s xs"
  by (simp add: lru_def)

lemma bufs_initsleeplock [simp]: "bufs (initsleeplock k nm s) = bufs s"
  by (simp add: initsleeplock_def set_slock_def initlock_def)

lemma lru_binit: "lru (binit s) (rev [0..<NBUF])"
proof -
  let ?f = "\<lambda>b s. push_front b (initsleeplock (SBuf b) ''buffer'' s)"
  let ?s = "set_buf bhead (\<lambda>x. x\<lparr>bprev := bhead, bnext := bhead\<rparr>) (initlock LBcache ''bcache'' s)"
  have "lru (fold ?f [0..<n] ?s) (rev [0..<n])" if "n \<le> NBUF" for n
    using that
  proof (induction n)
    case 0
    then show ?case by (simp add: lru_def set_buf_def)
  next
    case (Suc n)
    then have "lru (fold ?f [0..<n] ?s) (rev [0..<n])" by simp
    then have "lru (initsleeplock (SBuf n) ''buffer'' (fold ?f [0..<n] ?s)) (rev [0..<n])"
      by (simp add: lru_def)
    from lru_push_front [OF this, of n] Suc.prems show ?case by simp
  qed
  then show ?thesis unfolding binit_def by blast
qed

section \<open>The cache of a process that runs alone\<close>

definition quiet :: "nat \<Rightarrow> 'a mach_scheme \<Rightarrow> bool" where
  "quiet p s \<longleftrightarrow> calm p s \<and> (\<forall>l. lock_free l s)"

lemma quietD: "quiet p s \<Longrightarrow> calm p s" "quiet p s \<Longrightarrow> lock_free l s" "quiet p s \<Longrightarrow> cpu_ok s"
  by (simp_all add: quiet_def calm_def)

lemma quiet_same_mach: "same_mach (settle s) t \<Longrightarrow> quiet p t = quiet p s"
  using calm_same_mach [of "settle s" t p] lock_free_same_mach [of "settle s" t] by (simp add: quiet_def)

text \<open>
  Every buffer is in the list; what is valid is of the one disk there is; a buffer that nobody
  refers to is unlocked and agrees with the disk; no two buffers hold the same block of a device.
  Device 0 is what a fresh buffer claims to hold.
\<close>

abbreviation (input) ROOTDEV :: u32 where "ROOTDEV \<equiv> 1"

definition cache_ok :: "nat list \<Rightarrow> 'a vdisk_scheme \<Rightarrow> bool" where
  "cache_ok xs s \<longleftrightarrow> lru s xs \<and> set xs = {..<NBUF} \<and> disk_idle s \<and>
     (\<forall>b < NBUF. length (bdata s b) = BSIZE \<and> (bvalid (bufs s b) \<longrightarrow> bdev (bufs s b) = ROOTDEV) \<and>
        (refcnt (bufs s b) = 0 \<longrightarrow> \<not> slocked (slocks s (SBuf b)) \<and>
          (bvalid (bufs s b) \<longrightarrow> bdata s b = disk_block (medium (vqueue s)) (blockno (bufs s b))))) \<and>
     (\<forall>b < NBUF. \<forall>c < NBUF. bdev (bufs s b) \<noteq> 0 \<and> bdev (bufs s b) = bdev (bufs s c) \<and>
        blockno (bufs s b) = blockno (bufs s c) \<longrightarrow> b = c)"

definition holds_block :: "'a vdisk_scheme \<Rightarrow> u32 \<Rightarrow> u32 \<Rightarrow> nat \<Rightarrow> bool" where
  "holds_block s dev bno b \<longleftrightarrow> bdev (bufs s b) = dev \<and> blockno (bufs s b) = bno"

definition buf_ids :: "nat list" where
  "buf_ids = [0..<NBUF]"

lemma set_buf_ids [simp]: "set buf_ids = {..<NBUF}"
  unfolding buf_ids_def set_upt by auto

text \<open>The contents of a block as the kernel sees it: the cached copy, else the disk.\<close>

definition content :: "'a vdisk_scheme \<Rightarrow> u32 \<Rightarrow> u32 \<Rightarrow> u8 list" where
  "content s dev bno =
     (case List.find (\<lambda>b. bvalid (bufs s b) \<and> holds_block s dev bno b) buf_ids of
        Some b \<Rightarrow> bdata s b
      | None \<Rightarrow> disk_block (medium (vqueue s)) bno)"

lemma find_SomeD: "List.find P xs = Some x \<Longrightarrow> x \<in> set xs \<and> P x"
  by (induction xs) (auto split: if_splits)

lemma find_unique:
  assumes "x \<in> set xs" and "P x" and "\<And>y. y \<in> set xs \<Longrightarrow> P y \<Longrightarrow> y = x"
  shows "List.find P xs = Some x"
  using assms
proof (induction xs)
  case (Cons a xs)
  show ?case
  proof (cases "P a")
    case True
    then have "a = x" by (intro Cons.prems(3)) simp_all
    with True show ?thesis by simp
  next
    case False
    then have "x \<in> set xs" using Cons.prems(1,2) by auto
    moreover have "\<And>y. y \<in> set xs \<Longrightarrow> P y \<Longrightarrow> y = x" by (rule Cons.prems(3)) simp_all
    ultimately have "List.find P xs = Some x" by (rule Cons.IH [OF _ Cons.prems(2)])
    with False show ?thesis by simp
  qed
qed simp

lemma cache_okD:
  assumes "cache_ok xs s"
  shows "lru s xs" "set xs = {..<NBUF}" "length xs = NBUF" "disk_idle s" "distinct xs"
    "\<And>b. b < NBUF \<Longrightarrow> length (bdata s b) = BSIZE"
    "\<And>b. b < NBUF \<Longrightarrow> refcnt (bufs s b) = 0 \<Longrightarrow> \<not> slocked (slocks s (SBuf b))"
    "\<And>b. b < NBUF \<Longrightarrow> refcnt (bufs s b) = 0 \<Longrightarrow> bvalid (bufs s b) \<Longrightarrow>
       bdata s b = disk_block (medium (vqueue s)) (blockno (bufs s b))"
    "\<And>b c dev bno. b < NBUF \<Longrightarrow> c < NBUF \<Longrightarrow> dev \<noteq> 0 \<Longrightarrow> holds_block s dev bno b \<Longrightarrow> holds_block s dev bno c \<Longrightarrow> b = c"
    "\<And>b. b < NBUF \<Longrightarrow> bvalid (bufs s b) \<Longrightarrow> bdev (bufs s b) = ROOTDEV"
proof -
  show l: "lru s xs" and x: "set xs = {..<NBUF}" and "disk_idle s" using assms by (simp_all add: cache_ok_def)
  from l show d: "distinct xs" by (simp add: lru_def)
  from distinct_card [OF d] x show "length xs = NBUF" by simp
qed (use assms in \<open>auto simp: cache_ok_def holds_block_def\<close>)

lemma content_cached:
  assumes "cache_ok xs s" and "dev \<noteq> 0" and "b < NBUF" and "holds_block s dev bno b" and "bvalid (bufs s b)"
  shows "content s dev bno = bdata s b"
proof -
  have "List.find (\<lambda>b. bvalid (bufs s b) \<and> holds_block s dev bno b) buf_ids = Some b"
  proof (rule find_unique)
    show "c = b" if "c \<in> set buf_ids" "bvalid (bufs s c) \<and> holds_block s dev bno c" for c
      using cache_okD(9) [OF assms(1) _ assms(3,2) _ assms(4), of c] that by simp
  qed (use assms(3-5) in simp_all)
  then show ?thesis by (simp add: content_def)
qed

lemma content_uncached:
  assumes "\<And>b. b < NBUF \<Longrightarrow> holds_block s dev bno b \<Longrightarrow> \<not> bvalid (bufs s b)"
  shows "content s dev bno = disk_block (medium (vqueue s)) bno"
proof -
  have "List.find (\<lambda>b. bvalid (bufs s b) \<and> holds_block s dev bno b) buf_ids = None"
    unfolding find_None_iff using assms by auto
  then show ?thesis by (simp add: content_def)
qed

definition lock_buf :: "nat \<Rightarrow> nat \<Rightarrow> 'a slk_scheme \<Rightarrow> sleepid \<Rightarrow> sleeplock" where
  "lock_buf p b s = (slocks s)(SBuf b := (slocks s (SBuf b))\<lparr>slocked := True, slpid := pid (procs s p)\<rparr>)"

lemma lru_frame [simp]: "lru (settle s) xs = lru s xs" "lru (grab l s) xs = lru s xs"
  by (simp_all add: lru_def)

lemma release_lock_buf:
  assumes "quiet p s" and "\<not> slocked (slocks s (SBuf b))"
  shows "bindR (release LBcache (set_buf b f (grab LBcache s))) (\<lambda>s. bindR (acquiresleep (SBuf b) s) (\<lambda>s. Ok (b, s)))
    = Ok (b, (settle s)\<lparr>bufs := (bufs s)(b := f (bufs s b)), slocks := lock_buf p b s\<rparr>)"
proof -
  note ok = quietD(3) [OF assms(1)] quietD(2) [OF assms(1), of LBcache]
  let ?u = "(settle s)\<lparr>bufs := (bufs s)(b := f (bufs s b))\<rparr>"
  have "release LBcache (set_buf b f (grab LBcache s)) = Ok ?u"
    by (simp add: set_buf_def release_section [OF ok] at_mach_grab)
  moreover have "acquiresleep (SBuf b) ?u = Ok (?u\<lparr>slocks := lock_buf p b s\<rparr>)"
    using acquiresleep_eq [of p ?u "SBuf b"] quietD [OF assms(1)] assms(2) by (simp add: lock_buf_def)
  ultimately show ?thesis by simp
qed

lemma bget_hit:
  assumes "quiet p s" and "cache_ok xs s" and "dev \<noteq> 0" and "b < NBUF" and "holds_block s dev bno b"
    and "\<not> slocked (slocks s (SBuf b))"
  shows "bget dev bno s = Ok (b, (settle s)\<lparr>bufs := (bufs s)(b := (bufs s b)\<lparr>refcnt := refcnt (bufs s b) + 1\<rparr>),
           slocks := lock_buf p b s\<rparr>)"
proof -
  have "List.find (\<lambda>b. bdev (bufs s b) = dev \<and> blockno (bufs s b) = bno) xs = Some b"
  proof (rule find_unique)
    show "c = b" if "c \<in> set xs" "bdev (bufs s c) = dev \<and> blockno (bufs s c) = bno" for c
      using cache_okD(9) [OF assms(2) _ assms(4,3) _ assms(5), of c] that cache_okD(2) [OF assms(2)]
      by (simp add: holds_block_def)
  qed (use assms(4,5) cache_okD(2) [OF assms(2)] in \<open>simp_all add: holds_block_def\<close>)
  then show ?thesis
    using bget_searches(1) [of "grab LBcache s" xs dev bno] cache_okD(1,3) [OF assms(2)]
      release_lock_buf [OF assms(1,6), of "\<lambda>x. x\<lparr>refcnt := refcnt x + 1\<rparr>"]
    by (simp add: bget_def acquire_free [OF quietD(2) [OF assms(1)]])
qed

lemma bget_search_miss:
  assumes "cache_ok xs s" and "\<And>b. b < NBUF \<Longrightarrow> \<not> holds_block s dev bno b"
  shows "List.find (\<lambda>b. bdev (bufs s b) = dev \<and> blockno (bufs s b) = bno) xs = None"
  unfolding find_None_iff using assms(2) cache_okD(2) [OF assms(1)] by (auto simp: holds_block_def)

lemma bget_miss:
  assumes "quiet p s" and "cache_ok xs s" and "\<And>b. b < NBUF \<Longrightarrow> \<not> holds_block s dev bno b"
    and "List.find (\<lambda>b. refcnt (bufs s b) = 0) (rev xs) = Some b"
  shows "bget dev bno s = Ok (b, (settle s)\<lparr>bufs := (bufs s)(b := (bufs s b)\<lparr>bdev := dev, blockno := bno,
           bvalid := False, refcnt := 1\<rparr>), slocks := lock_buf p b s\<rparr>)"
proof -
  have "b \<in> set (rev xs)" "refcnt (bufs s b) = 0" using find_SomeD [OF assms(4)] by simp_all
  then have "\<not> slocked (slocks s (SBuf b))" using cache_okD(2,7) [OF assms(2)] by auto
  from release_lock_buf [OF assms(1) this, of "\<lambda>x. x\<lparr>bdev := dev, blockno := bno, bvalid := False, refcnt := 1\<rparr>"]
  show ?thesis
    using bget_searches(1) [of "grab LBcache s" xs dev bno] bget_searches(2) [of "grab LBcache s" xs] cache_okD(1,3) [OF assms(2)]
      bget_search_miss [OF assms(2,3)] assms(4)
    by (simp add: bget_def acquire_free [OF quietD(2) [OF assms(1)]])
qed

lemma bget_full:
  assumes "quiet p s" and "cache_ok xs s" and "\<And>b. b < NBUF \<Longrightarrow> \<not> holds_block s dev bno b"
    and "\<And>b. b < NBUF \<Longrightarrow> refcnt (bufs s b) \<noteq> 0"
  shows "bget dev bno s = Panic ''bget: no buffers''"
proof -
  have "List.find (\<lambda>b. refcnt (bufs s b) = 0) (rev xs) = None"
    unfolding find_None_iff using assms(4) cache_okD(2) [OF assms(2)] by auto
  then show ?thesis
    using bget_searches(1) [of "grab LBcache s" xs dev bno] bget_searches(2) [of "grab LBcache s" xs] cache_okD(1,3) [OF assms(2)]
      bget_search_miss [OF assms(2,3)]
    by (simp add: bget_def acquire_free [OF quietD(2) [OF assms(1)]])
qed

lemma vdisk_more_frame [simp]: "vdisk.more (settle s) = vdisk.more s" "vdisk.more (grab l s) = vdisk.more s"
  by (simp_all add: settle_def grab_def)

text \<open>What a routine of the cache leaves alone.\<close>

definition disk_frame :: "'a vdisk_scheme \<Rightarrow> 'a vdisk_scheme \<Rightarrow> bool" where
  "disk_frame s t \<longleftrightarrow> same_mach (settle s) t \<and> vdisk.more t = vdisk.more s \<and> only_states (procs s) (procs t) \<and>
     vdev t = vdev s \<and> mem t = mem s \<and> freelist t = freelist s \<and> img t = img s \<and>
     (\<forall>i. slocks t (SInode i) = slocks s (SInode i))"

lemma disk_frame_trans:
  assumes "disk_frame s t" and "disk_frame t u"
  shows "disk_frame s u"
proof -
  have "settle t = t" using assms(1) by (auto simp: disk_frame_def intro: settle_same_mach)
  then show ?thesis
    using assms only_states_trans [of "procs s" "procs t" "procs u"]
    by (simp add: disk_frame_def same_mach_def)
qed

lemma disk_frame_quiet: "disk_frame s t \<Longrightarrow> quiet p t = quiet p s"
  by (rule quiet_same_mach) (simp add: disk_frame_def)

lemma disk_frame_pid: "disk_frame s t \<Longrightarrow> pid (procs t i) = pid (procs s i)"
  by (simp add: disk_frame_def only_statesD(1))

text \<open>One buffer with its data and its lock, but for the links.\<close>

definition slot :: "'a vdisk_scheme \<Rightarrow> nat \<Rightarrow> bool \<times> u32 \<times> u32 \<times> u32 \<times> u8 list \<times> sleeplock" where
  "slot s b = (let x = bufs s b in (bvalid x, bdev x, blockno x, refcnt x, bdata s b, slocks s (SBuf b)))"

definition held :: "nat \<Rightarrow> nat \<Rightarrow> 'a slk_scheme \<Rightarrow> bool" where
  "held p b s \<longleftrightarrow> slocked (slocks s (SBuf b)) \<and> slpid (slocks s (SBuf b)) = pid (procs s p)"

lemma bread_valid_hit:
  assumes "quiet p s" and "cache_ok xs s" and "dev \<noteq> 0" and "b < NBUF" and "holds_block s dev bno b"
    and "\<not> slocked (slocks s (SBuf b))" and "bvalid (bufs s b)"
  shows "bread dev bno s = Ok (b, (settle s)\<lparr>bufs := (bufs s)(b := (bufs s b)\<lparr>refcnt := refcnt (bufs s b) + 1\<rparr>),
           slocks := lock_buf p b s\<rparr>)"
  using assms(7) by (simp add: bread_def bget_hit [OF assms(1-6)])

text \<open>Filling a buffer that has just been taken.\<close>

lemma bread_fill:
  assumes "calm p u" and "\<And>l. lock_free l u" and "disk_idle u" and "vdev_ok cap (vdev u)" and "cap \<le> 2 ^ 31"
    and "unat (blockno (bufs u b)) < cap" and "length (bdata u b) = BSIZE"
    and "bget dev bno s = Ok (b, u)" and "\<not> bvalid (bufs u b)"
  shows "\<exists>t. bread dev bno s = Ok (b, t) \<and> disk_frame u t \<and> disk_idle t \<and>
    bufs t = (bufs u)(b := (bufs u b)\<lparr>bdisk := False, bvalid := True\<rparr>) \<and> slocks t = slocks u \<and>
    medium (vqueue t) = medium (vqueue u) \<and>
    bdata t = (bdata u)(b := disk_block (medium (vqueue u)) (blockno (bufs u b)))"
  using virtio_disk_rw_ok [OF assms(1) assms(2) [of LDisk] assms(3,4,6,5,7), of False] assms(3,8,9)
  by (auto simp: bread_def set_buf_def disk_frame_def disk_idle_def bdata_def fun_eq_iff)

text \<open>The invariant after a change of one buffer that is in use.\<close>

lemma cache_ok_update:
  assumes "cache_ok xs s" and "disk_idle t" and "medium (vqueue t) = medium (vqueue s)"
    and "\<And>c. c < NBUF \<Longrightarrow> c \<noteq> b \<Longrightarrow> slot t c = slot s c" and "bufs t = (bufs s)(b := B)"
    and "bnext B = bnext (bufs s b)" "bprev B = bprev (bufs s b)" and "refcnt B \<noteq> 0" and "length (bdata t b) = BSIZE"
    and "bvalid B \<Longrightarrow> bdev B = ROOTDEV"
    and "\<And>c. c < NBUF \<Longrightarrow> c \<noteq> b \<Longrightarrow> bdev B \<noteq> 0 \<Longrightarrow> \<not> holds_block s (bdev B) (blockno B) c"
  shows "cache_ok xs t"
proof -
  have l: "lru t xs" using cache_okD(1) [OF assms(1)] by (simp add: lru_cong [of t s] assms(5-7))
  have sl: "bufs t c = bufs s c" "bdata t c = bdata s c" "slocks t (SBuf c) = slocks s (SBuf c)"
    if "c < NBUF" "c \<noteq> b" for c
    using assms(4) [OF that] that(2) by (simp_all add: slot_def assms(5) Let_def)
  have "length (bdata t c) = BSIZE \<and> (bvalid (bufs t c) \<longrightarrow> bdev (bufs t c) = ROOTDEV) \<and> (refcnt (bufs t c) = 0 \<longrightarrow> \<not> slocked (slocks t (SBuf c)) \<and>
      (bvalid (bufs t c) \<longrightarrow> bdata t c = disk_block (medium (vqueue t)) (blockno (bufs t c))))" if "c < NBUF" for c
    using that cache_okD(6-8,10) [OF assms(1) that] sl [OF that] assms(3,5,8-10) by (cases "c = b") auto
  moreover have "c = e" if "c < NBUF" "e < NBUF" "bdev (bufs t c) \<noteq> 0" "bdev (bufs t c) = bdev (bufs t e)"
      "blockno (bufs t c) = blockno (bufs t e)" for c e
  proof (rule ccontr)
    assume ne: "c \<noteq> e"
    then consider "c = b" "e \<noteq> b" | "e = b" "c \<noteq> b" | "c \<noteq> b" "e \<noteq> b" by blast
    then show False
    proof cases
      case 1
      then show ?thesis using assms(11) [of e] that by (simp add: assms(5) holds_block_def)
    next
      case 2
      then show ?thesis using assms(11) [of c] that by (simp add: assms(5) holds_block_def)
    next
      case 3
      have "c = e"
        by (rule cache_okD(9) [OF assms(1), of c e "bdev (bufs s c)" "blockno (bufs s c)"])
           (use 3 that in \<open>simp_all add: assms(5) holds_block_def\<close>)
      with ne show ?thesis by simp
    qed
  qed
  ultimately show ?thesis using l cache_okD(2) [OF assms(1)] assms(2) unfolding cache_ok_def by blast
qed

text \<open>
  What \<open>bread\<close> promises: a locked buffer with the contents of the block; the disk and all other
  buffers are as before.
\<close>

definition bread_post :: "nat \<Rightarrow> nat list \<Rightarrow> u32 \<Rightarrow> u32 \<Rightarrow> 'a vdisk_scheme \<Rightarrow> nat \<Rightarrow> 'a vdisk_scheme \<Rightarrow> bool" where
  "bread_post p xs dev bno s b t \<longleftrightarrow> b < NBUF \<and> disk_frame s t \<and> cache_ok xs t \<and> held p b t \<and>
     bvalid (bufs t b) \<and> holds_block t dev bno b \<and> bdata t b = content s dev bno \<and>
     (\<forall>c < NBUF. c \<noteq> b \<longrightarrow> slot t c = slot s c) \<and> medium (vqueue t) = medium (vqueue s) \<and>
     (holds_block s dev bno b \<and> refcnt (bufs t b) = refcnt (bufs s b) + 1 \<or>
      refcnt (bufs s b) = 0 \<and> refcnt (bufs t b) = 1 \<and> (\<forall>c < NBUF. \<not> holds_block s dev bno c))"

text \<open>A block can be read: it is cached and nobody has it locked, or there is room for it.\<close>

definition readable_block :: "'a vdisk_scheme \<Rightarrow> u32 \<Rightarrow> u32 \<Rightarrow> bool" where
  "readable_block s dev bno \<longleftrightarrow>
     (\<exists>b < NBUF. holds_block s dev bno b \<and> \<not> slocked (slocks s (SBuf b)) \<and> refcnt (bufs s b) + 1 \<noteq> 0) \<or>
     (\<forall>b < NBUF. \<not> holds_block s dev bno b) \<and> (\<exists>b < NBUF. refcnt (bufs s b) = 0)"

lemma slot_lock_buf:
  "c \<noteq> b \<Longrightarrow> slot ((settle s)\<lparr>bufs := (bufs s)(b := B), slocks := lock_buf p b s\<rparr>) c = slot s c"
  by (simp add: slot_def bdata_def lock_buf_def Let_def)

lemma disk_frame_lock_buf: "disk_frame s ((settle s)\<lparr>bufs := (bufs s)(b := B), slocks := lock_buf p b s\<rparr>)"
  by (simp add: disk_frame_def lock_buf_def)

lemma held_lock_buf: "held p b ((settle s)\<lparr>bufs := (bufs s)(b := B), slocks := lock_buf p b s\<rparr>)"
  by (simp add: held_def lock_buf_def)

lemma bread_post_hit:
  assumes "cache_ok xs s" and "dev \<noteq> 0" and "b < NBUF" and "holds_block s dev bno b"
    and "bvalid (bufs s b)" and "refcnt (bufs s b) + 1 \<noteq> 0"
  shows "bread_post p xs dev bno s b ((settle s)\<lparr>bufs := (bufs s)(b := (bufs s b)\<lparr>refcnt := refcnt (bufs s b) + 1\<rparr>),
           slocks := lock_buf p b s\<rparr>)" (is "bread_post _ _ _ _ _ _ ?t")
proof -
  have "cache_ok xs ?t"
  proof (rule cache_ok_update [OF assms(1), of _ b])
    show "\<not> holds_block s (bdev ((bufs s b)\<lparr>refcnt := refcnt (bufs s b) + 1\<rparr>))
        (blockno ((bufs s b)\<lparr>refcnt := refcnt (bufs s b) + 1\<rparr>)) c"
      if "c < NBUF" "c \<noteq> b" for c
      using that cache_okD(9) [OF assms(1) that(1) assms(3,2) _ assms(4)] assms(4) by (auto simp: holds_block_def)
  qed (use cache_okD(4,6,10) [OF assms(1)] assms(3,6) in \<open>simp_all add: slot_lock_buf disk_idle_def bdata_def\<close>)
  then show ?thesis
    unfolding bread_post_def
    using assms(3-5) content_cached [OF assms(1-5)]
    by (simp add: holds_block_def bdata_def disk_frame_lock_buf held_lock_buf slot_lock_buf)
qed

lemma bread_post_fill:
  assumes "cache_ok xs s" and "dev = ROOTDEV" and "b < NBUF"
    and B: "bdev B = dev" "blockno B = bno" "refcnt B \<noteq> 0" "bnext B = bnext (bufs s b)" "bprev B = bprev (bufs s b)"
    and u: "u = (settle s)\<lparr>bufs := (bufs s)(b := B), slocks := lock_buf p b s\<rparr>"
    and t: "disk_frame u t" "disk_idle t" "bufs t = (bufs u)(b := (bufs u b)\<lparr>bdisk := False, bvalid := True\<rparr>)"
      "slocks t = slocks u" "medium (vqueue t) = medium (vqueue u)"
      "bdata t = (bdata u)(b := disk_block (medium (vqueue u)) (blockno (bufs u b)))"
    and h: "\<And>c. c < NBUF \<Longrightarrow> c \<noteq> b \<Longrightarrow> \<not> holds_block s dev bno c"
    and i: "holds_block s dev bno b \<Longrightarrow> \<not> bvalid (bufs s b)"
    and r: "holds_block s dev bno b \<and> refcnt B = refcnt (bufs s b) + 1 \<or>
      refcnt (bufs s b) = 0 \<and> refcnt B = 1 \<and> \<not> holds_block s dev bno b"
  shows "bread_post p xs dev bno s b t"
proof -
  have sl: "slot t c = slot s c" if "c \<noteq> b" for c
    using that slot_lock_buf [OF that, where s = s and B = B and p = p] by (simp add: slot_def Let_def t(3,4,6) u)
  have "length (bdata t b) = BSIZE" by (simp add: t(6) disk_block_def load_bytes_def)
  then have "cache_ok xs t"
    using cache_ok_update [OF assms(1) t(2), of b "B\<lparr>bdisk := False, bvalid := True\<rparr>"] sl h B t(3,5) u assms(2)
    by simp
  moreover have "content s dev bno = disk_block (medium (vqueue s)) bno"
    by (rule content_uncached) (use h i in blast)
  moreover have "disk_frame s t"
    using disk_frame_trans [OF disk_frame_lock_buf [where s = s and b = b and B = B and p = p], of t] t(1) u by simp
  moreover have "held p b t"
    using held_lock_buf [where s = s and b = b and B = B and p = p] disk_frame_pid [OF t(1), of p] t(4) u by (simp add: held_def)
  ultimately show ?thesis
    unfolding bread_post_def using assms(3) sl B t(3,5,6) u h r
    by (auto simp: holds_block_def)
qed

lemma bread_spec:
  assumes q: "quiet p s" and c: "cache_ok xs s" and v: "vdev_ok cap (vdev s)" "cap \<le> 2 ^ 31"
    and d: "dev = ROOTDEV" "unat bno < cap" and av: "readable_block s dev bno"
  shows "\<exists>b t. bread dev bno s = Ok (b, t) \<and> bread_post p xs dev bno s b t"
proof -
  have d0: "dev \<noteq> 0" using d(1) by simp
  have fill: "\<exists>b t. bread dev bno s = Ok (b, t) \<and> bread_post p xs dev bno s b t"
    if "bget dev bno s = Ok (b, u)" "u = (settle s)\<lparr>bufs := (bufs s)(b := B), slocks := lock_buf p b s\<rparr>"
      "b < NBUF" "bdev B = dev" "blockno B = bno" "refcnt B \<noteq> 0" "bnext B = bnext (bufs s b)" "bprev B = bprev (bufs s b)"
      "\<not> bvalid B" "\<And>c. c < NBUF \<Longrightarrow> c \<noteq> b \<Longrightarrow> \<not> holds_block s dev bno c"
      "holds_block s dev bno b \<Longrightarrow> \<not> bvalid (bufs s b)"
      "holds_block s dev bno b \<and> refcnt B = refcnt (bufs s b) + 1 \<or>
         refcnt (bufs s b) = 0 \<and> refcnt B = 1 \<and> \<not> holds_block s dev bno b" for b u B
  proof -
    have "\<exists>t. bread dev bno s = Ok (b, t) \<and> disk_frame u t \<and> disk_idle t \<and>
      bufs t = (bufs u)(b := (bufs u b)\<lparr>bdisk := False, bvalid := True\<rparr>) \<and> slocks t = slocks u \<and>
      medium (vqueue t) = medium (vqueue u) \<and>
      bdata t = (bdata u)(b := disk_block (medium (vqueue u)) (blockno (bufs u b)))"
    proof (rule bread_fill)
      show "bget dev bno s = Ok (b, u)" by (rule that(1))
    qed (use quietD [OF q] cache_okD(4,6) [OF c] v d that(2-9) in \<open>simp_all add: disk_idle_def bdata_def\<close>)
    then show ?thesis using bread_post_fill [OF c d(1) that(3-8,2)] that(10-12) by blast
  qed
  from av [unfolded readable_block_def] show ?thesis
  proof
    assume "\<exists>b < NBUF. holds_block s dev bno b \<and> \<not> slocked (slocks s (SBuf b)) \<and> refcnt (bufs s b) + 1 \<noteq> 0"
    then obtain b where b: "b < NBUF" "holds_block s dev bno b" "\<not> slocked (slocks s (SBuf b))"
      "refcnt (bufs s b) + 1 \<noteq> 0" by blast
    show ?thesis
    proof (cases "bvalid (bufs s b)")
      case True
      show ?thesis using bread_valid_hit [OF q c d0 b(1-3) True] bread_post_hit [OF c d0 b(1,2) True b(4)] by blast
    next
      case False
      have "\<not> holds_block s dev bno e" if "e < NBUF" "e \<noteq> b" for e
        using cache_okD(9) [OF c that(1) b(1) d0 _ b(2)] that(2) by blast
      then show ?thesis
        using fill [OF bget_hit [OF q c d0 b(1-3)] refl b(1)] b False by (simp add: holds_block_def)
    qed
  next
    assume a: "(\<forall>b < NBUF. \<not> holds_block s dev bno b) \<and> (\<exists>b < NBUF. refcnt (bufs s b) = 0)"
    then have "List.find (\<lambda>b. refcnt (bufs s b) = 0) (rev xs) \<noteq> None"
      unfolding find_None_iff using cache_okD(2) [OF c] by auto
    then obtain b where b: "List.find (\<lambda>b. refcnt (bufs s b) = 0) (rev xs) = Some b" by blast
    have b': "b < NBUF" "refcnt (bufs s b) = 0" using find_SomeD [OF b] cache_okD(2) [OF c] by auto
    show ?thesis
      using fill [OF bget_miss [OF q c _ b] refl b'(1)] a b' by simp
  qed
qed

lemma bwrite_spec:
  assumes q: "quiet p s" and c: "cache_ok xs s" and v: "vdev_ok cap (vdev s)" "cap \<le> 2 ^ 31"
    and b: "b < NBUF" "held p b s" "bvalid (bufs s b)" "refcnt (bufs s b) \<noteq> 0" "unat (blockno (bufs s b)) < cap"
  shows "\<exists>t. bwrite b s = Ok t \<and> disk_frame s t \<and> cache_ok xs t \<and> (\<forall>c. slot t c = slot s c) \<and>
    (\<forall>n. disk_block (medium (vqueue t)) n
       = (if n = blockno (bufs s b) then bdata s b else disk_block (medium (vqueue s)) n))"
proof -
  have h: "holdingsleep (SBuf b) s = Ok (True, settle s)"
    using holdingsleep_eq [of p s "SBuf b"] quietD [OF q] b(2) by (simp add: held_def)
  have len: "length (bdata s b) = BSIZE" by (rule cache_okD(6) [OF c b(1)])
  obtain ps Q where w: "virtio_disk_rw b True (settle s) = Ok ((settle s)\<lparr>
      bufs := (bufs s)(b := (bufs s b)\<lparr>bdisk := False\<rparr>), vinfo := (vinfo s)(0 := None),
      mmio := mmio s @ [(''QUEUE_NOTIFY'', 0)], used_idx := used_idx s + 1, vqueue := Q, procs := ps\<rparr>)"
    (is "_ = Ok ?t")
    and Q: "only_states (procs s) ps" "ring_used_idx Q = ring_used_idx (vqueue s) + 1"
      "avail_idx Q = avail_idx (vqueue s) + 1"
      "medium Q = store_bytes (disk_addr (blockno (bufs s b))) (bdata s b) (medium (vqueue s))"
      "vdata Q = vdata (vqueue s)"
    using virtio_disk_rw_ok [of p "settle s" cap b True] quietD [OF q] cache_okD(4) [OF c] v b(5) len
    by (auto simp: disk_idle_def bdata_def)
  have m: "disk_block (medium Q) n = (if n = blockno (bufs s b) then bdata s b else disk_block (medium (vqueue s)) n)" for n
    using disk_block_store [OF len] by (simp add: Q(4))
  have sl: "slot ?t c = slot s c" for c by (simp add: slot_def Let_def bdata_def Q(5))
  have other: "blockno (bufs s e) \<noteq> blockno (bufs s b)" if "e < NBUF" "e \<noteq> b" "bvalid (bufs s e)" for e
    using cache_okD(9) [OF c that(1) b(1), of ROOTDEV] cache_okD(10) [OF c] that b(1,3) by (auto simp: holds_block_def)
  have "cache_ok xs ?t"
    unfolding cache_ok_def
  proof (intro conjI allI impI)
    show "lru ?t xs" using cache_okD(1) [OF c] by (simp add: lru_cong [of ?t s])
    show "disk_idle ?t" using cache_okD(4) [OF c] Q by (simp add: disk_idle_def)
    fix e assume e: "e < NBUF"
    show "length (bdata ?t e) = BSIZE" using cache_okD(6) [OF c e] by (simp add: bdata_def Q(5))
    show "bvalid (bufs ?t e) \<Longrightarrow> bdev (bufs ?t e) = ROOTDEV"
      using cache_okD(10) [OF c e] by (simp split: if_splits)
    assume "refcnt (bufs ?t e) = 0"
    then have r: "refcnt (bufs s e) = 0" "e \<noteq> b" using b(4) by (auto split: if_splits)
    show "\<not> slocked (slocks ?t (SBuf e))" using cache_okD(7) [OF c e r(1)] by simp
    show "bvalid (bufs ?t e) \<Longrightarrow> bdata ?t e = disk_block (medium (vqueue ?t)) (blockno (bufs ?t e))"
      using cache_okD(8) [OF c e r(1)] other [OF e r(2)] r(2) by (simp add: bdata_def Q(5) m)
  next
    fix e f assume "e < NBUF" "f < NBUF" "bdev (bufs ?t e) \<noteq> 0 \<and> bdev (bufs ?t e) = bdev (bufs ?t f) \<and>
      blockno (bufs ?t e) = blockno (bufs ?t f)"
    then show "e = f"
      by (intro cache_okD(9) [OF c, of e f "bdev (bufs s e)" "blockno (bufs s e)"])
         (auto simp: holds_block_def split: if_splits)
  qed (simp add: cache_okD(2) [OF c])
  moreover have "disk_frame s ?t" using Q(1) by (simp add: disk_frame_def)
  ultimately show ?thesis using h w sl m by (intro exI [of _ ?t]) (simp add: bwrite_def)
qed

text \<open>The links of the list are all that moving a buffer changes.\<close>

definition same_data :: "(nat \<Rightarrow> buf) \<Rightarrow> (nat \<Rightarrow> buf) \<Rightarrow> bool" where
  "same_data f g \<longleftrightarrow> (\<forall>c. bvalid (g c) = bvalid (f c) \<and> bdev (g c) = bdev (f c) \<and> blockno (g c) = blockno (f c) \<and>
     refcnt (g c) = refcnt (f c))"

definition relinks :: "'a vdisk_scheme \<Rightarrow> 'a vdisk_scheme \<Rightarrow> bool" where
  "relinks s t \<longleftrightarrow> (\<exists>F. t = s\<lparr>bufs := F\<rparr> \<and> same_data (bufs s) F)"

lemma relinks_trans: "relinks s t \<Longrightarrow> relinks t u \<Longrightarrow> relinks s u"
  by (auto simp: relinks_def same_data_def)

lemma relinks_set_buf [simp]:
  "relinks s (set_buf c (\<lambda>x. x\<lparr>bnext := n\<rparr>) s)" "relinks s (set_buf c (\<lambda>x. x\<lparr>bprev := n\<rparr>) s)"
  unfolding relinks_def set_buf_def by (rule exI, rule conjI, rule refl, simp add: same_data_def)+

lemma relinks_push_front: "relinks s (push_front b s)"
  unfolding push_front_def Let_def
  by (rule relinks_trans [OF relinks_trans [OF relinks_trans [OF relinks_set_buf(1) relinks_set_buf(2)]
        relinks_set_buf(2)] relinks_set_buf(1)])

lemma relinks_move_front: "relinks s (push_front b (unlink_buf b s))"
proof -
  have "relinks s (unlink_buf b s)"
    unfolding unlink_buf_def Let_def by (rule relinks_trans [OF relinks_set_buf(2) relinks_set_buf(1)])
  then show ?thesis using relinks_trans relinks_push_front by blast
qed

lemma lru_move_front:
  assumes "lru s xs" and "b \<in> set xs"
  shows "lru (push_front b (unlink_buf b s)) (b # remove1 b xs)"
proof -
  obtain us vs where x: "xs = us @ b # vs" "b \<notin> set us" using split_list_first [OF assms(2)] by blast
  then have "lru (unlink_buf b s) (us @ vs)" using assms(1) lru_unlink by blast
  moreover have "b \<notin> set (us @ vs)" "b \<noteq> bhead" using assms(1) x by (auto simp: lru_def)
  ultimately have "lru (push_front b (unlink_buf b s)) (b # us @ vs)" by (rule lru_push_front)
  then show ?thesis using x by (simp add: remove1_append)
qed

lemma cache_ok_relinked:
  assumes "cache_ok xs s" and "lru t ys" and "set ys = set xs" and "same_data (bufs s) (bufs t)"
    and "disk_idle t" and "bdata t = bdata s" and "slocks t = slocks s" and "medium (vqueue t) = medium (vqueue s)"
  shows "cache_ok ys t"
proof -
  have "bvalid (bufs t c) = bvalid (bufs s c)" "bdev (bufs t c) = bdev (bufs s c)" "blockno (bufs t c) = blockno (bufs s c)"
    "refcnt (bufs t c) = refcnt (bufs s c)" for c
    using assms(4) by (simp_all add: same_data_def)
  note eqs = this assms(3,6-8)
  show ?thesis using assms(1,2,5) unfolding cache_ok_def eqs by blast
qed

text \<open>The invariant after a reference to \<open>b\<close> has been dropped.\<close>

lemma cache_ok_dropped:
  assumes "cache_ok xs s" and "disk_idle t" and "medium (vqueue t) = medium (vqueue s)"
    and "\<And>c. c < NBUF \<Longrightarrow> c \<noteq> b \<Longrightarrow> slot t c = slot s c"
    and "bufs t = (bufs s)(b := (bufs s b)\<lparr>refcnt := r\<rparr>)" and "bdata t b = bdata s b"
    and "r = 0 \<Longrightarrow> \<not> slocked (slocks t (SBuf b))"
    and "r = 0 \<Longrightarrow> bvalid (bufs s b) \<Longrightarrow> bdata s b = disk_block (medium (vqueue s)) (blockno (bufs s b))"
  shows "cache_ok xs t"
  unfolding cache_ok_def
proof (intro conjI allI impI)
  show "lru t xs" using cache_okD(1) [OF assms(1)] by (simp add: lru_cong [of t s] assms(5))
  fix e assume e: "e < NBUF"
  have sl: "bdata t e = bdata s e" "e \<noteq> b \<Longrightarrow> slocks t (SBuf e) = slocks s (SBuf e)"
    using assms(4) [OF e] assms(6) by (cases "e = b"; simp add: slot_def Let_def)+
  show "length (bdata t e) = BSIZE" using cache_okD(6) [OF assms(1) e] sl by simp
  show "bvalid (bufs t e) \<Longrightarrow> bdev (bufs t e) = ROOTDEV"
    using cache_okD(10) [OF assms(1) e] by (simp add: assms(5) split: if_splits)
  assume r: "refcnt (bufs t e) = 0"
  show "\<not> slocked (slocks t (SBuf e))"
    using cache_okD(7) [OF assms(1) e] r assms(7) sl by (cases "e = b") (simp_all add: assms(5))
  show "bvalid (bufs t e) \<Longrightarrow> bdata t e = disk_block (medium (vqueue t)) (blockno (bufs t e))"
    using cache_okD(8) [OF assms(1) e] r assms(3,8) sl by (cases "e = b") (simp_all add: assms(5))
next
  fix e f assume "e < NBUF" "f < NBUF" "bdev (bufs t e) \<noteq> 0 \<and> bdev (bufs t e) = bdev (bufs t f) \<and>
    blockno (bufs t e) = blockno (bufs t f)"
  then show "e = f"
    by (intro cache_okD(9) [OF assms(1), of e f "bdev (bufs s e)" "blockno (bufs s e)"])
       (auto simp: holds_block_def assms(5) split: if_splits)
qed (use cache_okD(2) [OF assms(1)] assms(2) in simp_all)

lemma brelse_spec:
  assumes q: "quiet p s" and c: "cache_ok xs s" and b: "b < NBUF" "held p b s" "refcnt (bufs s b) \<noteq> 0"
    and clean: "refcnt (bufs s b) = 1 \<Longrightarrow> bvalid (bufs s b) \<Longrightarrow> bdata s b = disk_block (medium (vqueue s)) (blockno (bufs s b))"
  shows "\<exists>t. brelse b s = Ok t \<and> disk_frame s t \<and>
    cache_ok (if refcnt (bufs s b) = 1 then b # remove1 b xs else xs) t \<and>
    (\<forall>c < NBUF. c \<noteq> b \<longrightarrow> slot t c = slot s c) \<and> medium (vqueue t) = medium (vqueue s) \<and>
    slot t b = (bvalid (bufs s b), bdev (bufs s b), blockno (bufs s b), refcnt (bufs s b) - 1, bdata s b,
                (slocks s (SBuf b))\<lparr>slocked := False, slpid := 0\<rparr>)"
proof -
  let ?L = "(slocks s)(SBuf b := (slocks s (SBuf b))\<lparr>slocked := False, slpid := 0\<rparr>)"
  let ?P = "woken p (ChSleep (SBuf b)) (procs s)"
  let ?u = "(settle s)\<lparr>slocks := ?L, procs := ?P\<rparr>"
  let ?B = "(bufs s)(b := (bufs s b)\<lparr>refcnt := refcnt (bufs s b) - 1\<rparr>)"
  have h: "holdingsleep (SBuf b) s = Ok (True, settle s)"
    using holdingsleep_eq [of p s "SBuf b"] quietD [OF q] b(2) by (simp add: held_def)
  have r: "releasesleep (SBuf b) (settle s) = Ok ?u"
    using releasesleep_eq [of p "settle s" "SBuf b"] quietD [OF q] by simp
  have uo: "cpu_ok ?u" "lock_free LBcache ?u" "settle ?u = ?u"
    using quietD [OF q] calmD(1) [of p ?u] by simp_all
  let ?g = "(grab LBcache ?u)\<lparr>bufs := ?B\<rparr>"
  have "\<exists>F. (if refcnt (bufs s b) = 1 then push_front b (unlink_buf b ?g) else ?g) = ?g\<lparr>bufs := F\<rparr> \<and> same_data ?B F"
  proof (cases "refcnt (bufs s b) = 1")
    case True
    then show ?thesis using relinks_move_front [of ?g b] unfolding relinks_def by simp
  qed (auto simp: same_data_def intro!: exI [of _ ?B])
  then obtain F where F: "(if refcnt (bufs s b) = 1 then push_front b (unlink_buf b ?g) else ?g) = (grab LBcache ?u)\<lparr>bufs := F\<rparr>"
    and D: "same_data ?B F" by auto
  let ?t = "?u\<lparr>bufs := F\<rparr>"
  let ?ys = "if refcnt (bufs s b) = 1 then b # remove1 b xs else xs"
  have "brelse b s = Ok ?t"
    using F release_section [OF uo(1,2), of "(grab LBcache ?u)\<lparr>bufs := F\<rparr>"] at_mach_grab [of ?u LBcache] uo(3)
    by (simp add: brelse_def h r acquire_free [OF uo(2)] set_buf_def Let_def) (simp split: if_splits)
  moreover have "cache_ok ?ys ?t"
  proof -
    have "lru ?g xs" using cache_okD(1) [OF c] by (simp add: lru_cong [of ?g s])
    then have "lru (if refcnt (bufs s b) = 1 then push_front b (unlink_buf b ?g) else ?g) ?ys"
      using lru_move_front [of ?g xs b] cache_okD(2) [OF c] b(1) by (cases "refcnt (bufs s b) = 1") simp_all
    then have "lru ((grab LBcache ?u)\<lparr>bufs := F\<rparr>) ?ys" unfolding F .
    then have l: "lru ?t ?ys" by (simp add: lru_def)
    have x: "set ?ys = set xs" using cache_okD(2,5) [OF c] b(1) by auto
    have "cache_ok xs (?u\<lparr>bufs := ?B\<rparr>)"
    proof (rule cache_ok_dropped [OF c, where b = b and r = "refcnt (bufs s b) - 1"])
      assume "refcnt (bufs s b) - 1 = 0" and "bvalid (bufs s b)"
      then show "bdata s b = disk_block (medium (vqueue s)) (blockno (bufs s b))" using clean by fastforce
    qed (use cache_okD(4) [OF c] in \<open>simp_all add: bdata_def slot_def Let_def disk_idle_def\<close>)
    then show ?thesis
      by (rule cache_ok_relinked) (use l x D cache_okD(4) [OF c] in \<open>simp_all add: disk_idle_def bdata_def fun_eq_iff\<close>)
  qed
  moreover have "disk_frame s ?t" by (simp add: disk_frame_def)
  moreover have "slot ?t e = (if e = b then (bvalid (bufs s b), bdev (bufs s b), blockno (bufs s b), refcnt (bufs s b) - 1,
      bdata s b, (slocks s (SBuf b))\<lparr>slocked := False, slpid := 0\<rparr>) else slot s e)" for e
    using D by (simp add: slot_def Let_def same_data_def bdata_def)
  ultimately show ?thesis by (intro exI [of _ ?t]) simp
qed

text \<open>Reading a block through the cache changes the contents of none.\<close>

lemma content_cong:
  assumes "cache_ok xs s" and "cache_ok ys t" and "dev \<noteq> 0" and "medium (vqueue t) = medium (vqueue s)"
    and "\<And>c. c < NBUF \<Longrightarrow> bvalid (bufs t c) \<and> holds_block t dev n c \<longleftrightarrow> bvalid (bufs s c) \<and> holds_block s dev n c"
    and "\<And>c. c < NBUF \<Longrightarrow> bvalid (bufs t c) \<Longrightarrow> holds_block t dev n c \<Longrightarrow> bdata t c = bdata s c"
  shows "content t dev n = content s dev n"
proof (cases "\<exists>c < NBUF. bvalid (bufs t c) \<and> holds_block t dev n c")
  case True
  then obtain c where c: "c < NBUF" "bvalid (bufs t c)" "holds_block t dev n c" by blast
  with assms(5) have "bvalid (bufs s c)" "holds_block s dev n c" by blast+
  then show ?thesis
    using content_cached [OF assms(2,3) c(1,3,2)] content_cached [OF assms(1,3) c(1)] assms(6) [OF c] by simp
next
  case False
  then have "\<not> bvalid (bufs s c)" if "c < NBUF" "holds_block s dev n c" for c using assms(5) that by blast
  moreover have "\<not> bvalid (bufs t c)" if "c < NBUF" "holds_block t dev n c" for c using False that by blast
  ultimately show ?thesis using content_uncached [of s dev n] content_uncached [of t dev n] assms(4) by simp
qed

lemma bread_content:
  assumes "cache_ok xs s" and "bread_post p xs dev bno s b t" and "dev \<noteq> 0"
  shows "content t dev n = content s dev n"
proof -
  have t: "b < NBUF" "cache_ok xs t" "bvalid (bufs t b)" "holds_block t dev bno b" "bdata t b = content s dev bno"
    "\<And>c. c < NBUF \<Longrightarrow> c \<noteq> b \<Longrightarrow> slot t c = slot s c" "medium (vqueue t) = medium (vqueue s)"
    and r: "holds_block s dev bno b \<or> refcnt (bufs s b) = 0"
    using assms(2) by (auto simp: bread_post_def)
  show ?thesis
  proof (cases "n = bno")
    case True
    then show ?thesis using content_cached [OF t(2) assms(3) t(1,4,3)] t(5) by simp
  next
    case False
    have sl: "bvalid (bufs t c) = bvalid (bufs s c)" "holds_block t dev n c = holds_block s dev n c" "bdata t c = bdata s c"
      if "c < NBUF" "c \<noteq> b" for c
      using t(6) [OF that] by (simp_all add: slot_def Let_def holds_block_def)
    have nb: "\<not> holds_block t dev n b" using t(4) False by (simp add: holds_block_def)
    show ?thesis
    proof (cases "bvalid (bufs s b) \<and> holds_block s dev n b")
      case True
      then have "refcnt (bufs s b) = 0" using r False by (auto simp: holds_block_def)
      then have "bdata s b = disk_block (medium (vqueue s)) n"
        using cache_okD(8) [OF assms(1) t(1)] True by (simp add: holds_block_def)
      moreover have "content t dev n = disk_block (medium (vqueue t)) n"
      proof (rule content_uncached)
        fix c assume c: "c < NBUF" "holds_block t dev n c"
        then have "c \<noteq> b" using nb by blast
        with c sl have "holds_block s dev n c" by blast
        then have "c = b" using cache_okD(9) [OF assms(1) c(1) t(1) assms(3)] True by blast
        with \<open>c \<noteq> b\<close> show "\<not> bvalid (bufs t c)" by simp
      qed
      ultimately show ?thesis using content_cached [OF assms(1,3) t(1)] True t(7) by simp
    next
      case False
      show ?thesis
        by (rule content_cong [OF assms(1) t(2) assms(3) t(7)]) (use sl nb False in blast)+
    qed
  qed
qed

lemma bpin_eq:
  assumes "cpu_ok s" and "lock_free LBcache s"
  shows "bpin b s = Ok ((settle s)\<lparr>bufs := (bufs s)(b := (bufs s b)\<lparr>refcnt := refcnt (bufs s b) + 1\<rparr>)\<rparr>)"
  by (simp add: bpin_def acquire_free [OF assms(2)] set_buf_def release_section [OF assms] at_mach_grab)

lemma bunpin_eq:
  assumes "cpu_ok s" and "lock_free LBcache s"
  shows "bunpin b s = Ok ((settle s)\<lparr>bufs := (bufs s)(b := (bufs s b)\<lparr>refcnt := refcnt (bufs s b) - 1\<rparr>)\<rparr>)"
  by (simp add: bunpin_def acquire_free [OF assms(2)] set_buf_def release_section [OF assms] at_mach_grab)

section \<open>The cache after \<open>binit\<close>\<close>

text \<open>What the initialisation changes: links, and locks, which end up free.\<close>

definition binit_rel :: "nat \<Rightarrow> 'a vdisk_scheme \<Rightarrow> 'a vdisk_scheme \<Rightarrow> bool" where
  "binit_rel n s t \<longleftrightarrow> (\<exists>F L K. t = s\<lparr>bufs := F, slocks := L, locks := K\<rparr> \<and> same_data (bufs s) F \<and>
     (\<forall>b < n. \<not> slocked (L (SBuf b))) \<and> (\<forall>l. K l = locks s l \<or> \<not> locked (K l) \<and> lcpu (K l) = None))"

lemma binit_rel_push:
  assumes "binit_rel n s t"
  shows "binit_rel n s (push_front b t)"
proof -
  obtain F L K where t: "t = s\<lparr>bufs := F, slocks := L, locks := K\<rparr>" "same_data (bufs s) F"
    "\<forall>b < n. \<not> slocked (L (SBuf b))" "\<forall>l. K l = locks s l \<or> \<not> locked (K l) \<and> lcpu (K l) = None"
    using assms unfolding binit_rel_def by blast
  obtain G where G: "push_front b t = t\<lparr>bufs := G\<rparr>" "same_data (bufs t) G"
    using relinks_push_front [of t b] unfolding relinks_def by blast
  have "push_front b t = s\<lparr>bufs := G, slocks := L, locks := K\<rparr>" unfolding G(1) by (simp add: t(1))
  moreover have "same_data (bufs s) G" using t(2) G(2) by (simp add: t(1) same_data_def)
  ultimately show ?thesis using t(3,4) unfolding binit_rel_def by blast
qed

lemma binit_rel_lock:
  assumes "binit_rel n s t"
  shows "binit_rel (Suc n) s (initsleeplock (SBuf n) nm t)"
proof -
  obtain F L K where t: "t = s\<lparr>bufs := F, slocks := L, locks := K\<rparr>" "same_data (bufs s) F"
    "\<forall>b < n. \<not> slocked (L (SBuf b))" "\<forall>l. K l = locks s l \<or> \<not> locked (K l) \<and> lcpu (K l) = None"
    using assms unfolding binit_rel_def by blast
  let ?L = "L(SBuf n := \<lparr>slname = nm, slocked = False, slpid = 0\<rparr>)"
  let ?K = "K(LSleep (SBuf n) := \<lparr>lname = ''sleep lock'', locked = False, lcpu = None\<rparr>)"
  have "initsleeplock (SBuf n) nm t = s\<lparr>bufs := F, slocks := ?L, locks := ?K\<rparr>"
    by (simp add: t(1) initsleeplock_def set_slock_def initlock_def)
  moreover have "\<forall>b < Suc n. \<not> slocked (?L (SBuf b))" using t(3) by (auto simp: less_Suc_eq)
  moreover have "\<forall>l. ?K l = locks s l \<or> \<not> locked (?K l) \<and> lcpu (?K l) = None" using t(4) by simp
  ultimately show ?thesis using t(2) unfolding binit_rel_def by blast
qed

lemma binit_rest: "binit_rel NBUF s (binit s)"
proof -
  let ?f = "\<lambda>b s. push_front b (initsleeplock (SBuf b) ''buffer'' s)"
  let ?s = "set_buf bhead (\<lambda>x. x\<lparr>bprev := bhead, bnext := bhead\<rparr>) (initlock LBcache ''bcache'' s)"
  have start: "binit_rel 0 s ?s"
    unfolding binit_rel_def initlock_def set_buf_def same_data_def
    by (rule exI [of _ "(bufs s)(bhead := (bufs s bhead)\<lparr>bprev := bhead, bnext := bhead\<rparr>)"], rule exI [of _ "slocks s"],
        rule exI [of _ "(locks s)(LBcache := \<lparr>lname = ''bcache'', locked = False, lcpu = None\<rparr>)"]) simp
  have "binit_rel n s (fold ?f [0..<n] ?s)" for n
  proof (induction n)
    case (Suc n)
    then show ?case using binit_rel_push [OF binit_rel_lock] by simp
  qed (use start in simp)
  then show ?thesis unfolding binit_def .
qed

lemma binit_cache:
  assumes "disk_idle s" and "quiet p s"
    and "\<And>b. b < NBUF \<Longrightarrow> length (bdata s b) = BSIZE \<and> bdev (bufs s b) = 0 \<and> \<not> bvalid (bufs s b)"
  shows "cache_ok (rev [0..<NBUF]) (binit s) \<and> quiet p (binit s)"
proof -
  obtain F L K where b: "binit s = s\<lparr>bufs := F, slocks := L, locks := K\<rparr>" and F: "same_data (bufs s) F"
    and L: "\<forall>b < NBUF. \<not> slocked (L (SBuf b))" and K: "\<forall>l. K l = locks s l \<or> \<not> locked (K l) \<and> lcpu (K l) = None"
    using binit_rest [of s] unfolding binit_rel_def by blast
  have fr: "lock_free l (binit s)" for l
    using K [rule_format, of l] quietD(2) [OF assms(2), of l] by (auto simp: b lock_free_def)
  then have "quiet p (binit s)"
    using assms(2) by (simp add: quiet_def calm_def) (simp add: b cpu_ok_def mach_defs)
  moreover have "set (rev [0..<NBUF]) = {..<NBUF}" unfolding set_rev set_upt by auto
  moreover have "disk_idle (binit s)" using assms(1) by (simp add: b disk_idle_def)
  ultimately show ?thesis
    unfolding cache_ok_def using lru_binit [of s] L F assms(3)
    by (simp add: b same_data_def bdata_def)
qed

text \<open>A cache as \<open>binit\<close> leaves it.\<close>

definition fresh_bufs :: "(u64 \<Rightarrow> u8) \<Rightarrow> 'x \<Rightarrow> 'x vdisk_scheme" where
  "fresh_bufs med x = (demo_vdisk serve med x)\<lparr>bufs := (\<lambda>_. \<lparr>bvalid = False, bdisk = False,
     bdev = 0, blockno = 0, refcnt = 0, bprev = 0, bnext = 0\<rparr>)\<rparr>"

lemma fresh_bufs_simps:
  "disk_idle (fresh_bufs med x)" "quiet 3 (fresh_bufs med x)" "bdata (fresh_bufs med x) b = replicate BSIZE 5" "vdev (fresh_bufs med x) = serve"
  "bdev (bufs (fresh_bufs med x) b) = 0" "\<not> bvalid (bufs (fresh_bufs med x) b)" "refcnt (bufs (fresh_bufs med x) b) = 0"
  "medium (vqueue (fresh_bufs med x)) = med"
  by (simp_all add: fresh_bufs_def quiet_def demo_vdisk_simps)
     (simp_all add: disk_idle_def bdata_def demo_vdisk_simps [unfolded disk_idle_def bdata_def])

definition fresh_cache :: "(u64 \<Rightarrow> u8) \<Rightarrow> 'x \<Rightarrow> 'x vdisk_scheme" where
  "fresh_cache med x = binit (fresh_bufs med x)"

lemma fresh_cache_ok: "cache_ok (rev [0..<NBUF]) (fresh_cache med x)" "quiet 3 (fresh_cache med x)"
  using binit_cache [of "fresh_bufs med x" 3] by (simp_all add: fresh_bufs_simps fresh_cache_def)

lemma fresh_cache_simps:
  "vdev (fresh_cache med x) = serve" "bdev (bufs (fresh_cache med x) b) = 0" "refcnt (bufs (fresh_cache med x) b) = 0"
  "\<not> bvalid (bufs (fresh_cache med x) b)" "b < NBUF \<Longrightarrow> \<not> slocked (slocks (fresh_cache med x) (SBuf b))"
  "medium (vqueue (fresh_cache med x)) = med"
  using binit_rest [of "fresh_bufs med x"]
  by (auto simp: binit_rel_def same_data_def fresh_cache_def fresh_bufs_simps)

lemma fresh_cache_more: "vdisk.more (fresh_cache med x) = x" "settle (fresh_cache med x) = fresh_cache med x"
  using binit_rest [of "fresh_bufs med x"]
  by (auto simp: binit_rel_def fresh_cache_def fresh_bufs_def demo_vdisk_def init_ptab_def slk.defs ptab.defs vdisk.defs settle_def)

lemma fresh_cache_holds: "holds_block (fresh_cache med x) ROOTDEV n b \<longleftrightarrow> False"
  by (simp add: holds_block_def fresh_cache_simps)

section \<open>Properties of the cache\<close>

text \<open>C16. \<open>bget\<close> gives the buffer that caches the block if there is one; otherwise it recycles the least
  recently used buffer that nobody refers to, the last such one in the list; it panics exactly when
  there is none.  Either way the buffer is locked for the caller and counts one more reference.\<close>

theorem bget_least_recently_used:
  assumes "quiet p s" and "cache_ok xs s" and "dev \<noteq> 0" and "\<And>b. b < NBUF \<Longrightarrow> \<not> slocked (slocks s (SBuf b))"
  shows "(case List.find (holds_block s dev bno) xs of
       Some b \<Rightarrow> \<exists>t. bget dev bno s = Ok (b, t) \<and> held p b t \<and> refcnt (bufs t b) = refcnt (bufs s b) + 1
     | None \<Rightarrow>
         (case List.find (\<lambda>b. refcnt (bufs s b) = 0) (rev xs) of
            Some b \<Rightarrow> \<exists>t. bget dev bno s = Ok (b, t) \<and> held p b t \<and> refcnt (bufs t b) = 1 \<and>
                       holds_block t dev bno b \<and> \<not> bvalid (bufs t b)
          | None \<Rightarrow> bget dev bno s = Panic ''bget: no buffers''))"
proof (cases "List.find (holds_block s dev bno) xs")
  case (Some b)
  then have b: "b < NBUF" "holds_block s dev bno b" using find_SomeD [OF Some] cache_okD(2) [OF assms(2)] by auto
  show ?thesis
    using bget_hit [OF assms(1-3) b assms(4) [OF b(1)]] held_lock_buf [of p b s] Some by simp
next
  case None
  then have n: "\<not> holds_block s dev bno b" if "b < NBUF" for b
    using that cache_okD(2) [OF assms(2)] by (auto simp: find_None_iff)
  show ?thesis
  proof (cases "List.find (\<lambda>b. refcnt (bufs s b) = 0) (rev xs)")
    case none: None
    then have "refcnt (bufs s b) \<noteq> 0" if "b < NBUF" for b
      using that cache_okD(2) [OF assms(2)] by (auto simp: find_None_iff)
    then show ?thesis using bget_full [OF assms(1,2) n] None none by simp
  next
    case (Some b)
    then show ?thesis
      using bget_miss [OF assms(1,2) n Some] held_lock_buf [of p b s] None by (simp add: holds_block_def)
  qed
qed

theorem bget_least_recently_used_witness:
  "\<exists>t. bget ROOTDEV 5 (fresh_cache (\<lambda>_. 0) ()) = Ok (0, t) \<and> held 3 0 t \<and> refcnt (bufs t 0) = 1 \<and>
     holds_block t ROOTDEV 5 0 \<and> \<not> bvalid (bufs t 0)"
proof -
  have n: "List.find (holds_block (fresh_cache (\<lambda>_. 0) ()) ROOTDEV 5) (rev [0..<NBUF]) = None"
    unfolding find_None_iff by (simp add: fresh_cache_holds)
  have f: "List.find (\<lambda>b. refcnt (bufs (fresh_cache (\<lambda>_. 0) ()) b) = 0) (rev (rev [0..<NBUF])) = Some 0"
    unfolding rev_rev_ident by (subst upt_conv_Cons) (simp_all add: fresh_cache_simps)
  show ?thesis
    using bget_least_recently_used [OF fresh_cache_ok(2,1) [where med = "\<lambda>_. 0" and x = "()"], of ROOTDEV 5]
    unfolding n f by (simp add: fresh_cache_simps(5))
qed

text \<open>C17. \<open>bread\<close> returns a locked buffer with the contents of the block, whether it was cached or comes
  from the disk; the disk, every other buffer and the contents of every block are as before, and the
  invariant of the cache is kept.  \<open>brelse\<close> of that buffer gives the reference back.\<close>

theorem buffer_read:
  assumes "quiet p s" and "cache_ok xs s" and "vdev_ok cap (vdev s)" and "cap \<le> 2 ^ 31"
    and "unat bno < cap" and "readable_block s ROOTDEV bno"
  shows "\<exists>b t. bread ROOTDEV bno s = Ok (b, t) \<and> held p b t \<and> bdata t b = content s ROOTDEV bno \<and> cache_ok xs t \<and>
    medium (vqueue t) = medium (vqueue s) \<and> (\<forall>n. content t ROOTDEV n = content s ROOTDEV n) \<and>
    (\<forall>c < NBUF. c \<noteq> b \<longrightarrow> slot t c = slot s c) \<and>
    (refcnt (bufs t b) = 1 \<and> content s ROOTDEV bno = disk_block (medium (vqueue s)) bno \<longrightarrow>
       (\<exists>u. brelse b t = Ok u \<and> quiet p u \<and> cache_ok (b # remove1 b xs) u \<and> refcnt (bufs u b) = 0))"
proof -
  obtain b t where r: "bread ROOTDEV bno s = Ok (b, t)" and post: "bread_post p xs ROOTDEV bno s b t"
    using bread_spec [OF assms(1-4) refl assms(5,6)] by blast
  then have t: "b < NBUF" "disk_frame s t" "cache_ok xs t" "held p b t" "holds_block t ROOTDEV bno b"
    "bdata t b = content s ROOTDEV bno" "medium (vqueue t) = medium (vqueue s)"
    by (auto simp: bread_post_def)
  have "\<exists>u. brelse b t = Ok u \<and> quiet p u \<and> cache_ok (b # remove1 b xs) u \<and> refcnt (bufs u b) = 0"
    if r1: "refcnt (bufs t b) = 1" and c1: "content s ROOTDEV bno = disk_block (medium (vqueue s)) bno"
  proof -
    have q: "quiet p t" using disk_frame_quiet [OF t(2)] assms(1) by simp
    have r0: "refcnt (bufs t b) \<noteq> 0" using r1 by simp
    have "bdata t b = disk_block (medium (vqueue t)) (blockno (bufs t b))"
      using c1 t(5-7) by (simp add: holds_block_def)
    then obtain u where "brelse b t = Ok u" "disk_frame t u" "cache_ok (b # remove1 b xs) u" "fst (snd (snd (snd (slot u b)))) = 0"
      using brelse_spec [OF q t(3,1,4) r0] r1 by auto
    moreover from this have "quiet p u" using disk_frame_quiet q by blast
    ultimately show ?thesis by (auto simp: slot_def Let_def)
  qed
  then show ?thesis using r post bread_content [OF assms(2) post] t by (auto simp: bread_post_def)
qed

theorem buffer_read_witness:
  "\<exists>b t. bread ROOTDEV 5 (fresh_cache (\<lambda>_. 0) ()) = Ok (b, t) \<and> held 3 b t \<and> bdata t b = content (fresh_cache (\<lambda>_. 0) ()) ROOTDEV 5 \<and>
     cache_ok (rev [0..<NBUF]) t"
proof -
  have "readable_block (fresh_cache (\<lambda>_. 0) ()) ROOTDEV 5"
    unfolding readable_block_def by (auto simp: fresh_cache_holds fresh_cache_simps intro: exI [of _ 0])
  then show ?thesis
    using buffer_read [OF fresh_cache_ok(2,1) [where med = "\<lambda>_. 0" and x = "()"], of 1000 5] vdev_ok_def [of 1000 serve] by (auto simp: fresh_cache_simps)
qed

end
