(* ===== verification/Blocks.thy ===== *)
theory Blocks
  imports Bio
begin

text \<open>
  The buffer cache as its clients see it.  A state of the cache is abstracted to three functions of
  the block number: the contents that the kernel sees (\<open>content\<close>), the contents of the disk
  (\<open>dblock\<close>) and the number of references (\<open>refs\<close>); \<open>view\<close> adds which buffers the running process
  has locked.  Every routine of \<open>kernel/bio.c\<close> is described by what it does to these.
\<close>

definition dblock :: "'a vdisk_scheme \<Rightarrow> u32 \<Rightarrow> u8 list" where
  "dblock s n = disk_block (medium (vqueue s)) n"

definition refs :: "'a vdisk_scheme \<Rightarrow> u32 \<Rightarrow> nat" where
  "refs s n = (case List.find (holds_block s ROOTDEV n) buf_ids of
     Some b \<Rightarrow> unat (refcnt (bufs s b)) | None \<Rightarrow> 0)"

definition view :: "nat \<Rightarrow> nat \<Rightarrow> (u32 \<Rightarrow> nat option) \<Rightarrow> 'a vdisk_scheme \<Rightarrow> bool" where
  "view p cap h s \<longleftrightarrow> quiet p s \<and> (\<exists>xs. cache_ok xs s) \<and> vdev_ok cap (vdev s) \<and> cap \<le> 2 ^ 31 \<and>
     (\<forall>b < NBUF. refcnt (bufs s b) \<noteq> 0 \<longrightarrow> bvalid (bufs s b)) \<and>
     (\<forall>b < NBUF. slocked (slocks s (SBuf b)) \<longrightarrow> h (blockno (bufs s b)) = Some b) \<and>
     (\<forall>n b. h n = Some b \<longrightarrow> b < NBUF \<and> held p b s \<and> holds_block s ROOTDEV n b \<and> refcnt (bufs s b) \<noteq> 0)"

lemma viewD:
  assumes "view p cap h s"
  shows "quiet p s" "vdev_ok cap (vdev s)" "cap \<le> 2 ^ 31"
    "\<And>b. b < NBUF \<Longrightarrow> refcnt (bufs s b) \<noteq> 0 \<Longrightarrow> bvalid (bufs s b)"
    "\<And>b. b < NBUF \<Longrightarrow> slocked (slocks s (SBuf b)) \<Longrightarrow> h (blockno (bufs s b)) = Some b"
    "\<And>n b. h n = Some b \<Longrightarrow> b < NBUF" "\<And>n b. h n = Some b \<Longrightarrow> held p b s"
    "\<And>n b. h n = Some b \<Longrightarrow> holds_block s ROOTDEV n b" "\<And>n b. h n = Some b \<Longrightarrow> refcnt (bufs s b) \<noteq> 0"
    "\<And>n b. h n = Some b \<Longrightarrow> bvalid (bufs s b)"
  using assms by (auto simp: view_def)

lemma view_cache:
  assumes "view p cap h s"
  obtains xs where "cache_ok xs s"
  using assms by (auto simp: view_def)

lemma root_nz: "ROOTDEV \<noteq> (0 :: u32)" by simp

lemma holder_unique:
  assumes "cache_ok xs s" "b < NBUF" "c < NBUF" "holds_block s ROOTDEV n b" "holds_block s ROOTDEV n c"
  shows "c = b"
  using cache_okD(9) [OF assms(1,3,2) root_nz assms(5,4)] .

lemma refs_holder:
  assumes "cache_ok xs s" "b < NBUF" "holds_block s ROOTDEV n b"
  shows "refs s n = unat (refcnt (bufs s b))"
proof -
  have "List.find (holds_block s ROOTDEV n) buf_ids = Some b"
  proof (rule find_unique)
    show "c = b" if "c \<in> set buf_ids" "holds_block s ROOTDEV n c" for c
      using holder_unique [OF assms(1,2) _ assms(3) that(2)] that(1) by simp
  qed (use assms in simp_all)
  then show ?thesis by (simp add: refs_def)
qed

lemma refs_none:
  assumes "\<And>b. b < NBUF \<Longrightarrow> \<not> holds_block s ROOTDEV n b"
  shows "refs s n = 0"
proof -
  have "List.find (holds_block s ROOTDEV n) buf_ids = None"
    unfolding find_None_iff using assms by auto
  then show ?thesis by (simp add: refs_def)
qed

lemma refs_cases:
  assumes "cache_ok xs s"
  obtains b where "b < NBUF" "holds_block s ROOTDEV n b" "refs s n = unat (refcnt (bufs s b))"
  | "\<And>b. b < NBUF \<Longrightarrow> \<not> holds_block s ROOTDEV n b" "refs s n = 0"
proof (cases "\<exists>b < NBUF. holds_block s ROOTDEV n b")
  case True
  then show ?thesis using that(1) refs_holder [OF assms] by blast
next
  case False
  then have n: "\<not> holds_block s ROOTDEV n b" if "b < NBUF" for b using that by blast
  show ?thesis by (rule that(2) [OF n refs_none [OF n]])
qed

lemma refs_clean:
  assumes "view p cap h s" and "refs s n = 0"
  shows "content s ROOTDEV n = dblock s n"
proof -
  obtain xs where c: "cache_ok xs s" using assms(1) by (rule view_cache)
  from c show ?thesis
  proof (cases rule: refs_cases [where n = n])
    case (1 b)
    then have r: "refcnt (bufs s b) = 0" using assms(2) by (simp add: unat_eq_0)
    show ?thesis
    proof (cases "bvalid (bufs s b)")
      case True
      then show ?thesis
        using content_cached [OF c root_nz 1(1,2)] cache_okD(8) [OF c 1(1) r] 1(2) by (simp add: dblock_def holds_block_def)
    next
      case False
      then have "\<not> bvalid (bufs s e)" if "e < NBUF" "holds_block s ROOTDEV n e" for e
        using holder_unique [OF c 1(1) that(1) 1(2) that(2)] by simp
      then show ?thesis unfolding dblock_def by (rule content_uncached)
    qed
  next
    case 2
    show ?thesis unfolding dblock_def by (rule content_uncached) (use 2(1) in blast)
  qed
qed

lemma free_buf:
  assumes "view p cap h s" and "finite {n. refs s n \<noteq> 0}" and "card {n. refs s n \<noteq> 0} < NBUF"
  shows "\<exists>b < NBUF. refcnt (bufs s b) = 0"
proof (rule ccontr)
  assume "\<not> ?thesis"
  then have r: "refcnt (bufs s b) \<noteq> 0" if "b < NBUF" for b using that by blast
  obtain xs where c: "cache_ok xs s" using assms(1) by (rule view_cache)
  have h: "holds_block s ROOTDEV (blockno (bufs s b)) b" if "b < NBUF" for b
    using cache_okD(10) [OF c that] viewD(4) [OF assms(1) that r [OF that]] by (simp add: holds_block_def)
  have i: "inj_on (\<lambda>b. blockno (bufs s b)) {..<NBUF}"
  proof (rule inj_onI)
    fix b e assume "b \<in> {..<NBUF}" "e \<in> {..<NBUF}" and eq: "blockno (bufs s b) = blockno (bufs s e)"
    then have "b < NBUF" "e < NBUF" by simp_all
    then show "b = e" using holder_unique [OF c, of e b "blockno (bufs s e)"] h [of b] h [of e] eq by simp
  qed
  have "(\<lambda>b. blockno (bufs s b)) ` {..<NBUF} \<subseteq> {n. refs s n \<noteq> 0}"
    using refs_holder [OF c _ h] r by (auto simp: unat_gt_0)
  from card_mono [OF assms(2) this] card_image [OF i] have "NBUF \<le> card {n. refs s n \<noteq> 0}"
    unfolding card_lessThan by simp
  with assms(3) show False by simp
qed

lemma finite_refs [simp]: "finite {n. refs s n \<noteq> 0}"
proof -
  have "{n. refs s n \<noteq> 0} \<subseteq> (\<lambda>b. blockno (bufs s b)) ` {..<NBUF}"
  proof
    fix n assume "n \<in> {n. refs s n \<noteq> 0}"
    then obtain b where "List.find (holds_block s ROOTDEV n) buf_ids = Some b"
      by (auto simp: refs_def split: option.splits)
    from find_SomeD [OF this] show "n \<in> (\<lambda>b. blockno (bufs s b)) ` {..<NBUF}" by (auto simp: holds_block_def)
  qed
  then show ?thesis by (rule finite_subset) simp
qed

lemma view_readable:
  assumes "view p cap h s" and "h n = None" and "refs s n + 1 < 2 ^ 32"
    and "refs s n \<noteq> 0 \<or> card {n. refs s n \<noteq> 0} < NBUF"
  shows "readable_block s ROOTDEV n"
proof -
  obtain xs where c: "cache_ok xs s" using assms(1) by (rule view_cache)
  from c show ?thesis
  proof (cases rule: refs_cases [where n = n])
    case (1 b)
    have "\<not> slocked (slocks s (SBuf b))" using viewD(5) [OF assms(1) 1(1)] assms(2) 1(2) by (auto simp: holds_block_def)
    moreover have "refcnt (bufs s b) + 1 \<noteq> 0"
      using assms(3) 1(3) unat_word_ariths(1) [of "refcnt (bufs s b)" 1] by auto
    ultimately show ?thesis using 1(1,2) unfolding readable_block_def by blast
  next
    case 2
    then show ?thesis using free_buf [OF assms(1) finite_refs] assms(4) unfolding readable_block_def by auto
  qed
qed

text \<open>The effect of a routine: the state after it and its three functions.\<close>

definition becomes :: "nat \<Rightarrow> nat \<Rightarrow> (u32 \<Rightarrow> nat option) \<Rightarrow> 'a vdisk_scheme \<Rightarrow> 'a vdisk_scheme \<Rightarrow> (u32 \<Rightarrow> u8 list) \<Rightarrow>
    (u32 \<Rightarrow> u8 list) \<Rightarrow> (u32 \<Rightarrow> nat) \<Rightarrow> bool" where
  "becomes p cap h s t C D R \<longleftrightarrow> disk_frame s t \<and> view p cap h t \<and> content t ROOTDEV = C \<and> dblock t = D \<and> refs t = R"

lemma becomes_trans:
  assumes "becomes p cap h s t C D R" and "becomes p cap h' t u C' D' R'"
  shows "becomes p cap h' s u C' D' R'"
  using assms disk_frame_trans unfolding becomes_def by blast

lemma view_bdata:
  assumes "view p cap h s" and "h n = Some b"
  shows "bdata s b = content s ROOTDEV n" "blockno (bufs s b) = n" "bdev (bufs s b) = ROOTDEV"
    "refs s n = unat (refcnt (bufs s b))" "length (bdata s b) = BSIZE"
proof -
  obtain xs where c: "cache_ok xs s" using assms(1) by (rule view_cache)
  note v = viewD [OF assms(1)]
  show "bdata s b = content s ROOTDEV n"
    using content_cached [OF c root_nz v(6,8,10)] assms(2) by simp
  show "blockno (bufs s b) = n" "bdev (bufs s b) = ROOTDEV" using v(8) [OF assms(2)] by (simp_all add: holds_block_def)
  show "refs s n = unat (refcnt (bufs s b))" by (rule refs_holder [OF c v(6,8)]) (rule assms(2))+
  show "length (bdata s b) = BSIZE" by (rule cache_okD(6) [OF c v(6)]) (rule assms(2))
qed

lemma slotD:
  assumes "slot t c = slot s c"
  shows "bvalid (bufs t c) = bvalid (bufs s c)" "bdev (bufs t c) = bdev (bufs s c)" "blockno (bufs t c) = blockno (bufs s c)"
    "refcnt (bufs t c) = refcnt (bufs s c)" "bdata t c = bdata s c" "slocks t (SBuf c) = slocks s (SBuf c)"
    "holds_block t dev n c = holds_block s dev n c"
  using assms by (simp_all add: slot_def Let_def holds_block_def)

lemma held_slot: "slot t c = slot s c \<Longrightarrow> disk_frame s t \<Longrightarrow> held p c t = held p c s"
  unfolding held_def using slotD(6) [of t c s] disk_frame_pid [of s t] by metis

lemma refs_slots:
  assumes "cache_ok xs s" "cache_ok ys t" and "\<And>c. c < NBUF \<Longrightarrow> holds_block t ROOTDEV n c = holds_block s ROOTDEV n c"
    and "\<And>c. c < NBUF \<Longrightarrow> holds_block s ROOTDEV n c \<Longrightarrow> refcnt (bufs t c) = refcnt (bufs s c)"
  shows "refs t n = refs s n"
  using assms(1)
proof (cases rule: refs_cases [where n = n])
  case (1 b)
  then show ?thesis using refs_holder [OF assms(2) 1(1)] assms(3,4) by simp
next
  case 2
  have "refs t n = 0" by (rule refs_none) (use 2(1) assms(3) in blast)
  with 2(2) show ?thesis by simp
qed

lemma bread_refs:
  assumes "cache_ok xs s" and "bread_post p xs ROOTDEV n s b t" and "refs s n + 1 < 2 ^ 32"
  shows "refs t = (refs s)(n := refs s n + 1)"
proof
  fix m
  have t: "b < NBUF" "cache_ok xs t" "holds_block t ROOTDEV n b"
    "\<And>c. c < NBUF \<Longrightarrow> c \<noteq> b \<Longrightarrow> slot t c = slot s c"
    and r: "holds_block s ROOTDEV n b \<and> refcnt (bufs t b) = refcnt (bufs s b) + 1 \<or>
      refcnt (bufs s b) = 0 \<and> refcnt (bufs t b) = 1 \<and> (\<forall>c < NBUF. \<not> holds_block s ROOTDEV n c)"
    using assms(2) by (auto simp: bread_post_def)
  show "refs t m = ((refs s)(n := refs s n + 1)) m"
  proof (cases "m = n")
    case True
    from r have "unat (refcnt (bufs t b)) = refs s n + 1"
    proof
      assume a: "holds_block s ROOTDEV n b \<and> refcnt (bufs t b) = refcnt (bufs s b) + 1"
      then have "refs s n = unat (refcnt (bufs s b))" using refs_holder [OF assms(1) t(1)] by blast
      then show ?thesis using a assms(3) by (simp add: unat_word_ariths(1))
    next
      assume a: "refcnt (bufs s b) = 0 \<and> refcnt (bufs t b) = 1 \<and> (\<forall>c < NBUF. \<not> holds_block s ROOTDEV n c)"
      then show ?thesis using refs_none [of s n] by simp
    qed
    then show ?thesis using True refs_holder [OF t(2,1,3)] by simp
  next
    case False
    then have nb: "\<not> holds_block t ROOTDEV m b" using t(3) by (simp add: holds_block_def)
    show ?thesis
    proof (cases "holds_block s ROOTDEV m b")
      case True
      then have "refcnt (bufs s b) = 0" using r False by (auto simp: holds_block_def)
      then have "refs s m = 0" using refs_holder [OF assms(1) t(1) True] by simp
      moreover have "refs t m = 0"
      proof (rule refs_none)
        fix e assume e: "e < NBUF"
        show "\<not> holds_block t ROOTDEV m e"
        proof (cases "e = b")
          case ne: False
          then show ?thesis using holder_unique [OF assms(1) t(1) e True] slotD(7) [OF t(4) [OF e ne]] by auto
        qed (use nb in simp)
      qed
      ultimately show ?thesis using False by simp
    next
      case nh: False
      have "refs t m = refs s m"
      proof (rule refs_slots [OF assms(1) t(2)])
        fix c assume c: "c < NBUF"
        show h: "holds_block t ROOTDEV m c = holds_block s ROOTDEV m c"
          using nb nh slotD(7) [OF t(4) [OF c]] by (cases "c = b") auto
        assume "holds_block s ROOTDEV m c"
        then show "refcnt (bufs t c) = refcnt (bufs s c)" using nh slotD(4) [OF t(4) [OF c]] by (cases "c = b") auto
      qed
      then show ?thesis using False by simp
    qed
  qed
qed

lemma viewI:
  assumes "quiet p s" "cache_ok xs s" "vdev_ok cap (vdev s)" "cap \<le> 2 ^ 31"
    "\<And>b. b < NBUF \<Longrightarrow> refcnt (bufs s b) \<noteq> 0 \<Longrightarrow> bvalid (bufs s b)"
    "\<And>b. b < NBUF \<Longrightarrow> slocked (slocks s (SBuf b)) \<Longrightarrow> h (blockno (bufs s b)) = Some b"
    "\<And>n b. h n = Some b \<Longrightarrow> b < NBUF \<and> held p b s \<and> holds_block s ROOTDEV n b \<and> refcnt (bufs s b) \<noteq> 0"
  shows "view p cap h s"
  unfolding view_def using assms by blast

lemma bread_view:
  assumes v: "view p cap h s" and n: "unat n < cap" "h n = None" "refs s n + 1 < 2 ^ 32"
    "refs s n \<noteq> 0 \<or> card {n. refs s n \<noteq> 0} < NBUF"
  shows "\<exists>b t. bread ROOTDEV n s = Ok (b, t) \<and>
    becomes p cap (h(n := Some b)) s t (content s ROOTDEV) (dblock s) ((refs s)(n := refs s n + 1))"
proof -
  obtain xs where c: "cache_ok xs s" using v by (rule view_cache)
  obtain b t where r: "bread ROOTDEV n s = Ok (b, t)" and post: "bread_post p xs ROOTDEV n s b t"
    using bread_spec [OF viewD(1) [OF v] c viewD(2,3) [OF v] refl n(1) view_readable [OF v n(2-4)]] by blast
  have t: "b < NBUF" "disk_frame s t" "cache_ok xs t" "held p b t" "bvalid (bufs t b)" "holds_block t ROOTDEV n b"
    "\<And>c. c < NBUF \<Longrightarrow> c \<noteq> b \<Longrightarrow> slot t c = slot s c" "medium (vqueue t) = medium (vqueue s)"
    "holds_block s ROOTDEV n b \<or> refcnt (bufs s b) = 0"
    using post by (auto simp: bread_post_def)
  have rf: "refs t = (refs s)(n := refs s n + 1)" by (rule bread_refs [OF c post n(3)])
  have "view p cap (h(n := Some b)) t"
  proof (rule viewI [OF _ t(3)])
    show "quiet p t" using viewD(1) [OF v] disk_frame_quiet [OF t(2)] by blast
    show "vdev_ok cap (vdev t)" using viewD(2) [OF v] t(2) by (simp add: disk_frame_def)
    show "bvalid (bufs t e)" if "e < NBUF" "refcnt (bufs t e) \<noteq> 0" for e
      using that t(5) viewD(4) [OF v that(1)] slotD(1,4) [OF t(7) [OF that(1)]] by (cases "e = b") auto
    show "(h(n := Some b)) (blockno (bufs t e)) = Some e" if "e < NBUF" "slocked (slocks t (SBuf e))" for e
    proof (cases "e = b")
      case True
      then show ?thesis using t(6) by (simp add: holds_block_def)
    next
      case False
      note sl = slotD(3,6) [OF t(7) [OF that(1) False]]
      from viewD(5) [OF v that(1)] that(2) sl have "h (blockno (bufs t e)) = Some e" by simp
      then show ?thesis using n(2) by auto
    qed
    show "e < NBUF \<and> held p e t \<and> holds_block t ROOTDEV m e \<and> refcnt (bufs t e) \<noteq> 0"
      if hm: "(h(n := Some b)) m = Some e" for m e
    proof (cases "m = n")
      case True
      have "unat (refcnt (bufs t b)) = refs s n + 1"
        using rf refs_holder [OF t(3,1,6)] by simp
      then show ?thesis using True hm t(1,4,6) by auto
    next
      case False
      with hm have hm: "h m = Some e" by simp
      have e: "e < NBUF" "held p e s" "holds_block s ROOTDEV m e" "refcnt (bufs s e) \<noteq> 0"
        using viewD(6-9) [OF v hm] by simp_all
      have "e \<noteq> b" using t(9) e(3,4) False by (auto simp: holds_block_def)
      then have sl: "slot t e = slot s e" by (rule t(7) [OF e(1)])
      from e show ?thesis unfolding slotD(4,7) [OF sl] held_slot [OF sl t(2)] by blast
    qed
  qed (rule viewD(3) [OF v])
  moreover have "content t ROOTDEV = content s ROOTDEV" using bread_content [OF c post root_nz] by blast
  moreover have "dblock t = dblock s" by (simp add: fun_eq_iff dblock_def t(8))
  ultimately show ?thesis using r t(2) rf unfolding becomes_def by blast
qed

text \<open>A change of one locked buffer: of its data, its reference count or its lock.\<close>

definition changed_at :: "nat \<Rightarrow> (u32 \<Rightarrow> nat option) \<Rightarrow> (u32 \<Rightarrow> nat option) \<Rightarrow> nat \<Rightarrow> u32 \<Rightarrow> 'a vdisk_scheme \<Rightarrow> 'a vdisk_scheme \<Rightarrow> bool" where
  "changed_at p h h' b n s t \<longleftrightarrow> quiet p t \<and> (\<exists>xs. cache_ok xs t) \<and> vdev t = vdev s \<and> (\<forall>i. pid (procs t i) = pid (procs s i)) \<and>
     (\<forall>c < NBUF. c \<noteq> b \<longrightarrow> slot t c = slot s c) \<and> holds_block t ROOTDEV n b \<and> bvalid (bufs t b) \<and>
     (\<forall>m. m \<noteq> n \<longrightarrow> dblock t m = dblock s m) \<and>
     (h' = h \<and> slocks t (SBuf b) = slocks s (SBuf b) \<and> refcnt (bufs t b) \<noteq> 0 \<or>
      h' = h(n := None) \<and> \<not> slocked (slocks t (SBuf b)))"

lemma changed_at_view:
  assumes v: "view p cap h s" and b: "h n = Some b" and ch: "changed_at p h h' b n s t"
  shows "view p cap h' t"
proof -
  obtain ys where c: "cache_ok ys t" using ch unfolding changed_at_def by blast
  have t: "quiet p t" "vdev t = vdev s" "\<And>i. pid (procs t i) = pid (procs s i)"
    "\<And>c. c < NBUF \<Longrightarrow> c \<noteq> b \<Longrightarrow> slot t c = slot s c" "holds_block t ROOTDEV n b" "bvalid (bufs t b)"
    "h' = h \<and> slocks t (SBuf b) = slocks s (SBuf b) \<and> refcnt (bufs t b) \<noteq> 0 \<or>
      h' = h(n := None) \<and> \<not> slocked (slocks t (SBuf b))"
    using ch by (auto simp: changed_at_def)
  have h': "h' m = h m" if "m \<noteq> n" for m using t(7) that by auto
  show ?thesis
  proof (rule viewI [OF t(1) c])
    show "vdev_ok cap (vdev t)" using viewD(2) [OF v] t(2) by simp
    show "bvalid (bufs t e)" if "e < NBUF" "refcnt (bufs t e) \<noteq> 0" for e
      using that t(6) viewD(4) [OF v that(1)] slotD(1,4) [OF t(4) [OF that(1)]] by (cases "e = b") auto
    show "h' (blockno (bufs t e)) = Some e" if "e < NBUF" "slocked (slocks t (SBuf e))" for e
    proof (cases "e = b")
      case True
      then have "h' = h" using t(7) that(2) by auto
      then show ?thesis using True t(5) b by (simp add: holds_block_def)
    next
      case False
      have "h (blockno (bufs t e)) = Some e"
        using viewD(5) [OF v that(1)] that(2) slotD(3,6) [OF t(4) [OF that(1) False]] by simp
      moreover from this have "blockno (bufs t e) \<noteq> n" using b False by auto
      ultimately show ?thesis using h' by simp
    qed
    show "e < NBUF \<and> held p e t \<and> holds_block t ROOTDEV m e \<and> refcnt (bufs t e) \<noteq> 0" if hm: "h' m = Some e" for m e
    proof (cases "m = n")
      case True
      then have "h' = h" using t(7) hm by auto
      then have "e = b" "slocks t (SBuf b) = slocks s (SBuf b)" "refcnt (bufs t b) \<noteq> 0"
        using t(7) hm True b by (auto dest: fun_cong [of _ _ n])
      then show ?thesis using True t(3,5) viewD(6,7) [OF v b] by (simp add: held_def)
    next
      case False
      with hm h' have hm: "h m = Some e" by simp
      have e: "e < NBUF" "held p e s" "holds_block s ROOTDEV m e" "refcnt (bufs s e) \<noteq> 0"
        using viewD(6-9) [OF v hm] by simp_all
      have "e \<noteq> b" using view_bdata(2) [OF v hm] view_bdata(2) [OF v b] False by auto
      then have sl: "slot t e = slot s e" by (rule t(4) [OF e(1)])
      from e show ?thesis unfolding slotD(4,7) [OF sl] held_def slotD(6) [OF sl] t(3) by blast
    qed
  qed (rule viewD(3) [OF v])
qed

lemma changed_at_holds:
  assumes v: "view p cap h s" and b: "h n = Some b" and ch: "changed_at p h h' b n s t" and c: "c < NBUF" and m: "m \<noteq> n"
  shows "holds_block t ROOTDEV m c = holds_block s ROOTDEV m c" and "holds_block s ROOTDEV m c \<Longrightarrow> c \<noteq> b"
proof -
  have "\<not> holds_block s ROOTDEV m b" using view_bdata(2) [OF v b] m by (simp add: holds_block_def)
  moreover have "\<not> holds_block t ROOTDEV m b" using ch m by (auto simp: changed_at_def holds_block_def)
  moreover have "c \<noteq> b \<Longrightarrow> slot t c = slot s c" using ch c by (simp add: changed_at_def)
  ultimately show "holds_block t ROOTDEV m c = holds_block s ROOTDEV m c" "holds_block s ROOTDEV m c \<Longrightarrow> c \<noteq> b"
    using slotD(7) [of t c s] by (cases "c = b"; blast)+
qed

lemma changed_at_refs:
  assumes v: "view p cap h s" and b: "h n = Some b" and ch: "changed_at p h h' b n s t"
  shows "refs t = (refs s)(n := unat (refcnt (bufs t b)))"
proof
  fix m
  obtain xs ys where c: "cache_ok xs s" "cache_ok ys t" using ch v unfolding changed_at_def view_def by blast
  show "refs t m = ((refs s)(n := unat (refcnt (bufs t b)))) m"
  proof (cases "m = n")
    case True
    then show ?thesis using refs_holder [OF c(2) viewD(6) [OF v b]] ch by (simp add: changed_at_def)
  next
    case False
    have "refs t m = refs s m"
    proof (rule refs_slots [OF c changed_at_holds(1) [OF v b ch _ False]])
      fix e assume e: "e < NBUF" "holds_block s ROOTDEV m e"
      then have "slot t e = slot s e" using changed_at_holds(2) [OF v b ch e(1) False e(2)] ch by (simp add: changed_at_def)
      then show "refcnt (bufs t e) = refcnt (bufs s e)" by (rule slotD(4))
    qed
    with False show ?thesis by simp
  qed
qed

lemma changed_at_content:
  assumes v: "view p cap h s" and b: "h n = Some b" and ch: "changed_at p h h' b n s t"
  shows "content t ROOTDEV = (content s ROOTDEV)(n := bdata t b)"
proof
  fix m
  obtain xs ys where c: "cache_ok xs s" "cache_ok ys t" using ch v unfolding changed_at_def view_def by blast
  show "content t ROOTDEV m = ((content s ROOTDEV)(n := bdata t b)) m"
  proof (cases "m = n")
    case True
    then show ?thesis using content_cached [OF c(2) root_nz viewD(6) [OF v b]] ch by (simp add: changed_at_def)
  next
    case False
    note hs = changed_at_holds [OF v b ch _ False]
    have sl: "slot t e = slot s e" if "e < NBUF" "holds_block s ROOTDEV m e" for e
      using hs(2) [OF that] ch that(1) by (simp add: changed_at_def)
    have "content t ROOTDEV m = content s ROOTDEV m"
    proof (cases "\<exists>e < NBUF. holds_block s ROOTDEV m e \<and> bvalid (bufs s e)")
      case True
      then obtain e where e: "e < NBUF" "holds_block s ROOTDEV m e" "bvalid (bufs s e)" by blast
      show ?thesis
        using content_cached [OF c(1) root_nz e] content_cached [OF c(2) root_nz e(1)] hs(1) [OF e(1)] e slotD(1,5) [OF sl [OF e(1,2)]]
        by simp
    next
      case none: False
      have "content s ROOTDEV m = dblock s m" unfolding dblock_def by (rule content_uncached) (use none in blast)
      moreover have "content t ROOTDEV m = dblock t m"
        unfolding dblock_def by (rule content_uncached) (use none hs(1) slotD(1) [OF sl] in blast)
      moreover have "dblock t m = dblock s m" using ch False by (simp add: changed_at_def)
      ultimately show ?thesis by simp
    qed
    with False show ?thesis by simp
  qed
qed

section \<open>The routines on a chain of calls\<close>

text \<open>Each rule extends a chain of calls that started in \<open>r\<close> and has reached \<open>s\<close>.\<close>

lemma bread_then:
  assumes r: "becomes p cap h r s C D R" and n: "unat n < cap" "h n = None" "R n + 1 < 2 ^ 32"
    "R n \<noteq> 0 \<or> card {n. R n \<noteq> 0} < NBUF"
  shows "\<exists>b t. bread ROOTDEV n s = Ok (b, t) \<and> becomes p cap (h(n := Some b)) r t C D (R(n := R n + 1))"
proof -
  have s: "view p cap h s" "content s ROOTDEV = C" "dblock s = D" "refs s = R" using r by (simp_all add: becomes_def)
  from bread_view [OF s(1) n [folded s(4)]] show ?thesis
    using becomes_trans [OF r] unfolding s(2-4) by blast
qed

lemma changed_becomes:
  assumes r: "becomes p cap h r s C D R" and b: "h n = Some b" and ch: "changed_at p h h' b n s t" and f: "disk_frame r t"
  shows "becomes p cap h' r t (C(n := bdata t b)) (D(n := dblock t n)) (R(n := unat (refcnt (bufs t b))))"
proof -
  have s: "view p cap h s" "content s ROOTDEV = C" "dblock s = D" "refs s = R" using r by (simp_all add: becomes_def)
  have "dblock t = D(n := dblock t n)" using ch s(3) by (auto simp: changed_at_def fun_eq_iff)
  then show ?thesis
    using changed_at_view [OF s(1) b ch] changed_at_refs [OF s(1) b ch] changed_at_content [OF s(1) b ch] f s(2,4)
    unfolding becomes_def by metis
qed

lemma becomesD:
  assumes "becomes p cap h r s C D R" and "h n = Some b"
  shows "view p cap h s" "disk_frame r s" "C n = bdata s b" "D n = dblock s n" "R n = unat (refcnt (bufs s b))"
    "b < NBUF" "held p b s" "holds_block s ROOTDEV n b" "blockno (bufs s b) = n" "bdev (bufs s b) = ROOTDEV"
    "refcnt (bufs s b) \<noteq> 0" "bvalid (bufs s b)" "quiet p s" "vdev_ok cap (vdev s)" "cap \<le> 2 ^ 31" "length (bdata s b) = BSIZE"
proof -
  show v: "view p cap h s" and "disk_frame r s" using assms(1) by (simp_all add: becomes_def)
  have s: "content s ROOTDEV = C" "dblock s = D" "refs s = R" using assms(1) by (simp_all add: becomes_def)
  show "C n = bdata s b" "D n = dblock s n" "R n = unat (refcnt (bufs s b))"
    using view_bdata(1,4) [OF v assms(2)] by (simp_all flip: s)
  note b = assms(2)
  show "b < NBUF" "held p b s" "holds_block s ROOTDEV n b" "blockno (bufs s b) = n" "bdev (bufs s b) = ROOTDEV"
    "refcnt (bufs s b) \<noteq> 0" "bvalid (bufs s b)" "quiet p s" "vdev_ok cap (vdev s)" "cap \<le> 2 ^ 31" "length (bdata s b) = BSIZE"
    by (rule viewD(6) [OF v b] viewD(7) [OF v b] viewD(8) [OF v b] view_bdata(2) [OF v b] view_bdata(3) [OF v b]
        viewD(9) [OF v b] viewD(10) [OF v b] viewD(1) [OF v] viewD(2) [OF v] viewD(3) [OF v] view_bdata(5) [OF v b])+
qed

lemma set_bdata_then:
  assumes r: "becomes p cap h r s C D R" and b: "h n = Some b" and d: "length d = BSIZE"
  shows "becomes p cap h r (set_bdata b d s) (C(n := d)) D R"
proof -
  note s = becomesD [OF r b]
  obtain xs where c: "cache_ok xs s" using s(1) by (rule view_cache)
  let ?t = "set_bdata b d s"
  have ft: "bufs ?t = bufs s" "slocks ?t = slocks s" "bdata ?t = (bdata s)(b := d)" "medium (vqueue ?t) = medium (vqueue s)"
    "vdev ?t = vdev s" "procs ?t = procs s"
    by (simp_all add: set_bdata_def bdata_def fun_eq_iff)
  have q: "quiet p ?t" using s(13) by (simp add: set_bdata_def quiet_def)
  have sl: "slot ?t c = slot s c" if "c \<noteq> b" for c using that by (simp add: slot_def ft)
  have "cache_ok xs ?t"
  proof (rule cache_ok_update [OF c, of _ b "bufs s b"])
    show "disk_idle ?t" using cache_okD(4) [OF c] by (simp add: disk_idle_def set_bdata_def)
    show "\<not> holds_block s (bdev (bufs s b)) (blockno (bufs s b)) e" if "e < NBUF" "e \<noteq> b" for e
      using holder_unique [OF c s(6) that(1) s(8)] that(2) s(9,10) by auto
  qed (use sl d s(10,11) ft in simp_all)
  moreover have "dblock ?t = dblock s" by (simp add: dblock_def fun_eq_iff ft)
  ultimately have "changed_at p h h b n s ?t"
    unfolding changed_at_def using q sl s(8,11,12) by (auto simp: ft holds_block_def)
  moreover have "disk_frame r ?t" using s(2) by (simp add: disk_frame_def set_bdata_def)
  ultimately have "becomes p cap h r ?t (C(n := bdata ?t b)) (D(n := dblock ?t n)) (R(n := unat (refcnt (bufs ?t b))))"
    by (rule changed_becomes [OF r b])
  then show ?thesis unfolding \<open>dblock ?t = dblock s\<close> ft s(4,5) [symmetric] by simp
qed

lemma bwrite_then:
  assumes r: "becomes p cap h r s C D R" and b: "h n = Some b" and n: "unat n < cap"
  shows "\<exists>t. bwrite b s = Ok t \<and> becomes p cap h r t C (D(n := C n)) R"
proof -
  note s = becomesD [OF r b]
  obtain xs where c: "cache_ok xs s" using s(1) by (rule view_cache)
  obtain t where w: "bwrite b s = Ok t" and t: "disk_frame s t" "cache_ok xs t" "\<And>c. slot t c = slot s c"
    "\<And>m. dblock t m = (if m = n then bdata s b else dblock s m)"
    using bwrite_spec [OF s(13) c s(14,15,6,7,12,11)] n s(9) by (auto simp: dblock_def)
  have "changed_at p h h b n s t"
    unfolding changed_at_def
    using t disk_frame_quiet [OF t(1)] disk_frame_pid [OF t(1)] s slotD [OF t(3)] by (auto simp: disk_frame_def)
  from changed_becomes [OF r b this disk_frame_trans [OF s(2) t(1)]]
  have "becomes p cap h r t (C(n := C n)) (D(n := C n)) (R(n := R n))"
    using slotD(4,5) [OF t(3), of b] s(3-5) t(4) [of n] by simp
  with w show ?thesis by (simp add: fun_upd_triv)
qed

lemma brelse_then:
  assumes r: "becomes p cap h r s C D R" and b: "h n = Some b" and cl: "R n = 1 \<Longrightarrow> C n = D n"
  shows "\<exists>t. brelse b s = Ok t \<and> becomes p cap (h(n := None)) r t C D (R(n := R n - 1))"
proof -
  note s = becomesD [OF r b]
  obtain xs where c: "cache_ok xs s" using s(1) by (rule view_cache)
  have clean: "bdata s b = disk_block (medium (vqueue s)) (blockno (bufs s b))" if "refcnt (bufs s b) = 1"
    using cl that s(3-5,9) by (simp add: dblock_def)
  obtain t ys where w: "brelse b s = Ok t" and t: "disk_frame s t" "cache_ok ys t"
    "\<And>c. c < NBUF \<Longrightarrow> c \<noteq> b \<Longrightarrow> slot t c = slot s c" "medium (vqueue t) = medium (vqueue s)"
    and sl: "slot t b = (bvalid (bufs s b), bdev (bufs s b), blockno (bufs s b), refcnt (bufs s b) - 1, bdata s b,
                (slocks s (SBuf b))\<lparr>slocked := False, slpid := 0\<rparr>)"
    using brelse_spec [OF s(13) c s(6,7,11) clean] by blast
  have tb: "bvalid (bufs t b)" "holds_block t ROOTDEV n b" "refcnt (bufs t b) = refcnt (bufs s b) - 1" "bdata t b = bdata s b"
    "\<not> slocked (slocks t (SBuf b))"
    using sl s(9,10,12) by (simp_all add: slot_def Let_def holds_block_def)
  have "dblock t = dblock s" by (simp add: dblock_def fun_eq_iff t(4))
  moreover from this have "changed_at p h (h(n := None)) b n s t"
    unfolding changed_at_def
    using t disk_frame_quiet [OF t(1)] disk_frame_pid [OF t(1)] s(13) tb by (auto simp: disk_frame_def)
  moreover have "unat (refcnt (bufs s b) - 1) = R n - 1" using s(5,11) by (simp add: unat_minus_one)
  ultimately have "becomes p cap (h(n := None)) r t (C(n := C n)) (D(n := D n)) (R(n := R n - 1))"
    using changed_becomes [OF r b _ disk_frame_trans [OF s(2) t(1)], of "h(n := None)"] tb(3,4) s(3,4) by simp
  with w show ?thesis by simp
qed

lemma count_then:
  assumes r: "becomes p cap h r s C D R" and b: "h n = Some b" and k: "k \<noteq> 0"
  shows "becomes p cap h r ((settle s)\<lparr>bufs := (bufs s)(b := (bufs s b)\<lparr>refcnt := k\<rparr>)\<rparr>) C D (R(n := unat k))"
    (is "becomes _ _ _ _ ?t _ _ _")
proof -
  note s = becomesD [OF r b]
  obtain xs where c: "cache_ok xs s" using s(1) by (rule view_cache)
  have ft: "slocks ?t = slocks s" "bdata ?t = bdata s" "medium (vqueue ?t) = medium (vqueue s)" "vdev ?t = vdev s" "procs ?t = procs s"
    by (simp_all add: bdata_def fun_eq_iff)
  have sl: "slot ?t c = slot s c" if "c \<noteq> b" for c using that by (simp add: slot_def ft)
  have f: "disk_frame s ?t" by (simp add: disk_frame_def)
  have "cache_ok xs ?t"
  proof (rule cache_ok_update [OF c, of _ b])
    show "disk_idle ?t" using cache_okD(4) [OF c] by (simp add: disk_idle_def)
    show "\<not> holds_block s (bdev ((bufs s b)\<lparr>refcnt := k\<rparr>)) (blockno ((bufs s b)\<lparr>refcnt := k\<rparr>)) e"
      if "e < NBUF" "e \<noteq> b" for e
      using holder_unique [OF c s(6) that(1) s(8)] that(2) s(9,10) by auto
  qed (use sl k s(10,16) ft in simp_all)
  moreover have "dblock ?t = dblock s" by (simp add: dblock_def fun_eq_iff)
  ultimately have "changed_at p h h b n s ?t"
    unfolding changed_at_def using disk_frame_quiet [OF f] s(8,12,13) sl k by (auto simp: ft holds_block_def)
  from changed_becomes [OF r b this disk_frame_trans [OF s(2) f]] show ?thesis
    unfolding \<open>dblock ?t = dblock s\<close> ft s(3,4) [symmetric] by simp
qed

lemma bunpin_then:
  assumes r: "becomes p cap h r s C D R" and b: "h n = Some b" and n: "1 < R n"
  shows "\<exists>t. bunpin b s = Ok t \<and> becomes p cap h r t C D (R(n := R n - 1))"
proof -
  note s = becomesD [OF r b]
  have "unat (refcnt (bufs s b) - 1) = R n - 1" using s(5,11) by (simp add: unat_minus_one)
  moreover from this n have "refcnt (bufs s b) - 1 \<noteq> 0" by auto
  ultimately show ?thesis
    using count_then [OF r b, of "refcnt (bufs s b) - 1"] bunpin_eq [OF quietD(3) [OF s(13)] quietD(2) [OF s(13)]] by simp
qed

lemma bpin_then:
  assumes r: "becomes p cap h r s C D R" and b: "h n = Some b" and n: "R n + 1 < 2 ^ 32"
  shows "\<exists>t. bpin b s = Ok t \<and> becomes p cap h r t C D (R(n := R n + 1))"
proof -
  note s = becomesD [OF r b]
  have "unat (refcnt (bufs s b) + 1) = R n + 1" using s(5) n by (simp add: unat_word_ariths(1))
  moreover from this have "refcnt (bufs s b) + 1 \<noteq> 0" by auto
  ultimately show ?thesis
    using count_then [OF r b, of "refcnt (bufs s b) + 1"] bpin_eq [OF quietD(3) [OF s(13)] quietD(2) [OF s(13)]] by simp
qed

lemma becomes_keep:
  assumes "becomes p cap h r s C D R"
  shows "view p cap h s" "disk_frame r s" "content s ROOTDEV = C" "dblock s = D" "refs s = R"
  using assms by (simp_all add: becomes_def)

end
