(* ===== verification/Bytes.thy ===== *)
theory Bytes
  imports Prelude
begin

text \<open>
  The little-endian layout of the structures that the kernel keeps in disk blocks: reading and
  writing 16- and 32-bit fields at a byte offset of a block.
\<close>

definition get16 :: "u8 list \<Rightarrow> nat \<Rightarrow> u16" where
  "get16 d o1 = ucast (d ! o1) OR push_bit 8 (ucast (d ! (o1 + 1)))"

definition get32 :: "u8 list \<Rightarrow> nat \<Rightarrow> u32" where
  "get32 d o1 = ucast (d ! o1) OR push_bit 8 (ucast (d ! (o1 + 1))) OR push_bit 16 (ucast (d ! (o1 + 2)))
     OR push_bit 24 (ucast (d ! (o1 + 3)))"

definition put16 :: "nat \<Rightarrow> u16 \<Rightarrow> u8 list \<Rightarrow> u8 list" where
  "put16 o1 v d = d[o1 := ucast v, o1 + 1 := ucast (drop_bit 8 v)]"

definition put32 :: "nat \<Rightarrow> u32 \<Rightarrow> u8 list \<Rightarrow> u8 list" where
  "put32 o1 v d = d[o1 := ucast v, o1 + 1 := ucast (drop_bit 8 v), o1 + 2 := ucast (drop_bit 16 v),
     o1 + 3 := ucast (drop_bit 24 v)]"

definition get64 :: "u8 list \<Rightarrow> nat \<Rightarrow> u64" where
  "get64 d o1 = ucast (get32 d o1) OR push_bit 32 (ucast (get32 d (o1 + 4)))"

definition le32 :: "u32 \<Rightarrow> u8 list" where
  "le32 v = put32 0 v (replicate 4 0)"

definition le64 :: "u64 \<Rightarrow> u8 list" where
  "le64 v = le32 (ucast v) @ le32 (ucast (drop_bit 32 v))"

text \<open>Copying bytes into an array at an offset.\<close>

definition put_bytes :: "nat \<Rightarrow> u8 list \<Rightarrow> u8 list \<Rightarrow> u8 list" where
  "put_bytes o1 bs d = take o1 d @ bs @ drop (o1 + length bs) d"

definition get_bytes :: "u8 list \<Rightarrow> nat \<Rightarrow> nat \<Rightarrow> u8 list" where
  "get_bytes d o1 n = take n (drop o1 d)"

lemma length_put [simp]: "length (put16 i v d) = length d" "length (put32 i w d) = length d"
  by (simp_all add: put16_def put32_def)

lemma length_put_bytes [simp]: "i + length bs \<le> length d \<Longrightarrow> length (put_bytes i bs d) = length d"
  by (simp add: put_bytes_def)

lemma bit_ucast_u8: "bit (ucast (c :: u8) :: 'a::len word) n \<longleftrightarrow> n < LENGTH('a) \<and> n < 8 \<and> bit c n"
  using bit_imp_le_length [of c n] by (auto simp: bit_ucast_iff)

lemma get_put16 [simp]: "i + 2 \<le> length d \<Longrightarrow> get16 (put16 i v d) i = v"
  unfolding get16_def put16_def
  by (rule bit_word_eqI) (auto simp: bit_or_iff bit_push_bit_iff bit_ucast_u8 bit_ucast_iff bit_drop_bit_eq not_less)

lemma put32_nth:
  assumes "i + 4 \<le> length d"
  shows "put32 i v d ! i = ucast v" "put32 i v d ! (i + 1) = ucast (drop_bit 8 v)"
    "put32 i v d ! (i + 2) = ucast (drop_bit 16 v)" "put32 i v d ! (i + 3) = ucast (drop_bit 24 v)"
  using assms by (simp_all add: put32_def)

lemma get_put32 [simp]:
  assumes "i + 4 \<le> length d"
  shows "get32 (put32 i v d) i = v"
proof (rule bit_word_eqI)
  fix n assume "n < LENGTH(32)"
  then consider "n < 8" | "8 \<le> n" "n < 16" | "16 \<le> n" "n < 24" | "24 \<le> n" "n < 32" by fastforce
  then show "bit (get32 (put32 i v d) i) n = bit v n"
    unfolding get32_def put32_nth [OF assms]
    by cases (simp_all only: bit_or_iff bit_push_bit_iff bit_ucast_u8, simp_all add: bit_ucast_iff bit_drop_bit_eq, auto)
qed

lemma put_nth_other:
  "k < i \<or> i + 2 \<le> k \<Longrightarrow> put16 i v d ! k = d ! k"
  "k < i \<or> i + 4 \<le> k \<Longrightarrow> put32 i w d ! k = d ! k"
  by (auto simp: put16_def put32_def)

lemma get_put_other [simp]:
  "j + 2 \<le> i \<or> i + 2 \<le> j \<Longrightarrow> get16 (put16 i v d) j = get16 d j"
  "j + 2 \<le> i \<or> i + 4 \<le> j \<Longrightarrow> get16 (put32 i w d) j = get16 d j"
  "j + 4 \<le> i \<or> i + 2 \<le> j \<Longrightarrow> get32 (put16 i v d) j = get32 d j"
  "j + 4 \<le> i \<or> i + 4 \<le> j \<Longrightarrow> get32 (put32 i w d) j = get32 d j"
  by (auto simp: get16_def get32_def put_nth_other)

lemma get_put_bytes [simp]: "i + length bs \<le> length d \<Longrightarrow> get_bytes (put_bytes i bs d) i (length bs) = bs"
  by (simp add: get_bytes_def put_bytes_def)

end
