(* ===== verification/Log.thy ===== *)
theory Log
  imports Blocks Bytes
begin

text \<open>
  \<open>kernel/log.c\<close>: the write-ahead log.  The first block of the log area holds the header, the
  following ones the logged blocks.  A thread that has to wait for log space or for a commit of
  another thread gives \<open>Spin\<close>.
\<close>

abbreviation (input) LOGSIZE :: nat where "LOGSIZE \<equiv> 30"
abbreviation (input) MAXOPBLOCKS :: int where "MAXOPBLOCKS \<equiv> 10"

text \<open>The counters and places are \<open>int\<close>s of the code, read as numbers.  They stay far from the ends of that range:
  the header has at most \<open>LOGSIZE\<close> blocks, \<open>begin_op\<close> admits at most three operations at a time, and the log lies
  on the disk.\<close>

record logheader =
  lh_n :: int
  lh_block :: "u32 list"

record log_state = vdisk +
  log_start :: int
  log_size :: int
  outstanding :: int
  committing :: bool
  log_dev :: u32
  log_lh :: logheader

definition set_lh :: "(logheader \<Rightarrow> logheader) \<Rightarrow> 'a log_state_scheme \<Rightarrow> 'a log_state_scheme" where
  "set_lh f s = s\<lparr>log_lh := f (log_lh s)\<rparr>"

definition log_indices :: "'a log_state_scheme \<Rightarrow> nat list" where
  "log_indices s = [0..<nat (lh_n (log_lh s))]"

text \<open>One block: copy the data of the first buffer into the second one and write it out.\<close>

definition install_one :: "bool \<Rightarrow> nat \<Rightarrow> 'a log_state_scheme \<Rightarrow> 'a log_state_scheme res" where
  "install_one recovering tail s =
     bindR (bread (log_dev s) (word_of_int (log_start s + int tail + 1)) s) (\<lambda>(lbuf, s).
     bindR (arr_get (lh_block (log_lh s)) tail) (\<lambda>bno.
     bindR (bread (log_dev s) bno s) (\<lambda>(dbuf, s).
     bindR (bwrite dbuf (set_bdata dbuf (bdata s lbuf) s)) (\<lambda>s.
     bindR (if \<not> recovering then bunpin dbuf s else Ok s) (\<lambda>s.
     bindR (brelse lbuf s) (brelse dbuf))))))"

definition install_trans :: "bool \<Rightarrow> 'a log_state_scheme \<Rightarrow> 'a log_state_scheme res" where
  "install_trans recovering s = foldR (install_one recovering) (log_indices s) s"

definition read_head :: "'a log_state_scheme \<Rightarrow> 'a log_state_scheme res" where
  "read_head s =
     bindR (bread (log_dev s) (word_of_int (log_start s)) s) (\<lambda>(b, s).
     let s = set_lh (\<lambda>h. h\<lparr>lh_n := sint (get32 (bdata s b) 0)\<rparr>) s
     in bindR (foldR (\<lambda>i s.
          bindR (arr_set (lh_block (log_lh s)) i (get32 (bdata s b) (4 + 4 * i))) (\<lambda>bl.
          Ok (set_lh (\<lambda>h. h\<lparr>lh_block := bl\<rparr>) s))) (log_indices s) s) (brelse b))"

definition write_head :: "'a log_state_scheme \<Rightarrow> 'a log_state_scheme res" where
  "write_head s =
     bindR (bread (log_dev s) (word_of_int (log_start s)) s) (\<lambda>(b, s).
     let s = set_bdata b (put32 0 (word_of_int (lh_n (log_lh s))) (bdata s b)) s
     in bindR (foldR (\<lambda>i s.
          bindR (arr_get (lh_block (log_lh s)) i) (\<lambda>bno.
          Ok (set_bdata b (put32 (4 + 4 * i) bno (bdata s b)) s))) (log_indices s) s) (\<lambda>s.
     bindR (bwrite b s) (brelse b)))"

definition recover_from_log :: "'a log_state_scheme \<Rightarrow> 'a log_state_scheme res" where
  "recover_from_log s =
     bindR (read_head s) (\<lambda>s.
     bindR (install_trans True s) (\<lambda>s.
     write_head (set_lh (\<lambda>h. h\<lparr>lh_n := 0\<rparr>) s)))"

text \<open>The arguments are the device and the fields \<open>logstart\<close> and \<open>nlog\<close> of the superblock.\<close>

definition initlog :: "u32 \<Rightarrow> u32 \<Rightarrow> u32 \<Rightarrow> 'a log_state_scheme \<Rightarrow> 'a log_state_scheme res" where
  "initlog dev logstart nlog s =
     (if 4 + 4 * LOGSIZE \<ge> BSIZE then Panic ''initlog: too big logheader''
      else recover_from_log ((initlock LLog ''log'' s)\<lparr>log_start := sint logstart, log_size := sint nlog,
             log_dev := dev\<rparr>))"

definition begin_op :: "'a log_state_scheme \<Rightarrow> 'a log_state_scheme res" where
  "begin_op s =
     bindR (acquire LLog s) (\<lambda>s.
       if committing s then Spin
       else if lh_n (log_lh s) + (outstanding s + 1) * MAXOPBLOCKS > int LOGSIZE then Spin
       else release LLog (s\<lparr>outstanding := outstanding s + 1\<rparr>))"

definition write_log_one :: "nat \<Rightarrow> 'a log_state_scheme \<Rightarrow> 'a log_state_scheme res" where
  "write_log_one tail s =
     bindR (bread (log_dev s) (word_of_int (log_start s + int tail + 1)) s) (\<lambda>(to, s).
     bindR (arr_get (lh_block (log_lh s)) tail) (\<lambda>bno.
     bindR (bread (log_dev s) bno s) (\<lambda>(from, s).
     bindR (bwrite to (set_bdata to (bdata s from) s)) (\<lambda>s.
     bindR (brelse from s) (brelse to)))))"

definition write_log :: "'a log_state_scheme \<Rightarrow> 'a log_state_scheme res" where
  "write_log s = foldR write_log_one (log_indices s) s"

definition commit :: "'a log_state_scheme \<Rightarrow> 'a log_state_scheme res" where
  "commit s =
     (if lh_n (log_lh s) > 0
      then bindR (write_log s) (\<lambda>s.
           bindR (write_head s) (\<lambda>s.
           bindR (install_trans False s) (\<lambda>s.
           write_head (set_lh (\<lambda>h. h\<lparr>lh_n := 0\<rparr>) s))))
      else Ok s)"

definition end_op :: "'a log_state_scheme \<Rightarrow> 'a log_state_scheme res" where
  "end_op s =
     bindR (acquire LLog s) (\<lambda>s.
     let s = s\<lparr>outstanding := outstanding s - 1\<rparr>
     in if committing s then Panic ''log.committing''
        else if outstanding s = 0
        then bindR (release LLog (s\<lparr>committing := True\<rparr>)) (\<lambda>s.
             bindR (commit s) (\<lambda>s.
             bindR (acquire LLog s) (\<lambda>s.
             bindR (wakeup ChLog (s\<lparr>committing := False\<rparr>)) (release LLog))))
        else bindR (wakeup ChLog s) (release LLog))"

text \<open>The slot of the header that a block goes to: its own one, or the first free one.\<close>

fun absorb :: "u32 \<Rightarrow> nat list \<Rightarrow> 'a log_state_scheme \<Rightarrow> nat res" where
  "absorb bno [] s = Ok (nat (lh_n (log_lh s)))"
| "absorb bno (i # is) s =
     bindR (arr_get (lh_block (log_lh s)) i) (\<lambda>x. if x = bno then Ok i else absorb bno is s)"

definition log_write :: "nat \<Rightarrow> 'a log_state_scheme \<Rightarrow> 'a log_state_scheme res" where
  "log_write b s =
     bindR (acquire LLog s) (\<lambda>s.
       if lh_n (log_lh s) \<ge> int LOGSIZE \<or> lh_n (log_lh s) \<ge> log_size s - 1 then Panic ''too big a transaction''
       else if outstanding s < 1 then Panic ''log_write outside of trans''
       else bindR (absorb (blockno (bufs s b)) (log_indices s) s) (\<lambda>i.
            bindR (arr_set (lh_block (log_lh s)) i (blockno (bufs s b))) (\<lambda>bl.
            let s = set_lh (\<lambda>h. h\<lparr>lh_block := bl\<rparr>) s
            in bindR (if i = nat (lh_n (log_lh s))
                      then bindR (bpin b s) (\<lambda>s. Ok (set_lh (\<lambda>h. h\<lparr>lh_n := lh_n h + 1\<rparr>) s))
                      else Ok s) (release LLog))))"

end
