(* ===== verification/Fs.thy ===== *)
theory Fs
  imports Log
begin

text \<open>
  \<open>kernel/fs.c\<close> with \<open>kernel/fs.h\<close>: blocks, inodes, file contents, directories and path names.
  In-memory inodes are numbered by their slot in \<open>itable\<close>; a null pointer is \<open>None\<close>.  A kernel
  address that the code passes to \<open>readi\<close> or \<open>writei\<close> is either an address of physical memory
  or a local variable, which is then the byte list of its contents.
\<close>

section \<open>Data\<close>

abbreviation (input) FSMAGIC :: u32 where "FSMAGIC \<equiv> 0x10203040"
abbreviation (input) ROOTINO :: u32 where "ROOTINO \<equiv> 1"
abbreviation (input) NDIRECT :: nat where "NDIRECT \<equiv> 12"
abbreviation (input) NINDIRECT :: nat where "NINDIRECT \<equiv> 256"
abbreviation (input) MAXFILE :: nat where "MAXFILE \<equiv> 268"
abbreviation (input) IPB :: u32 where "IPB \<equiv> 16"
abbreviation (input) BPB :: nat where "BPB \<equiv> 8192"
abbreviation (input) DIRSIZ :: nat where "DIRSIZ \<equiv> 14"
abbreviation (input) T_DIR :: u16 where "T_DIR \<equiv> 1"
abbreviation (input) T_FILE :: u16 where "T_FILE \<equiv> 2"
abbreviation (input) T_DEVICE :: u16 where "T_DEVICE \<equiv> 3"

record superblock =
  sb_magic :: u32
  sb_size :: u32
  sb_nblocks :: u32
  sb_ninodes :: u32
  sb_nlog :: u32
  sb_logstart :: u32
  sb_inodestart :: u32
  sb_bmapstart :: u32

record dinode =
  itype :: u16
  imajor :: u16
  iminor :: u16
  nlink :: u16
  isize :: u32
  iaddrs :: "u32 list"

record inode =
  idev :: u32
  inum :: u32
  iref :: int
  ivalid :: bool
  icopy :: dinode

record fs = log_state +
  sb :: superblock
  itable :: "nat \<Rightarrow> inode"

definition IBLOCK :: "u32 \<Rightarrow> superblock \<Rightarrow> u32" where
  "IBLOCK i b = i div IPB + sb_inodestart b"

definition BBLOCK :: "u32 \<Rightarrow> superblock \<Rightarrow> u32" where
  "BBLOCK b sp = b div 8192 + sb_bmapstart sp"

definition set_inode :: "nat \<Rightarrow> (inode \<Rightarrow> inode) \<Rightarrow> 'a fs_scheme \<Rightarrow> 'a fs_scheme" where
  "set_inode ip f s = s\<lparr>itable := (itable s)(ip := f (itable s ip))\<rparr>"

definition set_icopy :: "nat \<Rightarrow> (dinode \<Rightarrow> dinode) \<Rightarrow> 'a fs_scheme \<Rightarrow> 'a fs_scheme" where
  "set_icopy ip f = set_inode ip (\<lambda>x. x\<lparr>icopy := f (icopy x)\<rparr>)"

text \<open>The disk inode at byte offset \<open>o1\<close> of a block.\<close>

definition get_dinode :: "u8 list \<Rightarrow> nat \<Rightarrow> dinode" where
  "get_dinode d o1 = \<lparr>itype = get16 d o1, imajor = get16 d (o1 + 2), iminor = get16 d (o1 + 4),
     nlink = get16 d (o1 + 6), isize = get32 d (o1 + 8),
     iaddrs = map (\<lambda>i. get32 d (o1 + 12 + 4 * i)) [0..<NDIRECT + 1]\<rparr>"

definition put_dinode :: "nat \<Rightarrow> dinode \<Rightarrow> u8 list \<Rightarrow> u8 list" where
  "put_dinode o1 x d =
     fold (\<lambda>i. put32 (o1 + 12 + 4 * i) (iaddrs x ! i)) [0..<NDIRECT + 1]
       (put32 (o1 + 8) (isize x) (put16 (o1 + 6) (nlink x) (put16 (o1 + 4) (iminor x)
         (put16 (o1 + 2) (imajor x) (put16 o1 (itype x) d)))))"

definition dinode_off :: "u32 \<Rightarrow> nat" where
  "dinode_off i = unat (i mod IPB) * 64"

section \<open>Superblock and blocks\<close>

definition readsb :: "u32 \<Rightarrow> 'a fs_scheme \<Rightarrow> 'a fs_scheme res" where
  "readsb dev s =
     bindR (bread dev 1 s) (\<lambda>(bp, s).
     let d = bdata s bp
     in brelse bp (s\<lparr>sb := \<lparr>sb_magic = get32 d 0, sb_size = get32 d 4, sb_nblocks = get32 d 8,
          sb_ninodes = get32 d 12, sb_nlog = get32 d 16, sb_logstart = get32 d 20,
          sb_inodestart = get32 d 24, sb_bmapstart = get32 d 28\<rparr>\<rparr>))"

definition fsinit :: "u32 \<Rightarrow> 'a fs_scheme \<Rightarrow> 'a fs_scheme res" where
  "fsinit dev s =
     bindR (readsb dev s) (\<lambda>s.
       if sb_magic (sb s) \<noteq> FSMAGIC then Panic ''invalid file system''
       else initlog dev (sb_logstart (sb s)) (sb_nlog (sb s)) s)"

definition bzero :: "u32 \<Rightarrow> u32 \<Rightarrow> 'a fs_scheme \<Rightarrow> 'a fs_scheme res" where
  "bzero dev bno s =
     bindR (bread dev bno s) (\<lambda>(bp, s).
     bindR (log_write bp (set_bdata bp (replicate BSIZE 0) s)) (brelse bp))"

definition bitmask :: "nat \<Rightarrow> u8" where
  "bitmask bi = push_bit (bi mod 8) 1"

text \<open>The inner loop of \<open>balloc\<close>: the first clear bit of a bitmap block below the size.\<close>

fun free_bit :: "u8 list \<Rightarrow> nat list \<Rightarrow> nat \<Rightarrow> nat \<Rightarrow> nat option" where
  "free_bit d [] b lim = None"
| "free_bit d (bi # bis) b lim =
     (if b + bi < lim
      then if d ! (bi div 8) AND bitmask bi = 0 then Some bi else free_bit d bis b lim
      else None)"

text \<open>The counter \<open>b\<close> is an \<open>int\<close>; stepping it past \<open>2 ^ 31\<close> would be undefined.\<close>

function balloc_loop :: "u32 \<Rightarrow> nat \<Rightarrow> 'a fs_scheme \<Rightarrow> (u32 \<times> 'a fs_scheme) res" where
  "balloc_loop dev b s =
     (if b < unat (sb_size (sb s)) then
        bindR (bread dev (BBLOCK (of_nat b) (sb s)) s) (\<lambda>(bp, s).
          case free_bit (bdata s bp) [0..<BPB] b (unat (sb_size (sb s))) of
            Some bi \<Rightarrow>
              let d = bdata s bp;
                  s = set_bdata bp (d[bi div 8 := d ! (bi div 8) OR bitmask bi]) s
              in bindR (log_write bp s) (\<lambda>s.
                 bindR (brelse bp s) (\<lambda>s.
                 bindR (bzero dev (of_nat (b + bi)) s) (\<lambda>s. Ok (of_nat (b + bi), s))))
          | None \<Rightarrow> bindR (brelse bp s) (\<lambda>s.
              if b + BPB \<ge> 2 ^ 31 then Undef else balloc_loop dev (b + BPB) s))
      else bindR (printf (''balloc: out of blocks'' @ newline) [] s) (\<lambda>s. Ok (0, s)))"
  by pat_completeness auto
termination
  by (relation "measure (\<lambda>(dev, b, s). 2 ^ 31 - b)") auto

declare balloc_loop.simps [simp del]

definition balloc :: "u32 \<Rightarrow> 'a fs_scheme \<Rightarrow> (u32 \<times> 'a fs_scheme) res" where
  "balloc dev s = balloc_loop dev 0 s"

definition bfree :: "u32 \<Rightarrow> u32 \<Rightarrow> 'a fs_scheme \<Rightarrow> 'a fs_scheme res" where
  "bfree dev b s =
     bindR (bread dev (BBLOCK b (sb s)) s) (\<lambda>(bp, s).
     let bi = unat (b mod 8192);
         d = bdata s bp
     in if d ! (bi div 8) AND bitmask bi = 0 then Panic ''freeing free block''
        else bindR (log_write bp (set_bdata bp (d[bi div 8 := d ! (bi div 8) AND NOT (bitmask bi)]) s))
               (brelse bp))"

section \<open>Inodes\<close>

definition iinit :: "'a fs_scheme \<Rightarrow> 'a fs_scheme" where
  "iinit s = fold (\<lambda>i. initsleeplock (SInode i) ''inode'') [0..<NINODE] (initlock LItable ''itable'' s)"

text \<open>The search of \<open>iget\<close>: the entry that holds the inode, or the first free one.\<close>

fun iscan :: "u32 \<Rightarrow> u32 \<Rightarrow> nat list \<Rightarrow> nat option \<Rightarrow> 'a fs_scheme \<Rightarrow> nat option \<times> nat option" where
  "iscan dev n [] emp s = (None, emp)"
| "iscan dev n (ip # ips) emp s =
     (if iref (itable s ip) > 0 \<and> idev (itable s ip) = dev \<and> inum (itable s ip) = n then (Some ip, emp)
      else iscan dev n ips (if emp = None \<and> iref (itable s ip) = 0 then Some ip else emp) s)"

definition iget :: "u32 \<Rightarrow> u32 \<Rightarrow> 'a fs_scheme \<Rightarrow> (nat \<times> 'a fs_scheme) res" where
  "iget dev n s =
     bindR (acquire LItable s) (\<lambda>s.
       case iscan dev n [0..<NINODE] None s of
         (Some ip, _) \<Rightarrow>
           bindR (release LItable (set_inode ip (\<lambda>x. x\<lparr>iref := iref x + 1\<rparr>) s)) (\<lambda>s. Ok (ip, s))
       | (None, Some ip) \<Rightarrow>
           bindR (release LItable (set_inode ip (\<lambda>x. x\<lparr>idev := dev, inum := n, iref := 1, ivalid := False\<rparr>) s))
             (\<lambda>s. Ok (ip, s))
       | (None, None) \<Rightarrow> Panic ''iget: no inodes'')"

fun ialloc_loop :: "u32 \<Rightarrow> u16 \<Rightarrow> nat list \<Rightarrow> 'a fs_scheme \<Rightarrow> (nat option \<times> 'a fs_scheme) res" where
  "ialloc_loop dev ty [] s =
     bindR (printf (''ialloc: no inodes'' @ newline) [] s) (\<lambda>s. Ok (None, s))"
| "ialloc_loop dev ty (i # is) s =
     bindR (bread dev (IBLOCK (of_nat i) (sb s)) s) (\<lambda>(bp, s).
     let o1 = dinode_off (of_nat i)
     in if get16 (bdata s bp) o1 = 0
        then let d = put16 o1 ty (put_bytes o1 (replicate 64 0) (bdata s bp))
             in bindR (log_write bp (set_bdata bp d s)) (\<lambda>s.
                bindR (brelse bp s) (\<lambda>s.
                bindR (iget dev (of_nat i) s) (\<lambda>(ip, s). Ok (Some ip, s))))
        else bindR (brelse bp s) (ialloc_loop dev ty is))"

definition ialloc :: "u32 \<Rightarrow> u16 \<Rightarrow> 'a fs_scheme \<Rightarrow> (nat option \<times> 'a fs_scheme) res" where
  "ialloc dev ty s = ialloc_loop dev ty [1..<unat (sb_ninodes (sb s))] s"

definition iupdate :: "nat \<Rightarrow> 'a fs_scheme \<Rightarrow> 'a fs_scheme res" where
  "iupdate ip s =
     bindR (bread (idev (itable s ip)) (IBLOCK (inum (itable s ip)) (sb s)) s) (\<lambda>(bp, s).
     let d = put_dinode (dinode_off (inum (itable s ip))) (icopy (itable s ip)) (bdata s bp)
     in bindR (log_write bp (set_bdata bp d s)) (brelse bp))"

definition idup :: "nat \<Rightarrow> 'a fs_scheme \<Rightarrow> (nat \<times> 'a fs_scheme) res" where
  "idup ip s =
     bindR (acquire LItable s) (\<lambda>s.
     bindR (release LItable (set_inode ip (\<lambda>x. x\<lparr>iref := iref x + 1\<rparr>) s)) (\<lambda>s. Ok (ip, s)))"

definition ilock :: "nat option \<Rightarrow> 'a fs_scheme \<Rightarrow> 'a fs_scheme res" where
  "ilock p s =
     (case p of
        None \<Rightarrow> Panic ''ilock''
      | Some ip \<Rightarrow>
          if iref (itable s ip) < 1 then Panic ''ilock''
          else bindR (acquiresleep (SInode ip) s) (\<lambda>s.
            if \<not> ivalid (itable s ip)
            then bindR (bread (idev (itable s ip)) (IBLOCK (inum (itable s ip)) (sb s)) s) (\<lambda>(bp, s).
                 let x = get_dinode (bdata s bp) (dinode_off (inum (itable s ip)))
                 in bindR (brelse bp (set_icopy ip (\<lambda>_. x) s)) (\<lambda>s.
                    let s = set_inode ip (\<lambda>y. y\<lparr>ivalid := True\<rparr>) s
                    in if itype (icopy (itable s ip)) = 0 then Panic ''ilock: no type'' else Ok s))
            else Ok s))"

definition iunlock :: "nat option \<Rightarrow> 'a fs_scheme \<Rightarrow> 'a fs_scheme res" where
  "iunlock p s =
     (case p of
        None \<Rightarrow> Panic ''iunlock''
      | Some ip \<Rightarrow>
          bindR (holdingsleep (SInode ip) s) (\<lambda>(h, s).
            if \<not> h \<or> iref (itable s ip) < 1 then Panic ''iunlock'' else releasesleep (SInode ip) s))"

definition itrunc :: "nat \<Rightarrow> 'a fs_scheme \<Rightarrow> 'a fs_scheme res" where
  "itrunc ip s =
     bindR (foldR (\<lambda>i s.
       let a = iaddrs (icopy (itable s ip)) ! i
       in if a \<noteq> 0
          then bindR (bfree (idev (itable s ip)) a s) (\<lambda>s.
               Ok (set_icopy ip (\<lambda>x. x\<lparr>iaddrs := (iaddrs x)[i := 0]\<rparr>) s))
          else Ok s) [0..<NDIRECT] s) (\<lambda>s.
     bindR (let a = iaddrs (icopy (itable s ip)) ! NDIRECT
            in if a \<noteq> 0
               then bindR (bread (idev (itable s ip)) a s) (\<lambda>(bp, s).
                    bindR (foldR (\<lambda>j s.
                      let x = get32 (bdata s bp) (4 * j)
                      in if x \<noteq> 0 then bfree (idev (itable s ip)) x s else Ok s) [0..<NINDIRECT] s) (\<lambda>s.
                    bindR (brelse bp s) (\<lambda>s.
                    bindR (bfree (idev (itable s ip)) (iaddrs (icopy (itable s ip)) ! NDIRECT) s) (\<lambda>s.
                    Ok (set_icopy ip (\<lambda>x. x\<lparr>iaddrs := (iaddrs x)[NDIRECT := 0]\<rparr>) s)))))
               else Ok s) (\<lambda>s.
     iupdate ip (set_icopy ip (\<lambda>x. x\<lparr>isize := 0\<rparr>) s)))"

definition iput :: "nat \<Rightarrow> 'a fs_scheme \<Rightarrow> 'a fs_scheme res" where
  "iput ip s =
     bindR (acquire LItable s) (\<lambda>s.
     bindR (if iref (itable s ip) = 1 \<and> ivalid (itable s ip) \<and> nlink (icopy (itable s ip)) = 0
            then bindR (acquiresleep (SInode ip) s) (\<lambda>s.
                 bindR (release LItable s) (\<lambda>s.
                 bindR (itrunc ip s) (\<lambda>s.
                 bindR (iupdate ip (set_icopy ip (\<lambda>x. x\<lparr>itype := 0\<rparr>) s)) (\<lambda>s.
                 bindR (releasesleep (SInode ip) (set_inode ip (\<lambda>x. x\<lparr>ivalid := False\<rparr>) s))
                   (acquire LItable)))))
            else Ok s) (\<lambda>s.
     release LItable (set_inode ip (\<lambda>x. x\<lparr>iref := iref x - 1\<rparr>) s)))"

definition iunlockput :: "nat \<Rightarrow> 'a fs_scheme \<Rightarrow> 'a fs_scheme res" where
  "iunlockput ip s = bindR (iunlock (Some ip) s) (iput ip)"

section \<open>Contents\<close>

text \<open>Allocate a block where an address is still zero; the result is the address, zero on failure.\<close>

definition bmap_direct :: "nat \<Rightarrow> nat \<Rightarrow> 'a fs_scheme \<Rightarrow> (u32 \<times> 'a fs_scheme) res" where
  "bmap_direct ip i s =
     (let addr = iaddrs (icopy (itable s ip)) ! i
      in if addr = 0
         then bindR (balloc (idev (itable s ip)) s) (\<lambda>(addr, s).
              if addr = 0 then Ok (0, s)
              else Ok (addr, set_icopy ip (\<lambda>x. x\<lparr>iaddrs := (iaddrs x)[i := addr]\<rparr>) s))
         else Ok (addr, s))"

definition bmap :: "nat \<Rightarrow> u32 \<Rightarrow> 'a fs_scheme \<Rightarrow> (u32 \<times> 'a fs_scheme) res" where
  "bmap ip bn s =
     (if unat bn < NDIRECT then bmap_direct ip (unat bn) s
      else let bn = unat (bn - 12)
           in if bn < NINDIRECT
              then bindR (bmap_direct ip NDIRECT s) (\<lambda>(addr, s).
                   if addr = 0 then Ok (0, s)
                   else bindR (bread (idev (itable s ip)) addr s) (\<lambda>(bp, s).
                     let addr = get32 (bdata s bp) (4 * bn)
                     in bindR (if addr = 0
                               then bindR (balloc (idev (itable s ip)) s) (\<lambda>(addr, s).
                                    if addr \<noteq> 0
                                    then bindR (log_write bp (set_bdata bp (put32 (4 * bn) addr (bdata s bp)) s))
                                           (\<lambda>s. Ok (addr, s))
                                    else Ok (addr, s))
                               else Ok (addr, s)) (\<lambda>(addr, s).
                        bindR (brelse bp s) (\<lambda>s. Ok (addr, s)))))
              else Panic ''bmap: out of range'')"

definition stati :: "nat \<Rightarrow> 'a fs_scheme \<Rightarrow> u32 \<times> u32 \<times> u16 \<times> u16 \<times> u64" where
  "stati ip s = (let x = itable s ip; c = icopy x in (idev x, inum x, itype c, nlink c, ucast (isize c)))"

datatype place = UserMem u64 | KernMem u64 | KernVar "u8 list"

text \<open>
  \<open>either_copyout\<close> and \<open>either_copyin\<close> for such a place; the result has the place for the
  next copy.  A local variable that is written is the list of what has been stored so far.
\<close>

definition copy_to :: "place \<Rightarrow> u8 list \<Rightarrow> 'a ptab_scheme \<Rightarrow> (i32 \<times> place \<times> 'a ptab_scheme) res" where
  "copy_to p bs s =
     (case p of
        UserMem a \<Rightarrow> bindR (either_copyout True a bs s) (\<lambda>(r, s). Ok (r, UserMem (a + of_nat (length bs)), s))
      | KernMem a \<Rightarrow> bindR (either_copyout False a bs s) (\<lambda>(r, s). Ok (r, KernMem (a + of_nat (length bs)), s))
      | KernVar v \<Rightarrow> bindR (myproc s) (\<lambda>(_, s). Ok (0, KernVar (v @ bs), s)))"

definition copy_from :: "place \<Rightarrow> nat \<Rightarrow> 'a ptab_scheme \<Rightarrow> (i32 \<times> u8 list \<times> place \<times> 'a ptab_scheme) res" where
  "copy_from p n s =
     (case p of
        UserMem a \<Rightarrow> bindR (either_copyin True a n s) (\<lambda>(r, bs, s). Ok (r, bs, UserMem (a + of_nat n), s))
      | KernMem a \<Rightarrow> bindR (either_copyin False a n s) (\<lambda>(r, bs, s). Ok (r, bs, KernMem (a + of_nat n), s))
      | KernVar v \<Rightarrow> bindR (myproc s) (\<lambda>(_, s).
          if length v < n then Undef else Ok (0, take n v, KernVar (drop n v), s)))"

text \<open>The part of a transfer that falls into the block of \<open>off\<close>.\<close>

definition chunk :: "u32 \<Rightarrow> u32 \<Rightarrow> u32 \<Rightarrow> u32" where
  "chunk tot n off = min (n - tot) (1024 - off mod 1024)"

lemma chunk_progress:
  assumes "tot < n"
  shows "unat (n - (tot + chunk tot n off)) < unat (n - tot)"
proof -
  let ?m = "chunk tot n off"
  have off: "unat (off mod 1024) < 1024" by (simp add: unat_mod)
  then have "off mod 1024 \<le> 1024" by (simp add: word_le_nat_alt)
  then have "unat (1024 - off mod 1024) = 1024 - unat (off mod 1024)" by (simp add: unat_sub)
  with off have "0 < unat (1024 - off mod 1024)" by simp
  moreover have "0 < unat (n - tot)" using assms by (simp add: unat_gt_0)
  ultimately have m: "0 < unat ?m" "?m \<le> n - tot"
    by (auto simp: chunk_def min_def)
  then have "unat (n - tot - ?m) = unat (n - tot) - unat ?m" by (simp add: unat_sub)
  with m show ?thesis by (simp add: diff_diff_eq word_le_nat_alt)
qed

function readi_loop ::
  "nat \<Rightarrow> u32 \<Rightarrow> u32 \<Rightarrow> u32 \<Rightarrow> place \<Rightarrow> 'a fs_scheme \<Rightarrow> (i32 \<times> place \<times> 'a fs_scheme) res" where
  "readi_loop ip tot off n dst s =
     (if tot < n
      then bindR (bmap ip (off div 1024) s) (\<lambda>(addr, s).
           if addr = 0 then Ok (tot, dst, s)
           else bindR (bread (idev (itable s ip)) addr s) (\<lambda>(bp, s).
             let m = chunk tot n off
             in bindR (copy_to dst (get_bytes (bdata s bp) (unat (off mod 1024)) (unat m)) s) (\<lambda>(r, dst, s).
                if r = - 1 then bindR (brelse bp s) (\<lambda>s. Ok (- 1, dst, s))
                else bindR (brelse bp s) (readi_loop ip (tot + m) (off + m) n dst))))
      else Ok (tot, dst, s))"
  by pat_completeness auto
termination
  by (relation "measure (\<lambda>(ip, tot, off, n, dst, s). unat (n - tot))") (simp_all add: chunk_progress)

declare readi_loop.simps [simp del]

definition readi ::
  "nat \<Rightarrow> place \<Rightarrow> u32 \<Rightarrow> u32 \<Rightarrow> 'a fs_scheme \<Rightarrow> (i32 \<times> place \<times> 'a fs_scheme) res" where
  "readi ip dst off n s =
     (let sz = isize (icopy (itable s ip))
      in if off > sz \<or> off + n < off then Ok (0, dst, s)
         else readi_loop ip 0 off (if off + n > sz then sz - off else n) dst s)"

function writei_loop ::
  "nat \<Rightarrow> u32 \<Rightarrow> u32 \<Rightarrow> u32 \<Rightarrow> place \<Rightarrow> 'a fs_scheme \<Rightarrow> (u32 \<times> u32 \<times> 'a fs_scheme) res" where
  "writei_loop ip tot off n src s =
     (if tot < n
      then bindR (bmap ip (off div 1024) s) (\<lambda>(addr, s).
           if addr = 0 then Ok (tot, off, s)
           else bindR (bread (idev (itable s ip)) addr s) (\<lambda>(bp, s).
             let m = chunk tot n off
             in bindR (copy_from src (unat m) s) (\<lambda>(r, bs, src, s).
                let s = set_bdata bp (put_bytes (unat (off mod 1024)) bs (bdata s bp)) s
                in if r = - 1 then bindR (brelse bp s) (\<lambda>s. Ok (tot, off, s))
                   else bindR (log_write bp s) (\<lambda>s.
                        bindR (brelse bp s) (writei_loop ip (tot + m) (off + m) n src)))))
      else Ok (tot, off, s))"
  by pat_completeness auto
termination
  by (relation "measure (\<lambda>(ip, tot, off, n, src, s). unat (n - tot))") (simp_all add: chunk_progress)

declare writei_loop.simps [simp del]

definition writei :: "nat \<Rightarrow> place \<Rightarrow> u32 \<Rightarrow> u32 \<Rightarrow> 'a fs_scheme \<Rightarrow> (i32 \<times> 'a fs_scheme) res" where
  "writei ip src off n s =
     (let sz = isize (icopy (itable s ip))
      in if off > sz \<or> off + n < off then Ok (- 1, s)
         else if off + n > of_nat (MAXFILE * BSIZE) then Ok (- 1, s)
         else bindR (writei_loop ip 0 off n src s) (\<lambda>(tot, off, s).
              let s = (if off > isize (icopy (itable s ip)) then set_icopy ip (\<lambda>x. x\<lparr>isize := off\<rparr>) s else s)
              in bindR (iupdate ip s) (\<lambda>s. Ok (tot, s))))"

section \<open>Directories\<close>

definition namecmp :: "u8 list \<Rightarrow> u8 list \<Rightarrow> int res" where
  "namecmp x y = strncmp x y DIRSIZ"

text \<open>
  Reading the entry at \<open>off\<close> into the local variable \<open>de\<close>: \<open>None\<close> when the read is short.
\<close>

definition read_dirent :: "nat \<Rightarrow> u32 \<Rightarrow> 'a fs_scheme \<Rightarrow> (u8 list option \<times> 'a fs_scheme) res" where
  "read_dirent dp off s =
     bindR (readi dp (KernVar []) off 16 s) (\<lambda>(r, v, s).
       case v of KernVar de \<Rightarrow> Ok (if r = 16 then Some de else None, s) | _ \<Rightarrow> Undef)"

definition de_inum :: "u8 list \<Rightarrow> u16" where "de_inum de = get16 de 0"
definition de_name :: "u8 list \<Rightarrow> u8 list" where "de_name de = get_bytes de 2 DIRSIZ"

text \<open>
  The entries are visited in order.  The list holds the offsets from zero below the size of the
  directory in steps of the entry size; the size of a directory that is being searched is fixed,
  because its caller holds the lock, and an offset past the largest file makes \<open>bmap\<close> panic long
  before the offsets could wrap around.
\<close>

definition dir_offs :: "nat \<Rightarrow> 'a fs_scheme \<Rightarrow> u32 list" where
  "dir_offs dp s = map (\<lambda>i. of_nat (16 * i)) [0..<(unat (isize (icopy (itable s dp))) + 15) div 16]"

fun dirlookup_loop ::
  "nat \<Rightarrow> u8 list \<Rightarrow> u32 list \<Rightarrow> 'a fs_scheme \<Rightarrow> ((nat \<times> u32) option \<times> 'a fs_scheme) res" where
  "dirlookup_loop dp name [] s = Ok (None, s)"
| "dirlookup_loop dp name (off # offs) s =
     bindR (read_dirent dp off s) (\<lambda>(r, s).
       case r of
         None \<Rightarrow> Panic ''dirlookup read''
       | Some de \<Rightarrow>
           if de_inum de = 0 then dirlookup_loop dp name offs s
           else bindR (namecmp name (de_name de)) (\<lambda>c.
                if c = 0
                then bindR (iget (idev (itable s dp)) (ucast (de_inum de)) s) (\<lambda>(ip, s). Ok (Some (ip, off), s))
                else dirlookup_loop dp name offs s))"

definition dirlookup :: "nat \<Rightarrow> u8 list \<Rightarrow> 'a fs_scheme \<Rightarrow> ((nat \<times> u32) option \<times> 'a fs_scheme) res" where
  "dirlookup dp name s =
     (if itype (icopy (itable s dp)) \<noteq> T_DIR then Panic ''dirlookup not DIR''
      else dirlookup_loop dp name (dir_offs dp s) s)"

text \<open>The second loop of \<open>dirlink\<close>: the first free entry, or the end, with the last entry read.\<close>

fun dirlink_loop ::
  "nat \<Rightarrow> u32 list \<Rightarrow> u32 \<Rightarrow> u8 list \<Rightarrow> 'a fs_scheme \<Rightarrow> (u32 \<times> u8 list \<times> 'a fs_scheme) res" where
  "dirlink_loop dp [] off de s = Ok (off, de, s)"
| "dirlink_loop dp (off # offs) _ _ s =
     bindR (read_dirent dp off s) (\<lambda>(r, s).
       case r of
         None \<Rightarrow> Panic ''dirlink read''
       | Some de \<Rightarrow> if de_inum de = 0 then Ok (off, de, s) else dirlink_loop dp offs (off + 16) de s)"

text \<open>An entry that is appended to an empty directory has no previous contents to show through.\<close>

definition dirlink :: "nat \<Rightarrow> u8 list \<Rightarrow> u32 \<Rightarrow> 'a fs_scheme \<Rightarrow> (i32 \<times> 'a fs_scheme) res" where
  "dirlink dp name n s =
     bindR (dirlookup dp name s) (\<lambda>(r, s).
       case r of
         Some (ip, _) \<Rightarrow> bindR (iput ip s) (\<lambda>s. Ok (- 1, s))
       | None \<Rightarrow>
           bindR (dirlink_loop dp (dir_offs dp s) 0 (replicate 16 0) s) (\<lambda>(off, de, s).
           bindR (strncpy (de_name de) name DIRSIZ) (\<lambda>nm.
           let de = put_bytes 2 nm (put16 0 (ucast n) de)
           in bindR (writei dp (KernVar de) off 16 s) (\<lambda>(r, s).
              Ok (if r \<noteq> 16 then - 1 else 0, s)))))"

section \<open>Paths\<close>

abbreviation (input) SLASH :: u8 where "SLASH \<equiv> 0x2F"

text \<open>A pointer into a path is the rest of the array from there on.\<close>

fun skip_slashes :: "u8 list \<Rightarrow> u8 list res" where
  "skip_slashes [] = Undef"
| "skip_slashes (c # cs) = (if c = SLASH then skip_slashes cs else Ok (c # cs))"

fun span_elem :: "u8 list \<Rightarrow> (u8 list \<times> u8 list) res" where
  "span_elem [] = Undef"
| "span_elem (c # cs) =
     (if c \<noteq> SLASH \<and> c \<noteq> 0 then bindR (span_elem cs) (\<lambda>(e, r). Ok (c # e, r)) else Ok ([], c # cs))"

definition skipelem :: "u8 list \<Rightarrow> u8 list \<Rightarrow> (u8 list option \<times> u8 list) res" where
  "skipelem path name =
     bindR (skip_slashes path) (\<lambda>path.
       if hd path = 0 then Ok (None, name)
       else bindR (span_elem path) (\<lambda>(e, path).
            let name = (if length e \<ge> DIRSIZ then put_bytes 0 (take DIRSIZ e) name
                        else put_bytes 0 (e @ [0]) name)
            in bindR (skip_slashes path) (\<lambda>path. Ok (Some path, name))))"

lemma skip_slashes_OkD: "skip_slashes p = Ok q \<Longrightarrow> length q \<le> length p \<and> q \<noteq> [] \<and> hd q \<noteq> SLASH"
  by (induction p) (auto split: if_splits)

lemma span_elem_OkD:
  "span_elem p = Ok (e, q) \<Longrightarrow> p = e @ q \<and> q \<noteq> [] \<and> (hd q = SLASH \<or> hd q = 0) \<and> SLASH \<notin> set e \<and> 0 \<notin> set e"
  by (induction p arbitrary: e) (auto split: if_splits elim!: bindR_OkE)

lemma skipelem_shorter:
  assumes "skipelem path name = Ok (Some q, nm)"
  shows "length q < length path"
proof -
  obtain p e r where p: "skip_slashes path = Ok p" "hd p \<noteq> 0"
    and e: "span_elem p = Ok (e, r)" and q: "skip_slashes r = Ok q"
    using assms by (auto simp: skipelem_def Let_def split: if_splits elim!: bindR_OkE)
  have "e \<noteq> []" using span_elem_OkD [OF e] skip_slashes_OkD [OF p(1)] p(2) by auto
  then show ?thesis
    using span_elem_OkD [OF e] skip_slashes_OkD [OF p(1)] skip_slashes_OkD [OF q] by (cases e) auto
qed

function namex_loop ::
  "nat \<Rightarrow> u8 list \<Rightarrow> bool \<Rightarrow> u8 list \<Rightarrow> 'a fs_scheme \<Rightarrow> (nat option \<times> u8 list \<times> 'a fs_scheme) res" where
  "namex_loop ip path nameiparent name s =
     bindR (skipelem path name) (\<lambda>(r, name).
       case r of
         None \<Rightarrow> if nameiparent then bindR (iput ip s) (\<lambda>s. Ok (None, name, s)) else Ok (Some ip, name, s)
       | Some path \<Rightarrow>
           bindR (ilock (Some ip) s) (\<lambda>s.
             if itype (icopy (itable s ip)) \<noteq> T_DIR
             then bindR (iunlockput ip s) (\<lambda>s. Ok (None, name, s))
             else if nameiparent \<and> hd path = 0
             then bindR (iunlock (Some ip) s) (\<lambda>s. Ok (Some ip, name, s))
             else bindR (dirlookup ip name s) (\<lambda>(nxt, s).
                  case nxt of
                    None \<Rightarrow> bindR (iunlockput ip s) (\<lambda>s. Ok (None, name, s))
                  | Some (nxt, _) \<Rightarrow> bindR (iunlockput ip s) (namex_loop nxt path nameiparent name))))"
  by pat_completeness auto
termination
  by (relation "measure (\<lambda>(ip, path, np, name, s). length path)") (auto dest: skipelem_shorter)

declare namex_loop.simps [simp del]

definition namex :: "u8 list \<Rightarrow> bool \<Rightarrow> u8 list \<Rightarrow> 'a fs_scheme \<Rightarrow> (nat option \<times> u8 list \<times> 'a fs_scheme) res" where
  "namex path nameiparent name s =
     bindR (arr_get path 0) (\<lambda>c.
     bindR (if c = SLASH then iget ROOTDEV ROOTINO s
            else bindR (curproc s) (\<lambda>(p, s).
                 case cwd (procs s p) of None \<Rightarrow> Undef | Some ip \<Rightarrow> idup ip s)) (\<lambda>(ip, s).
     namex_loop ip path nameiparent name s))"

text \<open>What the uninitialised array \<open>name\<close> holds at first is never read.\<close>

definition namei :: "u8 list \<Rightarrow> 'a fs_scheme \<Rightarrow> (nat option \<times> 'a fs_scheme) res" where
  "namei path s = bindR (namex path False (replicate DIRSIZ 0) s) (\<lambda>(ip, _, s). Ok (ip, s))"

definition nameiparent :: "u8 list \<Rightarrow> u8 list \<Rightarrow> 'a fs_scheme \<Rightarrow> (nat option \<times> u8 list \<times> 'a fs_scheme) res" where
  "nameiparent path name s = namex path True name s"

section \<open>A concrete state\<close>

text \<open>Hart 0 runs process 3, the cache is empty, the disk is blank and no inode is in use.\<close>

definition demo_fs :: "'x \<Rightarrow> 'x fs_scheme" where
  "demo_fs x = fresh_cache (\<lambda>_. 0) \<lparr>log_start = 2, log_size = 30, outstanding = 1, committing = False, log_dev = ROOTDEV,
     log_lh = \<lparr>lh_n = 0, lh_block = replicate LOGSIZE 0\<rparr>,
     sb = \<lparr>sb_magic = 0x10203040, sb_size = 2000, sb_nblocks = 1954, sb_ninodes = 200, sb_nlog = 30, sb_logstart = 2,
           sb_inodestart = 32, sb_bmapstart = 45\<rparr>,
     itable = (\<lambda>_. \<lparr>idev = 0, inum = 0, iref = 0, ivalid = False,
       icopy = \<lparr>itype = 0, imajor = 0, iminor = 0, nlink = 0, isize = 0, iaddrs = replicate 13 0\<rparr>\<rparr>), \<dots> = x\<rparr>"

lemma demo_fs_more: "fs.more (demo_fs x) = x" "itable (demo_fs x) = (\<lambda>_. \<lparr>idev = 0, inum = 0, iref = 0, ivalid = False,
       icopy = \<lparr>itype = 0, imajor = 0, iminor = 0, nlink = 0, isize = 0, iaddrs = replicate 13 0\<rparr>\<rparr>)"
proof -
  have "vdisk.more (demo_fs x) = \<lparr>log_start = 2, log_size = 30, outstanding = 1, committing = False, log_dev = ROOTDEV,
     log_lh = \<lparr>lh_n = 0, lh_block = replicate LOGSIZE 0\<rparr>,
     sb = \<lparr>sb_magic = 0x10203040, sb_size = 2000, sb_nblocks = 1954, sb_ninodes = 200, sb_nlog = 30, sb_logstart = 2,
           sb_inodestart = 32, sb_bmapstart = 45\<rparr>,
     itable = (\<lambda>_. \<lparr>idev = 0, inum = 0, iref = 0, ivalid = False,
       icopy = \<lparr>itype = 0, imajor = 0, iminor = 0, nlink = 0, isize = 0, iaddrs = replicate 13 0\<rparr>\<rparr>), \<dots> = x\<rparr>"
    by (simp add: demo_fs_def fresh_cache_more)
  then show "fs.more (demo_fs x) = x" "itable (demo_fs x) = (\<lambda>_. \<lparr>idev = 0, inum = 0, iref = 0, ivalid = False,
       icopy = \<lparr>itype = 0, imajor = 0, iminor = 0, nlink = 0, isize = 0, iaddrs = replicate 13 0\<rparr>\<rparr>)"
    by (cases "demo_fs x"; simp)+
qed

lemma demo_fs_quiet: "quiet 3 (demo_fs x)" "calm 3 (demo_fs x)" "lock_free l (demo_fs x)" "settle (demo_fs x) = demo_fs x"
proof -
  show q: "quiet 3 (demo_fs x)" and "settle (demo_fs x) = demo_fs x"
    unfolding demo_fs_def by (rule fresh_cache_ok(2)) (rule fresh_cache_more(2))
  show "calm 3 (demo_fs x)" "lock_free l (demo_fs x)" by (rule quietD(1) [OF q]) (rule quietD(2) [OF q])
qed

end
