(* ===== verification/Ring.thy ===== *)
theory Ring
  imports Prelude
begin

text \<open>
  The ring buffers of the kernel.  The UART, the console and the pipes all keep bytes in an array
  of fixed size and count reads and writes in unsigned integers that are never reduced: an entry
  with count \<open>i\<close> is at index \<open>i\<close> modulo the size, and the counters wrap around.  The locale states
  what such an index function has to satisfy; inside it the buffer is shown to be a first-in
  first-out queue of the entries between the two counters.
\<close>

definition queue_of :: "('l::len word \<Rightarrow> nat) \<Rightarrow> 'a list \<Rightarrow> 'l word \<Rightarrow> 'l word \<Rightarrow> 'a list" where
  "queue_of slot buf r w = map (\<lambda>i. buf ! slot (r + of_nat i)) [0..<unat (w - r)]"

lemma queue_of_empty [simp]: "queue_of slot buf r r = []"
  by (simp add: queue_of_def)

lemma queue_of_length [simp]: "length (queue_of slot buf r w) = unat (w - r)"
  by (simp add: queue_of_def)

lemma queue_of_nil: "queue_of slot buf r w = [] \<longleftrightarrow> w = r"
  by (simp add: queue_of_def unat_eq_0)

lemma unat_Suc_diff:
  fixes a b :: "'l::len word"
  assumes "unat (a - b) + 1 < 2 ^ LENGTH('l)"
  shows "unat (a + 1 - b) = unat (a - b) + 1"
proof -
  have e: "a + 1 - b = (a - b) + 1" by simp
  show ?thesis unfolding e unat_word_ariths(1) using assms by simp
qed

lemma queue_of_pop:
  fixes r w :: "'l::len word"
  assumes "w \<noteq> r"
  shows "queue_of slot buf r w = buf ! slot r # queue_of slot buf (r + 1) w"
proof -
  have "unat (w - r) = Suc (unat (w - (r + 1)))"
    using assms unat_minus_one [of "w - r"] unat_gt_0 [of "w - r"] by (simp add: diff_diff_eq)
  then show ?thesis
    unfolding queue_of_def by (simp add: upt_conv_Cons map_Suc_upt [symmetric] add.assoc comp_def del: upt_Suc)
qed

lemma queue_of_drop_last:
  fixes r w :: "'l::len word"
  assumes "w \<noteq> r"
  shows "queue_of slot buf r (w - 1) = butlast (queue_of slot buf r w)" "unat (w - 1 - r) = unat (w - r) - 1"
    "last (queue_of slot buf r w) = buf ! slot (w - 1)"
proof -
  have e: "w - 1 - r = (w - r) - 1" by simp
  show u: "unat (w - 1 - r) = unat (w - r) - 1" unfolding e by (rule unat_minus_one) (use assms in simp)
  have p: "0 < unat (w - r)" using assms by (simp add: unat_gt_0)
  then obtain k where k: "unat (w - r) = Suc k" by (cases "unat (w - r)") simp_all
  then show "queue_of slot buf r (w - 1) = butlast (queue_of slot buf r w)"
    using u by (simp add: queue_of_def butlast_append)
  have "of_nat (unat (w - r)) = w - r" by simp
  then have "of_nat k + 1 = w - r" unfolding k by (simp add: add.commute)
  then have "r + of_nat k = w - 1" by (simp add: algebra_simps)
  then show "last (queue_of slot buf r w) = buf ! slot (w - 1)" using k by (simp add: queue_of_def)
qed

locale ring =
  fixes slot :: "'l::len word \<Rightarrow> nat" and N :: nat
  assumes N_pos: "0 < N" and N_small: "N < 2 ^ LENGTH('l)"
    and slot_less: "slot i < N"
    and slot_inj: "0 < unat (j - i) \<Longrightarrow> unat (j - i) < N \<Longrightarrow> slot j \<noteq> slot i"
begin

text \<open>Writing an entry appends it, as long as the buffer is not full.\<close>

lemma queue_push:
  assumes "unat (w - r) < N" and "length buf = N"
  shows "queue_of slot (buf[slot w := x]) r (w + 1) = queue_of slot buf r w @ [x]"
proof -
  have s: "unat (w + 1 - r) = Suc (unat (w - r))"
    using assms(1) N_small by (simp add: unat_Suc_diff)
  have "(buf[slot w := x]) ! slot (r + of_nat i) = buf ! slot (r + of_nat i)" if i: "i < unat (w - r)" for i
  proof -
    have small: "i < 2 ^ LENGTH('l)" using i by (rule less_trans) (rule unsigned_less)
    have "unat (w - (r + of_nat i)) = unat (w - r) - i"
    proof -
      have e: "w - (r + of_nat i) = (w - r) - of_nat i" by (rule diff_diff_eq [symmetric])
      have u: "unat (of_nat i :: 'l word) = i" using small by (simp add: unat_of_nat)
      then have "of_nat i \<le> w - r" using i by (simp add: word_le_nat_alt)
      then show ?thesis unfolding e by (subst unat_sub) (simp_all only: u)
    qed
    then have "slot w \<noteq> slot (r + of_nat i)" using slot_inj [of w "r + of_nat i"] i assms(1) by simp
    then show ?thesis by simp
  qed
  moreover have "(buf[slot w := x]) ! slot (r + of_nat (unat (w - r))) = x"
    using slot_less [of w] assms(2) by simp
  ultimately show ?thesis by (simp add: queue_of_def s)
qed

lemma fill_push:
  fixes w r :: "'l word"
  shows "unat (w - r) < N \<Longrightarrow> unat (w + 1 - r) \<le> N \<and> unat (w + 1 - r) = Suc (unat (w - r))"
  using N_small unat_Suc_diff [of w r] by linarith

text \<open>The buffer is full exactly when the counters differ by its size.\<close>

lemma full_iff:
  fixes w r :: "'l word"
  shows "w = r + of_nat N \<longleftrightarrow> unat (w - r) = N"
proof -
  have "w = r + of_nat N \<longleftrightarrow> w - r = of_nat N" by (auto simp: algebra_simps)
  also have "\<dots> \<longleftrightarrow> unat (w - r) = N" using N_small by (auto simp: unat_of_nat word_unat_eq_iff)
  finally show ?thesis .
qed

lemma fill_pop:
  fixes w r :: "'l word"
  shows "w \<noteq> r \<Longrightarrow> unat (w - r) \<le> N \<Longrightarrow> unat (w - (r + 1)) < N"
  using arg_cong [OF queue_of_pop [of w r slot "[] :: nat list"], of length] by simp

end

text \<open>An index taken modulo a power of two that divides the range of the counter.\<close>

lemma ring_mod:
  fixes slot :: "'l::len word \<Rightarrow> nat"
  assumes "\<And>i. slot i = unat i mod N" and "N dvd 2 ^ LENGTH('l)" and "N < 2 ^ LENGTH('l)"
  shows "ring slot N"
proof
  show p: "0 < N" using assms(2) by (auto intro: ccontr)
  show "N < 2 ^ LENGTH('l)" by (rule assms(3))
  show "slot i < N" for i using p by (simp add: assms(1))
  fix i j :: "'l word"
  assume d: "0 < unat (j - i)" "unat (j - i) < N"
  have "unat j = (unat (j - i) + unat i) mod 2 ^ LENGTH('l)" using unat_word_ariths(1) [of "j - i" i] by simp
  then have "slot j = (unat (j - i) + unat i) mod N" using assms(2) by (simp add: assms(1) mod_mod_cancel)
  moreover have "(unat (j - i) + unat i) mod N \<noteq> unat i mod N"
  proof
    assume "(unat (j - i) + unat i) mod N = unat i mod N"
    then have "N dvd unat (j - i)" using mod_eq_dvd_iff_nat [of "unat i" "unat (j - i) + unat i" N] by simp
    then show False using d by (simp add: nat_dvd_not_less)
  qed
  ultimately show "slot j \<noteq> slot i" by (simp add: assms(1))
qed

end
