(* ===== verification/Uart.thy ===== *)
theory Uart
  imports Fs Ring
begin

text \<open>
  \<open>kernel/uart.c\<close>, the interrupt-driven half.  The device is seen through its registers:
  \<open>tx_idle n\<close> is the answer to the \<open>n\<close>-th read of the transmitter-idle bit, \<open>rx_in\<close> holds the
  bytes that wait in the receiver, and what is sent goes to \<open>uart_out\<close>.
\<close>

abbreviation (input) UART_TX_BUF_SIZE :: nat where "UART_TX_BUF_SIZE \<equiv> 32"

record uart = fs +
  uart_tx_buf :: "u8 list"
  uart_tx_w :: u64
  uart_tx_r :: u64
  tx_idle :: "nat \<Rightarrow> bool"
  lsr_reads :: nat
  rx_in :: "u8 list"

text \<open>What a routine that may sleep comes to: a result, or the point at which it goes to sleep.\<close>

datatype 'a io = Ret i32 | Wait 'a

text \<open>Callers for which the wait is not resumed here.\<close>

fun must_return :: "('a io \<times> 's) res \<Rightarrow> (i32 \<times> 's) res" where
  "must_return (Ok (Ret r, s)) = Ok (r, s)"
| "must_return (Ok (Wait _, s)) = Spin"
| "must_return (Panic m) = Panic m"
| "must_return Spin = Spin"
| "must_return Undef = Undef"

definition uartinit :: "'a uart_scheme \<Rightarrow> 'a uart_scheme" where
  "uartinit s =
     (let s = wreg ''IER'' 0 s;
          s = wreg ''LCR'' (push_bit 7 1) s;
          s = wreg ''UART0+0'' 3 s;
          s = wreg ''UART0+1'' 0 s;
          s = wreg ''LCR'' 3 s;
          s = wreg ''FCR'' (1 OR push_bit 1 3) s;
          s = wreg ''IER'' (2 OR 1) s
      in initlock LUartTx ''uart'' s)"

text \<open>The index at which the buffer is read or written.\<close>

definition tx_slot :: "u64 \<Rightarrow> nat" where
  "tx_slot i = unat (i mod 32)"

lemma wakeup_uart:
  assumes "wakeup ch s = Ok t"
  shows "uart_tx_buf t = uart_tx_buf s" "uart_tx_w t = uart_tx_w s" "uart_tx_r t = uart_tx_r s"
    "tx_idle t = tx_idle s" "lsr_reads t = lsr_reads s" "rx_in t = rx_in s"
  using wakeup_more [OF assms] by (cases s; cases t; simp)+

text \<open>When nothing is left to send, the code also reads the register \<open>ISR\<close>.  That acknowledges the interrupt at
  the device and touches none of this state.\<close>

function uartstart :: "'a uart_scheme \<Rightarrow> 'a uart_scheme res" where
  "uartstart s =
     (if uart_tx_w s = uart_tx_r s then Ok s
      else let idle = tx_idle s (lsr_reads s);
               s = s\<lparr>lsr_reads := lsr_reads s + 1\<rparr>
           in if \<not> idle then Ok s
              else bindR (arr_get (uart_tx_buf s) (tx_slot (uart_tx_r s))) (\<lambda>c.
                   bindR (wakeup ChUartTx (s\<lparr>uart_tx_r := uart_tx_r s + 1\<rparr>)) (\<lambda>s.
                   uartstart (s\<lparr>uart_out := uart_out s @ [c]\<rparr>))))"
  by pat_completeness auto
termination
proof (relation "measure (\<lambda>s. unat (uart_tx_w s - uart_tx_r s))", goal_cases)
  case (2 s idle s1 c t)
  let ?d = "uart_tx_w s - uart_tx_r s"
  have "unat (?d - 1) = unat ?d - 1" using 2(1) by (intro unat_minus_one) simp
  moreover have "0 < unat ?d" using 2(1) by (simp add: unat_gt_0)
  moreover have "uart_tx_w t - uart_tx_r t = ?d - 1"
    using wakeup_uart [OF 2(6)] 2(3) by (simp add: diff_diff_eq)
  ultimately show ?case by simp
qed simp

declare uartstart.simps [simp del]

definition uartputc :: "u8 \<Rightarrow> 'a uart_scheme \<Rightarrow> 'a uart_scheme res" where
  "uartputc c s =
     bindR (acquire LUartTx s) (\<lambda>s.
       if panicked s then Spin
       else if uart_tx_w s = uart_tx_r s + 32 then Spin
       else bindR (arr_set (uart_tx_buf s) (tx_slot (uart_tx_w s)) c) (\<lambda>buf.
            bindR (uartstart (s\<lparr>uart_tx_buf := buf, uart_tx_w := uart_tx_w s + 1\<rparr>)) (release LUartTx)))"

definition uartgetc :: "'a uart_scheme \<Rightarrow> i32 \<times> 'a uart_scheme" where
  "uartgetc s = (case rx_in s of [] \<Rightarrow> (- 1, s) | c # cs \<Rightarrow> (ucast c, s\<lparr>rx_in := cs\<rparr>))"

section \<open>The transmit buffer is a queue\<close>

interpretation tx: ring tx_slot 32
  by (rule ring_mod) (simp_all add: tx_slot_def unat_mod)

definition tx_queue :: "'a uart_scheme \<Rightarrow> u8 list" where
  "tx_queue s = queue_of tx_slot (uart_tx_buf s) (uart_tx_r s) (uart_tx_w s)"

definition uart_ok :: "'a uart_scheme \<Rightarrow> bool" where
  "uart_ok s \<longleftrightarrow> length (uart_tx_buf s) = 32 \<and> unat (uart_tx_w s - uart_tx_r s) \<le> 32"

lemma uart_frame [simp]:
  "same_mach u (s\<lparr>uart_tx_r := a\<rparr>) = same_mach u s" "same_mach u (s\<lparr>uart_tx_w := a\<rparr>) = same_mach u s"
  "same_mach u (s\<lparr>uart_tx_buf := b\<rparr>) = same_mach u s" "same_mach u (s\<lparr>lsr_reads := n\<rparr>) = same_mach u s"
  "same_mach u (s\<lparr>uart_out := c\<rparr>) = same_mach u s"
  by (simp_all add: same_mach_def)

lemma uart_settle [simp]:
  "uart_tx_r (settle s) = uart_tx_r s" "uart_tx_w (settle s) = uart_tx_w s" "uart_tx_buf (settle s) = uart_tx_buf s"
  "tx_idle (settle s) = tx_idle s" "lsr_reads (settle s) = lsr_reads s" "uart_out (settle s) = uart_out s"
  "uart_tx_r (grab l s) = uart_tx_r s" "uart_tx_w (grab l s) = uart_tx_w s" "uart_tx_buf (grab l s) = uart_tx_buf s"
  "tx_idle (grab l s) = tx_idle s" "lsr_reads (grab l s) = lsr_reads s" "uart_out (grab l s) = uart_out s"
  "panicked (grab l s) = panicked s"
  by (simp_all add: settle_def grab_def)

text \<open>\<open>uartstart\<close> returns, and moves a prefix of the queue to the device, up to the point where the device is busy.\<close>

lemma uartstart_sends:
  assumes "calm p s" and "settle s = s" and "uart_ok s"
  shows "\<exists>t. uartstart s = Ok t \<and> same_mach s t \<and> only_states (procs s) (procs t) \<and> uart_ok t \<and> tx_idle t = tx_idle s \<and>
    uart_out t @ tx_queue t = uart_out s @ tx_queue s \<and> (tx_queue t = [] \<or> \<not> tx_idle s (lsr_reads t - 1)) \<and>
    uart_tx_w t = uart_tx_w s"
  using assms
proof (induction s rule: uartstart.induct)
  case (1 s)
  let ?s = "s\<lparr>lsr_reads := lsr_reads s + 1\<rparr>"
  show ?case
  proof (cases "uart_tx_w s = uart_tx_r s \<or> \<not> tx_idle s (lsr_reads s)")
    case True
    then show ?thesis
      using 1(4) by (subst uartstart.simps) (auto simp: Let_def uart_ok_def tx_queue_def same_mach_def)
  next
    case False
    let ?c = "uart_tx_buf s ! tx_slot (uart_tx_r s)"
    let ?u = "(settle (?s\<lparr>uart_tx_r := uart_tx_r s + 1\<rparr>))\<lparr>procs := woken p ChUartTx (procs s)\<rparr>"
    let ?v = "?u\<lparr>uart_out := uart_out ?u @ [?c]\<rparr>"
    have g: "arr_get (uart_tx_buf ?s) (tx_slot (uart_tx_r ?s)) = Ok ?c"
      using tx.slot_less [of "uart_tx_r s"] 1(4) by (simp add: arr_get_def uart_ok_def)
    have c: "calm p (?s\<lparr>uart_tx_r := uart_tx_r s + 1\<rparr>)" using 1(2) by (simp add: calm_def cpu_ok_def lock_free_def mach_defs)
    from wakeup_calm [OF this, of ChUartTx] have w: "wakeup ChUartTx (?s\<lparr>uart_tx_r := uart_tx_r ?s + 1\<rparr>) = Ok ?u" by simp
    have m: "same_mach s ?v" using 1(3) same_mach_settle [of s "?s\<lparr>uart_tx_r := uart_tx_r s + 1\<rparr>"] by simp
    have q: "uart_out ?v @ tx_queue ?v = uart_out s @ tx_queue s"
      using False queue_of_pop [of "uart_tx_w s" "uart_tx_r s" tx_slot "uart_tx_buf s"] by (simp add: tx_queue_def)
    have ok: "uart_ok ?v" using 1(4) tx.fill_pop [of "uart_tx_w s" "uart_tx_r s"] False by (simp add: uart_ok_def)
    have "\<exists>t. uartstart ?v = Ok t \<and> same_mach ?v t \<and> only_states (procs ?v) (procs t) \<and> uart_ok t \<and> tx_idle t = tx_idle ?v \<and>
      uart_out t @ tx_queue t = uart_out ?v @ tx_queue ?v \<and> (tx_queue t = [] \<or> \<not> tx_idle ?v (lsr_reads t - 1)) \<and>
      uart_tx_w t = uart_tx_w ?v"
    proof (rule 1(1) [OF _ refl refl _ g [folded fun_upd_def] w])
      show "settle ?v = ?v" using m 1(3) by (metis settle_same_mach)
      show "calm p ?v" using calm_same_mach [OF m] 1(2) by simp
    qed (use False ok in simp_all)
    then obtain t where t: "uartstart ?v = Ok t" "same_mach ?v t" "only_states (procs ?v) (procs t)" "uart_ok t" "tx_idle t = tx_idle s"
      "uart_out t @ tx_queue t = uart_out s @ tx_queue s" "tx_queue t = [] \<or> \<not> tx_idle s (lsr_reads t - 1)" "uart_tx_w t = uart_tx_w s"
      unfolding q by auto
    have "uartstart s = Ok t" using t(1) False g w by (subst uartstart.simps) (simp add: Let_def)
    moreover have "same_mach s t" using m t(2) by (simp add: same_mach_def)
    moreover have "only_states (procs s) (procs t)" using t(3) only_states_trans [OF only_states_woken] by simp
    ultimately show ?thesis using t by blast
  qed
qed

definition demo_uart :: "u8 list \<Rightarrow> 'x \<Rightarrow> 'x uart_scheme" where
  "demo_uart rx x = demo_fs \<lparr>uart_tx_buf = replicate 32 0, uart_tx_w = 0, uart_tx_r = 0, tx_idle = even, lsr_reads = 0,
     rx_in = rx, \<dots> = x\<rparr>"

lemma demo_uart_fields: "uart_tx_buf (demo_uart rx x) = replicate 32 0" "uart_tx_w (demo_uart rx x) = 0" "uart_tx_r (demo_uart rx x) = 0"
  "tx_idle (demo_uart rx x) = even" "lsr_reads (demo_uart rx x) = 0" "rx_in (demo_uart rx x) = rx" "uart.more (demo_uart rx x) = x"
proof -
  have "fs.more (demo_uart rx x) = \<lparr>uart_tx_buf = replicate 32 0, uart_tx_w = 0, uart_tx_r = 0, tx_idle = even, lsr_reads = 0,
     rx_in = rx, \<dots> = x\<rparr>" by (simp add: demo_uart_def demo_fs_more)
  then show "uart_tx_buf (demo_uart rx x) = replicate 32 0" "uart_tx_w (demo_uart rx x) = 0" "uart_tx_r (demo_uart rx x) = 0"
    "tx_idle (demo_uart rx x) = even" "lsr_reads (demo_uart rx x) = 0" "rx_in (demo_uart rx x) = rx" "uart.more (demo_uart rx x) = x"
    by (cases "demo_uart rx x"; simp)+
qed

lemma fresh_cache_out: "panicked (fresh_cache med x) = False" "uart_out (fresh_cache med x) = []"
  using binit_rest [of "fresh_bufs med x"]
  by (auto simp: binit_rel_def fresh_cache_def fresh_bufs_def demo_vdisk_def init_ptab_def slk.defs ptab.defs vdisk.defs)

text \<open>C26. The transmit buffer is a queue.  \<open>uartputc\<close> waits exactly when 32 bytes are pending; otherwise it returns, and
  the bytes sent so far followed by the pending ones are those from before followed by the new byte: none is lost,
  duplicated or reordered, also when the counters wrap around.\<close>

theorem uart_fifo:
  assumes "calm p s" and "lock_free LUartTx s" and "uart_ok s" and "\<not> panicked s"
  shows "if length (tx_queue s) = 32 then uartputc c s = Spin
    else \<exists>t. uartputc c s = Ok t \<and> calm p t \<and> uart_ok t \<and> uart_out t @ tx_queue t = uart_out s @ tx_queue s @ [c] \<and>
           (tx_queue t = [] \<or> \<not> tx_idle s (lsr_reads t - 1))"
proof (cases "unat (uart_tx_w s - uart_tx_r s) = 32")
  case True
  then have "uart_tx_w s = uart_tx_r s + 32" using tx.full_iff [of "uart_tx_w s" "uart_tx_r s"] by simp
  then show ?thesis using True assms(4) by (simp add: uartputc_def acquire_free [OF assms(2)] tx_queue_def)
next
  case False
  then have lt: "unat (uart_tx_w s - uart_tx_r s) < 32" using assms(3) by (simp add: uart_ok_def)
  let ?g = "grab LUartTx s"
  let ?u = "?g\<lparr>uart_tx_buf := (uart_tx_buf s)[tx_slot (uart_tx_w s) := c], uart_tx_w := uart_tx_w s + 1\<rparr>"
  have m: "same_mach ?g ?u" by simp
  have "calm p ?g" using calm_grab [OF assms(1)] by simp
  then have cu: "calm p ?u" using calm_same_mach [OF m] by simp
  have su: "settle ?u = ?u"
    using settle_same_mach [of ?g ?u] m settle_grab [OF calmD(1) [OF assms(1)], of LUartTx] by simp
  have ok: "uart_ok ?u" using assms(3) tx.fill_push [OF lt] by (simp add: uart_ok_def)
  have q: "tx_queue ?u = tx_queue s @ [c]"
    using tx.queue_push [OF lt, of "uart_tx_buf s" c] assms(3) by (simp add: tx_queue_def uart_ok_def)
  obtain t where t: "uartstart ?u = Ok t" "same_mach ?u t" "uart_ok t" "uart_out t @ tx_queue t = uart_out s @ tx_queue s @ [c]"
    "tx_queue t = [] \<or> \<not> tx_idle s (lsr_reads t - 1)"
    using uartstart_sends [OF cu su ok] q by auto
  have mt: "same_mach ?g t" using t(2) by (simp add: same_mach_def)
  let ?t = "at_mach (settle s) t"
  have "uart_tx_w s \<noteq> uart_tx_r s + 32" using False tx.full_iff [of "uart_tx_w s" "uart_tx_r s"] by simp
  moreover have "release LUartTx t = Ok ?t" by (rule release_section [OF calmD(1) [OF assms(1)] assms(2) mt])
  ultimately have "uartputc c s = Ok ?t"
    using t(1) tx.slot_less [of "uart_tx_w s"] assms(3,4)
    by (simp add: uartputc_def acquire_free [OF assms(2)] arr_set_def uart_ok_def)
  moreover have "calm p ?t" using assms(1) calm_same_mach [of "settle s" ?t] by (simp add: same_mach_def at_mach_def)
  moreover have "uart_ok ?t = uart_ok t" "tx_queue ?t = tx_queue t" "uart_out ?t = uart_out t" "lsr_reads ?t = lsr_reads t"
    by (simp_all add: at_mach_def uart_ok_def tx_queue_def)
  ultimately show ?thesis using t False by (simp add: tx_queue_def)
qed

theorem uart_fifo_witness:
  "\<exists>t. uartputc 65 (demo_uart [] ()) = Ok t \<and> uart_out t @ tx_queue t = [65]"
proof -
  have "calm 3 (demo_uart [] ())" "lock_free LUartTx (demo_uart [] ())" unfolding demo_uart_def by (rule demo_fs_quiet)+
  moreover have "uart_ok (demo_uart [] ())" "tx_queue (demo_uart [] ()) = []" by (simp_all add: uart_ok_def tx_queue_def demo_uart_fields)
  moreover have "\<not> panicked (demo_uart [] ())" "uart_out (demo_uart [] ()) = []"
    by (simp_all add: demo_uart_def demo_fs_def fresh_cache_out)
  ultimately show ?thesis using uart_fifo [of 3 "demo_uart [] ()" 65] by auto
qed

end
