(* ===== verification/Console.thy ===== *)
theory Console
  imports Uart
begin

text \<open>
  \<open>kernel/console.c\<close>: line editing and the console device, with the interrupt handler
  \<open>uartintr\<close> of \<open>kernel/uart.c\<close> that feeds it.  The buffer holds the lines that are complete
  between \<open>cons_r\<close> and \<open>cons_w\<close> and the line being edited up to \<open>cons_e\<close>.
\<close>

abbreviation (input) INPUT_BUF_SIZE :: u32 where "INPUT_BUF_SIZE \<equiv> 128"

datatype devops = ConsoleOps

record cons = uart +
  cons_buf :: "u8 list"
  cons_r :: u32
  cons_w :: u32
  cons_e :: u32
  devsw :: "nat \<Rightarrow> devops option"

definition cons_slot :: "u32 \<Rightarrow> nat" where
  "cons_slot i = unat (i mod INPUT_BUF_SIZE)"

fun consolewrite_loop :: "bool \<Rightarrow> u64 \<Rightarrow> nat \<Rightarrow> nat \<Rightarrow> 'a cons_scheme \<Rightarrow> (i32 \<times> 'a cons_scheme) res" where
  "consolewrite_loop user_src src i 0 s = Ok (of_nat i, s)"
| "consolewrite_loop user_src src i (Suc k) s =
     bindR (either_copyin user_src (src + of_nat i) 1 s) (\<lambda>(r, bs, s).
       if r = - 1 then Ok (of_nat i, s)
       else bindR (arr_get bs 0) (\<lambda>c.
            bindR (uartputc c s) (consolewrite_loop user_src src (Suc i) k)))"

definition consolewrite :: "bool \<Rightarrow> u64 \<Rightarrow> i32 \<Rightarrow> 'a cons_scheme \<Rightarrow> (i32 \<times> 'a cons_scheme) res" where
  "consolewrite user_src src n s = consolewrite_loop user_src src 0 (nat (sint n)) s"

text \<open>
  The loop of \<open>consoleread\<close> runs with the lock held; \<open>Wait\<close> tells where it goes to sleep, with
  the destination and the count that are left.
\<close>

fun consoleread_loop ::
  "bool \<Rightarrow> u64 \<Rightarrow> nat \<Rightarrow> nat \<Rightarrow> 'a cons_scheme \<Rightarrow> ((u64 \<times> nat) io \<times> 'a cons_scheme) res" where
  "consoleread_loop user_dst dst 0 target s =
     bindR (release LCons s) (\<lambda>s. Ok (Ret (of_nat target), s))"
| "consoleread_loop user_dst dst (Suc n) target s =
     (if cons_r s = cons_w s
      then bindR (curproc s) (\<lambda>(p, s).
           bindR (killed p s) (\<lambda>(k, s).
             if k \<noteq> 0 then bindR (release LCons s) (\<lambda>s. Ok (Ret (- 1), s))
             else Ok (Wait (dst, Suc n), s)))
      else bindR (arr_get (cons_buf s) (cons_slot (cons_r s))) (\<lambda>c.
           let s = s\<lparr>cons_r := cons_r s + 1\<rparr>
           in if c = 4
              then bindR (release LCons (if Suc n < target then s\<lparr>cons_r := cons_r s - 1\<rparr> else s))
                     (\<lambda>s. Ok (Ret (of_nat (target - Suc n)), s))
              else bindR (either_copyout user_dst dst [c] s) (\<lambda>(r, s).
                if r = - 1
                then bindR (release LCons s) (\<lambda>s. Ok (Ret (of_nat (target - Suc n)), s))
                else if c = 10
                then bindR (release LCons s) (\<lambda>s. Ok (Ret (of_nat (target - n)), s))
                else consoleread_loop user_dst (dst + 1) n target s)))"

definition consoleread :: "bool \<Rightarrow> u64 \<Rightarrow> i32 \<Rightarrow> 'a cons_scheme \<Rightarrow> ((u64 \<times> nat) io \<times> 'a cons_scheme) res" where
  "consoleread user_dst dst n s =
     bindR (acquire LCons s) (consoleread_loop user_dst dst (nat (sint n)) (nat (sint n)))"

lemma uartputc_sync_more: "uartputc_sync c s = Ok t \<Longrightarrow> conout.more t = conout.more s"
  by (auto simp: uartputc_sync_def push_off_def pop_off_def mach_defs Let_def split: if_splits)

lemma consputc_more: "consputc c s = Ok t \<Longrightarrow> conout.more t = conout.more s"
  by (auto simp: consputc_def dest!: uartputc_sync_more split: if_splits elim!: bindR_OkE)

lemma consputc_cons:
  assumes "consputc c s = Ok t"
  shows "cons_e t = cons_e s" "cons_w t = cons_w s" "cons_r t = cons_r s" "cons_buf t = cons_buf s"
  using consputc_more [OF assms] by (cases s; cases t; simp)+

text \<open>Control-U: erase back to the start of the line being edited.\<close>

function kill_line :: "'a cons_scheme \<Rightarrow> 'a cons_scheme res" where
  "kill_line s =
     (if cons_e s \<noteq> cons_w s
      then bindR (arr_get (cons_buf s) (cons_slot (cons_e s - 1))) (\<lambda>c.
           if c \<noteq> 10
           then bindR (consputc BACKSPACE (s\<lparr>cons_e := cons_e s - 1\<rparr>)) kill_line
           else Ok s)
      else Ok s)"
  by pat_completeness auto
termination
proof (relation "measure (\<lambda>s. unat (cons_e s - cons_w s))", goal_cases)
  case (2 s c t)
  let ?d = "cons_e s - cons_w s"
  have "unat (?d - 1) = unat ?d - 1" using 2(1) by (intro unat_minus_one) simp
  moreover have "0 < unat ?d" using 2(1) by (simp add: unat_gt_0)
  moreover have "cons_e t - cons_w t = ?d - 1"
    using consputc_cons [OF 2(4)] by (simp add: diff_diff_eq add.commute)
  ultimately show ?case by simp
qed simp

declare kill_line.simps [simp del]

text \<open>A key that is neither a control function nor ignored.\<close>

definition console_char :: "i32 \<Rightarrow> 'a cons_scheme \<Rightarrow> 'a cons_scheme res" where
  "console_char c s =
     bindR (consputc c s) (\<lambda>s.
     bindR (arr_set (cons_buf s) (cons_slot (cons_e s)) (ucast c)) (\<lambda>buf.
     let s = s\<lparr>cons_buf := buf, cons_e := cons_e s + 1\<rparr>
     in if c = 10 \<or> c = 4 \<or> cons_e s - cons_r s = INPUT_BUF_SIZE
        then wakeup ChConsR (s\<lparr>cons_w := cons_e s\<rparr>)
        else Ok s))"

definition console_key :: "i32 \<Rightarrow> 'a cons_scheme \<Rightarrow> 'a cons_scheme res" where
  "console_key c s =
     (if c = 16 then procdump s
      else if c = 21 then kill_line s
      else if c = 8 \<or> c = 0x7f
      then if cons_e s \<noteq> cons_w s then consputc BACKSPACE (s\<lparr>cons_e := cons_e s - 1\<rparr>) else Ok s
      else if c \<noteq> 0 \<and> cons_e s - cons_r s < INPUT_BUF_SIZE
      then console_char (if c = 13 then 10 else c) s
      else Ok s)"

definition consoleintr :: "i32 \<Rightarrow> 'a cons_scheme \<Rightarrow> 'a cons_scheme res" where
  "consoleintr c s = bindR (acquire LCons s) (\<lambda>s. bindR (console_key c s) (release LCons))"

text \<open>
  The loop of \<open>uartintr\<close> takes one byte from the receiver in each turn; the first argument
  bounds the turns, and one more than the number of waiting bytes is enough.
\<close>

primrec rx_loop :: "nat \<Rightarrow> 'a cons_scheme \<Rightarrow> 'a cons_scheme res" where
  "rx_loop 0 s = Spin"
| "rx_loop (Suc n) s =
     (let (c, s) = uartgetc s
      in if c = - 1 then Ok s else bindR (consoleintr c s) (rx_loop n))"

definition uartintr :: "'a cons_scheme \<Rightarrow> 'a cons_scheme res" where
  "uartintr s =
     bindR (rx_loop (length (rx_in s) + 1) s) (\<lambda>s.
     bindR (acquire LUartTx s) (\<lambda>s. bindR (uartstart s) (release LUartTx)))"

definition consoleinit :: "'a cons_scheme \<Rightarrow> 'a cons_scheme" where
  "consoleinit s =
     (let s = uartinit (initlock LCons ''cons'' s) in s\<lparr>devsw := (devsw s)(1 := Some ConsoleOps)\<rparr>)"

section \<open>Line editing\<close>

interpretation cb: ring cons_slot 128
  by (rule ring_mod) (simp_all add: cons_slot_def unat_mod)

text \<open>What has been typed: the bytes of the complete lines, and those of the line being edited.\<close>

definition cons_all :: "'a cons_scheme \<Rightarrow> u8 list" where
  "cons_all s = queue_of cons_slot (cons_buf s) (cons_r s) (cons_e s)"

definition cons_ready :: "'a cons_scheme \<Rightarrow> u8 list" where
  "cons_ready s = take (unat (cons_w s - cons_r s)) (cons_all s)"

definition cons_line :: "'a cons_scheme \<Rightarrow> u8 list" where
  "cons_line s = drop (unat (cons_w s - cons_r s)) (cons_all s)"

definition cons_ok :: "'a cons_scheme \<Rightarrow> bool" where
  "cons_ok s \<longleftrightarrow> length (cons_buf s) = 128 \<and> unat (cons_w s - cons_r s) \<le> unat (cons_e s - cons_r s) \<and>
     unat (cons_e s - cons_r s) \<le> 128"

text \<open>What a key does to the two lists.\<close>

definition edit :: "i32 \<Rightarrow> u8 list \<times> u8 list \<Rightarrow> u8 list \<times> u8 list" where
  "edit c = (\<lambda>(ready, line).
     if c = 21 then (ready, rev (dropWhile (\<lambda>x. x \<noteq> 10) (rev line)))
     else if c = 8 \<or> c = 0x7f then (ready, butlast line)
     else if c \<noteq> 0 \<and> length ready + length line < 128
     then let c = (if c = 13 then 10 else c); l = line @ [ucast c]
          in if c = 10 \<or> c = 4 \<or> length ready + length l = 128 then (ready @ l, []) else (ready, l)
     else (ready, line))"

lemma cons_lengths:
  assumes "cons_ok s"
  shows "length (cons_ready s) = unat (cons_w s - cons_r s)"
    "length (cons_ready s) + length (cons_line s) = unat (cons_e s - cons_r s)"
  using assms by (simp_all add: cons_ready_def cons_line_def cons_all_def cons_ok_def)

lemma cons_line_nil:
  assumes "cons_ok s"
  shows "cons_line s = [] \<longleftrightarrow> cons_e s = cons_w s"
proof -
  have "cons_line s = [] \<longleftrightarrow> unat (cons_e s - cons_r s) = unat (cons_w s - cons_r s)"
    using cons_lengths [OF assms] by (metis add.right_neutral add_left_cancel length_0_conv)
  also have "\<dots> \<longleftrightarrow> cons_e s = cons_w s" by (simp flip: word_unat_eq_iff)
  finally show ?thesis .
qed

lemma cons_erase:
  assumes "cons_ok s" and "cons_e s \<noteq> cons_w s"
  defines "t \<equiv> s\<lparr>cons_e := cons_e s - 1\<rparr>"
  shows "cons_ok t" "cons_ready t = cons_ready s" "cons_line t = butlast (cons_line s)"
    "last (cons_line s) = cons_buf s ! cons_slot (cons_e s - 1)"
proof -
  let ?n = "unat (cons_w s - cons_r s)" and ?m = "unat (cons_e s - cons_r s)"
  have ne: "cons_line s \<noteq> []" using cons_line_nil [OF assms(1)] assms(2) by simp
  then have "0 < length (cons_line s)" by simp
  then have nm: "?n < ?m" using cons_lengths [OF assms(1)] by linarith
  then have er: "cons_e s \<noteq> cons_r s" by auto
  note q = queue_of_drop_last [OF er]
  have all: "cons_all t = butlast (cons_all s)" by (simp add: cons_all_def t_def q)
  have len: "length (cons_all s) = ?m" by (simp add: cons_all_def)
  show "cons_ok t" using assms(1) nm q(2) unfolding cons_ok_def t_def by (auto simp: less_eq_Suc_le)
  have w: "unat (cons_w t - cons_r t) = ?n" by (simp add: t_def)
  show "cons_ready t = cons_ready s" unfolding cons_ready_def all w using nm len by (simp add: take_butlast)
  show "cons_line t = butlast (cons_line s)" unfolding cons_line_def all w by (simp add: drop_butlast)
  show "last (cons_line s) = cons_buf s ! cons_slot (cons_e s - 1)"
    using q(3) [of cons_slot "cons_buf s"] nm len by (simp add: cons_line_def last_drop) (simp add: cons_all_def)
qed

lemma consputc_nested:
  assumes "cpu_ok s" and "noff (mycpu s) \<noteq> 0" and "\<not> panicked s"
  shows "\<exists>out. consputc c s = Ok (s\<lparr>uart_out := out\<rparr>)"
proof (cases "c = BACKSPACE")
  case True
  let ?s = "\<lambda>out. s\<lparr>uart_out := out\<rparr>"
  have "uartputc_sync d (?s out) = Ok (?s (out @ [ucast d]))" for d out
    using assms uartputc_sync_nested [of "?s out" d] by (simp add: cpu_ok_def mach_defs)
  then show ?thesis using True uartputc_sync_nested [OF assms, of 8] by (auto simp: consputc_def)
qed (use uartputc_sync_nested [OF assms, of c] in \<open>auto simp: consputc_def\<close>)

lemma cons_out [simp]:
  "cons_ok (s\<lparr>uart_out := out\<rparr>) = cons_ok s" "cons_ready (s\<lparr>uart_out := out\<rparr>) = cons_ready s"
  "cons_line (s\<lparr>uart_out := out\<rparr>) = cons_line s"
  by (simp_all add: cons_ok_def cons_ready_def cons_line_def cons_all_def)

lemma cons_mach [simp]:
  "same_mach u (s\<lparr>cons_e := e\<rparr>) = same_mach u s" "same_mach u (s\<lparr>cons_w := e\<rparr>) = same_mach u s"
  "same_mach u (s\<lparr>cons_buf := b\<rparr>) = same_mach u s"
  by (simp_all add: same_mach_def)

lemma nested_same_mach:
  assumes "same_mach s t" and "cpu_ok s" and "noff (mycpu s) \<noteq> 0"
  shows "cpu_ok t" "noff (mycpu t) \<noteq> 0"
  using assms by (simp_all add: same_mach_def cpu_ok_def mach_defs)

lemma kill_line_erases:
  assumes "cpu_ok s" and "noff (mycpu s) \<noteq> 0" and "\<not> panicked s" and "cons_ok s"
  shows "\<exists>t. kill_line s = Ok t \<and> same_mach s t \<and> cons_ok t \<and> cons_ready t = cons_ready s \<and>
    cons_line t = rev (dropWhile (\<lambda>x. x \<noteq> 10) (rev (cons_line s)))"
  using assms
proof (induction s rule: kill_line.induct)
  case (1 s)
  show ?case
  proof (cases "cons_e s = cons_w s")
    case True
    then show ?thesis using cons_line_nil [OF 1(5)] 1(5) by (subst kill_line.simps) simp
  next
    case False
    note er = cons_erase [OF 1(5) False]
    have ne: "cons_line s \<noteq> []" using cons_line_nil [OF 1(5)] False by simp
    let ?c = "cons_buf s ! cons_slot (cons_e s - 1)" and ?s = "s\<lparr>cons_e := cons_e s - 1\<rparr>"
    have g: "arr_get (cons_buf s) (cons_slot (cons_e s - 1)) = Ok ?c"
      using cb.slot_less [of "cons_e s - 1"] 1(5) by (simp add: arr_get_def cons_ok_def)
    have rl: "rev (cons_line s) = ?c # rev (butlast (cons_line s))"
      using arg_cong [OF append_butlast_last_id [OF ne], of rev] er(4) by simp
    show ?thesis
    proof (cases "?c = 10")
      case True
      have "rev (dropWhile (\<lambda>x. x \<noteq> 10) (rev (cons_line s))) = cons_line s"
        unfolding rl using True arg_cong [OF rl, of rev] by simp
      then show ?thesis using True False g 1(5) by (subst kill_line.simps) simp
    next
      case c: False
      have m: "same_mach s ?s" by simp
      obtain out where o: "consputc BACKSPACE ?s = Ok (?s\<lparr>uart_out := out\<rparr>)"
        using consputc_nested [of ?s BACKSPACE] nested_same_mach [OF m 1(2,3)] 1(4) by auto
      have "same_mach s (?s\<lparr>uart_out := out\<rparr>)" by simp
      note nm = nested_same_mach [OF this 1(2,3)]
      have "\<exists>t. kill_line (?s\<lparr>uart_out := out\<rparr>) = Ok t \<and> same_mach (?s\<lparr>uart_out := out\<rparr>) t \<and> cons_ok t \<and>
          cons_ready t = cons_ready (?s\<lparr>uart_out := out\<rparr>) \<and>
          cons_line t = rev (dropWhile (\<lambda>x. x \<noteq> 10) (rev (cons_line (?s\<lparr>uart_out := out\<rparr>))))"
        by (rule 1(1) [OF False g c o nm]) (use 1(4) er(1) in simp_all)
      moreover have "dropWhile (\<lambda>x. x \<noteq> 10) (rev (cons_line s)) = dropWhile (\<lambda>x. x \<noteq> 10) (rev (butlast (cons_line s)))"
        unfolding rl using c by simp
      ultimately show ?thesis
        using False g c o er(2,3) by (subst kill_line.simps) (auto simp: same_mach_def)
    qed
  qed
qed

text \<open>A key that is kept: it goes to the end of the line, and a full line becomes ready.\<close>

lemma cons_keep:
  fixes x :: u8
  assumes "cons_ok s" and "unat (cons_e s - cons_r s) < 128"
  defines "t \<equiv> s\<lparr>cons_buf := (cons_buf s)[cons_slot (cons_e s) := x], cons_e := cons_e s + 1\<rparr>"
  shows "cons_ok t" "cons_ready t = cons_ready s" "cons_line t = cons_line s @ [x]"
    "cons_ok (t\<lparr>cons_w := cons_e t\<rparr>)" "cons_ready (t\<lparr>cons_w := cons_e t\<rparr>) = cons_ready s @ cons_line s @ [x]"
    "cons_line (t\<lparr>cons_w := cons_e t\<rparr>) = []" "unat (cons_e t - cons_r t) = Suc (unat (cons_e s - cons_r s))"
proof -
  let ?n = "unat (cons_w s - cons_r s)" and ?m = "unat (cons_e s - cons_r s)"
  have b: "length (cons_buf s) = 128" "?n \<le> ?m" using assms(1) by (simp_all add: cons_ok_def)
  have all: "cons_all t = cons_all s @ [x]" using cb.queue_push [OF assms(2) b(1)] by (simp add: cons_all_def t_def)
  have e: "unat (cons_e s + 1 - cons_r s) = Suc ?m" using cb.fill_push [OF assms(2)] by simp
  then show "unat (cons_e t - cons_r t) = Suc (unat (cons_e s - cons_r s))" by (simp add: t_def)
  have len: "length (cons_all s) = ?m" by (simp add: cons_all_def)
  have w: "unat (cons_w t - cons_r t) = ?n" by (simp add: t_def)
  show "cons_ok t" "cons_ok (t\<lparr>cons_w := cons_e t\<rparr>)" using b e assms(2) by (simp_all add: cons_ok_def t_def)
  show "cons_ready t = cons_ready s" "cons_line t = cons_line s @ [x]"
    unfolding cons_ready_def cons_line_def all w using b(2) len by simp_all
  have "cons_all (t\<lparr>cons_w := cons_e t\<rparr>) = cons_all s @ [x]" using all by (simp add: cons_all_def)
  then show "cons_ready (t\<lparr>cons_w := cons_e t\<rparr>) = cons_ready s @ cons_line s @ [x]" "cons_line (t\<lparr>cons_w := cons_e t\<rparr>) = []"
    using e len by (simp_all add: cons_ready_def cons_line_def) (simp_all add: t_def)
qed

definition edited :: "i32 \<Rightarrow> 'a cons_scheme \<Rightarrow> 'a cons_scheme \<Rightarrow> bool" where
  "edited c s t \<longleftrightarrow> cons_ok t \<and> (cons_ready t, cons_line t) = edit c (cons_ready s, cons_line s)"

lemma cons_frame [simp]:
  "cons_r (grab l s) = cons_r s" "cons_w (grab l s) = cons_w s" "cons_e (grab l s) = cons_e s" "cons_buf (grab l s) = cons_buf s"
  "cons_r (settle s) = cons_r s" "cons_w (settle s) = cons_w s" "cons_e (settle s) = cons_e s" "cons_buf (settle s) = cons_buf s"
  by (simp_all add: grab_def settle_def)

lemma edited_frame:
  "edited c (grab l s) t = edited c s t" "edited c s (at_mach u t) = edited c s t" "edited c s ((settle t)\<lparr>procs := ps\<rparr>) = edited c s t"
  "cons_ok (grab l s) = cons_ok s"
  by (simp_all add: edited_def cons_ok_def cons_ready_def cons_line_def cons_all_def) (simp_all add: at_mach_def)

lemma consoleintr_key:
  assumes g: "calm p g" "settle g = g" "noff (mycpu g) \<noteq> 0" "\<not> panicked g" "cons_ok g"
    and c: "c \<noteq> 16" "c \<noteq> 21" "c \<noteq> 8" "c \<noteq> 0x7f" "c \<noteq> 0" "cons_e g - cons_r g < INPUT_BUF_SIZE"
  defines "k \<equiv> if c = 13 then 10 else c"
  shows "\<exists>t. console_char k g = Ok t \<and> same_mach g t \<and> edited c g t"
proof -
  obtain out where o: "consputc k g = Ok (g\<lparr>uart_out := out\<rparr>)"
    using consputc_nested [OF calmD(1) [OF g(1)] g(3,4)] by blast
  let ?s = "g\<lparr>uart_out := out\<rparr>"
  let ?t = "?s\<lparr>cons_buf := (cons_buf ?s)[cons_slot (cons_e ?s) := ucast k], cons_e := cons_e ?s + 1\<rparr>"
  have m: "unat (cons_e ?s - cons_r ?s) < 128" using c(6) by (simp add: word_less_nat_alt)
  have ok: "cons_ok ?s" using g(5) by simp
  note kp = cons_keep [OF ok m, of "ucast k"]
  have len: "length (cons_ready g) + length (cons_line g) = unat (cons_e g - cons_r g)" by (rule cons_lengths(2) [OF g(5)])
  have full: "cons_e ?t - cons_r ?t = INPUT_BUF_SIZE \<longleftrightarrow> length (cons_ready g) + length (cons_line g @ [ucast k :: u8]) = 128"
    using kp(7) len by (simp add: word_unat_eq_iff)
  have as: "arr_set (cons_buf ?s) (cons_slot (cons_e ?s)) (ucast k) = Ok ((cons_buf ?s)[cons_slot (cons_e ?s) := ucast k])"
    using cb.slot_less [of "cons_e g"] g(5) by (simp add: arr_set_def cons_ok_def)
  show ?thesis
  proof (cases "k = 10 \<or> k = 4 \<or> cons_e ?t - cons_r ?t = INPUT_BUF_SIZE")
    case True
    let ?w = "?t\<lparr>cons_w := cons_e ?t\<rparr>"
    have mw: "same_mach g ?w" by simp
    have sw: "settle ?w = ?w" using settle_same_mach [of g ?w] mw g(2) by simp
    from mw have "calm p ?w" using calm_same_mach g(1) by blast
    from wakeup_calm [OF this, of ChConsR] have "wakeup ChConsR ?w = Ok ((settle ?w)\<lparr>procs := woken p ChConsR (procs ?w)\<rparr>)" .
    moreover have "edited c g ((settle ?w)\<lparr>procs := woken p ChConsR (procs ?w)\<rparr>)"
      unfolding edited_frame using kp(4-6) True full len c m
      by (simp add: edited_def edit_def k_def [symmetric] Let_def)
    moreover have "same_mach g ((settle ?w)\<lparr>procs := woken p ChConsR (procs ?w)\<rparr>)" unfolding sw using mw by simp
    ultimately show ?thesis using True o as by (simp add: console_char_def Let_def)
  next
    case False
    have "edited c g ?t"
      using kp(1-3) False full len c m by (simp add: edited_def edit_def k_def [symmetric] Let_def)
    moreover have "same_mach g ?t" by simp
    ultimately show ?thesis using False o as by (simp add: console_char_def Let_def)
  qed
qed

text \<open>C27. The line discipline.  Each key except control-P, which lists the processes, acts on the complete lines and the
  line being edited as \<open>edit\<close> says: control-U erases the line, backspace its last byte, any other key is appended while
  fewer than 128 bytes wait, a carriage return as a newline, and newline, control-D or a full buffer make the line ready.
  The handler always returns and keeps the order of the three counters, modulo \<open>2\<^sup>3\<^sup>2\<close>.\<close>

theorem console_editing:
  assumes "calm p s" and "lock_free LCons s" and "cons_ok s" and "\<not> panicked s" and "c \<noteq> 16"
  shows "\<exists>t. consoleintr c s = Ok t \<and> calm p t \<and> cons_ok t \<and>
    (cons_ready t, cons_line t) = edit c (cons_ready s, cons_line s)"
proof -
  let ?g = "grab LCons s"
  have g: "calm p ?g" "settle ?g = ?g" "noff (mycpu ?g) \<noteq> 0" "\<not> panicked ?g" "cons_ok ?g"
    using calm_grab [OF assms(1), of LCons] settle_grab [OF calmD(1) [OF assms(1)], of LCons] assms(3,4) calmD(1) [OF assms(1)]
    by (simp_all add: edited_frame) (auto simp: grab_def mach_defs cpu_ok_def)
  have "\<exists>t. console_key c ?g = Ok t \<and> same_mach ?g t \<and> edited c ?g t"
  proof -
    consider "c = 21" | "c = 8 \<or> c = 0x7f" | "c \<noteq> 21" "c \<noteq> 8" "c \<noteq> 0x7f" "c = 0 \<or> \<not> cons_e ?g - cons_r ?g < INPUT_BUF_SIZE"
      | "c \<noteq> 21" "c \<noteq> 8" "c \<noteq> 0x7f" "c \<noteq> 0" "cons_e ?g - cons_r ?g < INPUT_BUF_SIZE" by blast
    then show ?thesis
    proof cases
      case 1
      then show ?thesis
        using kill_line_erases [OF calmD(1) [OF g(1)] g(3-5)] by (auto simp: console_key_def edited_def edit_def)
    next
      case 2
      then have c: "c \<noteq> 21" by auto
      show ?thesis
      proof (cases "cons_e ?g = cons_w ?g")
        case True
        then have "cons_line ?g = []" using cons_line_nil [OF g(5)] by blast
        then show ?thesis using True 2 c g(5) assms(5) by (auto simp: console_key_def edited_def edit_def)
      next
        case False
        let ?e = "?g\<lparr>cons_e := cons_e ?g - 1\<rparr>"
        have "same_mach ?g ?e" by simp
        from consputc_nested [OF nested_same_mach [OF this calmD(1) [OF g(1)] g(3)]] g(4)
        obtain out where "consputc BACKSPACE ?e = Ok (?e\<lparr>uart_out := out\<rparr>)" by auto
        then show ?thesis using cons_erase(1-3) [OF g(5) False] False 2 c assms(5) by (auto simp: console_key_def edited_def edit_def)
      qed
    next
      case 3
      have "c = 0 \<or> \<not> length (cons_ready ?g) + length (cons_line ?g) < 128"
        using 3(4) cons_lengths(2) [OF g(5)] by (simp add: word_less_nat_alt)
      then have "edit c (cons_ready ?g, cons_line ?g) = (cons_ready ?g, cons_line ?g)" using 3(1-3) by (auto simp: edit_def)
      moreover have "console_key c ?g = Ok ?g" unfolding console_key_def using 3 assms(5) by auto
      ultimately show ?thesis using g(5) by (simp add: edited_def)
    next
      case 4
      then show ?thesis using consoleintr_key [OF g assms(5) 4] assms(5) by (simp add: console_key_def)
    qed
  qed
  then obtain t where t: "console_key c ?g = Ok t" "same_mach ?g t" "edited c ?g t" by blast
  have "consoleintr c s = bindR (console_key c ?g) (release LCons)"
    by (simp add: consoleintr_def acquire_free [OF assms(2)])
  also have "\<dots> = Ok (at_mach (settle s) t)"
    using t(1) release_section [OF calmD(1) [OF assms(1)] assms(2) t(2)] by simp
  finally have r: "consoleintr c s = Ok (at_mach (settle s) t)" .
  have "calm p (at_mach (settle s) t)" using assms(1) calm_same_mach [of "settle s" "at_mach (settle s) t"] by (simp add: same_mach_def at_mach_def)
  moreover have "edited c s (at_mach (settle s) t)" using t(3) unfolding edited_frame .
  ultimately show ?thesis using r unfolding edited_def by blast
qed

definition demo_cons :: "u8 list \<Rightarrow> 'x \<Rightarrow> 'x cons_scheme" where
  "demo_cons rx x = demo_uart rx \<lparr>cons_buf = replicate 128 0, cons_r = 0, cons_w = 0, cons_e = 0, devsw = Map.empty, \<dots> = x\<rparr>"

lemma demo_cons_fields: "cons_buf (demo_cons rx x) = replicate 128 0" "cons_r (demo_cons rx x) = 0" "cons_w (demo_cons rx x) = 0"
  "cons_e (demo_cons rx x) = 0" "cons.more (demo_cons rx x) = x"
proof -
  have "uart.more (demo_cons rx x) = \<lparr>cons_buf = replicate 128 0, cons_r = 0, cons_w = 0, cons_e = 0, devsw = Map.empty, \<dots> = x\<rparr>"
    by (simp add: demo_cons_def demo_uart_fields)
  then show "cons_buf (demo_cons rx x) = replicate 128 0" "cons_r (demo_cons rx x) = 0" "cons_w (demo_cons rx x) = 0"
    "cons_e (demo_cons rx x) = 0" "cons.more (demo_cons rx x) = x"
    by (cases "demo_cons rx x"; simp)+
qed

lemma demo_cons_quiet: "quiet 3 (demo_cons rx x)" "calm 3 (demo_cons rx x)" "lock_free l (demo_cons rx x)"
  "settle (demo_cons rx x) = demo_cons rx x" "\<not> panicked (demo_cons rx x)" "uart_out (demo_cons rx x) = []"
  unfolding demo_cons_def demo_uart_def by (rule demo_fs_quiet)+ (simp_all add: demo_fs_def fresh_cache_out)

theorem console_editing_witness:
  "\<exists>t. consoleintr 13 (demo_cons [] ()) = Ok t \<and> cons_ready t = [10] \<and> cons_line t = []"
proof -
  have "cons_ok (demo_cons [] ())" "cons_ready (demo_cons [] ()) = []" "cons_line (demo_cons [] ()) = []"
    by (simp_all add: cons_ok_def cons_ready_def cons_line_def cons_all_def demo_cons_fields)
  then show ?thesis
    using console_editing [OF demo_cons_quiet(2,3), of "[]" "()" 13] demo_cons_quiet(5) [of "[]" "()"] by (auto simp: edit_def)
qed

end
