(* ===== verification/Paging.thy ===== *)
theory Paging
  imports Vm
begin

text \<open>
  What the page tables of \<open>kernel/vm.c\<close> mean.  A table in physical memory is read as a partial
  function on virtual addresses; \<open>copyin\<close>, \<open>copyout\<close> and \<open>copyinstr\<close> are described by the user
  memory that it gives access to.
\<close>

section \<open>Reading a table\<close>

fun pte_addr :: "nat \<Rightarrow> mem \<Rightarrow> u64 \<Rightarrow> u64 \<Rightarrow> u64 option" where
  "pte_addr 0 m pt va = Some (pt + 8 * PX 0 va)"
| "pte_addr (Suc l) m pt va =
     (let e = load64 m (pt + 8 * PX (Suc l) va) in if e AND PTE_V \<noteq> 0 then pte_addr l m (PTE2PA e) va else None)"

lemma walk_levels_read:
  "walk_levels l pt va False s = Ok (case pte_addr l (mem s) pt va of Some a \<Rightarrow> a | None \<Rightarrow> 0, s)"
  by (induction l arbitrary: pt) (simp_all add: Let_def)

text \<open>The entry of a virtual address: \<open>walk\<close> without allocation.  A table never lies at address 0.\<close>

definition leaf :: "mem \<Rightarrow> u64 \<Rightarrow> u64 \<Rightarrow> u64 option" where
  "leaf m pt va = (if va \<ge> MAXVA then None
     else case pte_addr 2 m pt va of Some a \<Rightarrow> (if a = 0 then None else Some (load64 m a)) | None \<Rightarrow> None)"

definition uaddr :: "mem \<Rightarrow> u64 \<Rightarrow> u64 \<Rightarrow> u64 option" where
  "uaddr m pt va = (case leaf m pt va of
     Some e \<Rightarrow> if e AND PTE_V \<noteq> 0 \<and> e AND PTE_U \<noteq> 0 \<and> PTE2PA e \<noteq> 0 then Some (PTE2PA e) else None
   | None \<Rightarrow> None)"

lemma walk_read: "va < MAXVA \<Longrightarrow> walk pt va False s = Ok (case pte_addr 2 (mem s) pt va of Some a \<Rightarrow> a | None \<Rightarrow> 0, s)"
  by (simp add: walk_def walk_levels_read)

lemma walkaddr_read: "walkaddr pt va s = Ok (case uaddr (mem s) pt va of Some pa \<Rightarrow> pa | None \<Rightarrow> 0, s)"
  by (auto simp: walkaddr_def uaddr_def leaf_def walk_read not_le split: option.splits)

text \<open>The byte that a user program sees at an address.\<close>

definition ubyte :: "mem \<Rightarrow> u64 \<Rightarrow> u64 \<Rightarrow> u8 option" where
  "ubyte m pt va = map_option (\<lambda>pa. m (pa + (va - PGROUNDDOWN va))) (uaddr m pt (PGROUNDDOWN va))"

section \<open>Addresses within a page\<close>

lemma unat_in_page:
  assumes "i < page_rest va"
  shows "unat (va + of_nat i) = unat va + i"
proof -
  have i: "i < 4096" "unat va mod 4096 + i < 4096" using assms by (auto simp: page_rest_eq)
  have "unat va + i < 18446744073709551616"
  proof -
    have "unat va div 4096 < 4503599627370496" using unat_u64_lt [of va] by (intro less_mult_imp_div_less) simp
    then show ?thesis using i(2) div_mult_mod_eq [of "unat va" 4096] by linarith
  qed
  then show ?thesis using unat_add_no_wrap [of va "of_nat i"] i(1) by (simp add: unat_of_nat_u64)
qed

lemma PGROUNDDOWN_in_page:
  assumes "i < page_rest va"
  shows "PGROUNDDOWN (va + of_nat i) = PGROUNDDOWN va"
proof -
  have r: "unat va mod 4096 + i < 4096" using assms by (auto simp: page_rest_eq)
  have "unat va + i = (unat va mod 4096 + i) + unat va div 4096 * 4096" by simp
  then have "(unat va + i) div 4096 = (unat va mod 4096 + i) div 4096 + unat va div 4096" by (metis div_mult_self1 zero_neq_numeral add.commute)
  then have "(unat va + i) div 4096 = unat va div 4096" using r by simp
  then show ?thesis by (simp add: word_unat_eq_iff unat_PGROUNDDOWN unat_in_page [OF assms])
qed

lemma next_page: "va + of_nat (page_rest va) = PGROUNDDOWN va + PGSIZE"
proof -
  have "of_nat (page_rest va) = PGSIZE - (va - PGROUNDDOWN va)" by (simp add: page_rest_def)
  then show ?thesis by simp
qed

lemma ubyte_in_page:
  assumes "i < page_rest va"
  shows "ubyte m pt (va + of_nat i) = map_option (\<lambda>pa. m (pa + (va - PGROUNDDOWN va) + of_nat i)) (uaddr m pt (PGROUNDDOWN va))"
  unfolding ubyte_def PGROUNDDOWN_in_page [OF assms] by (simp add: algebra_simps)

section \<open>\<open>copyin\<close>\<close>

lemma load_bytes_ubyte:
  assumes "uaddr m pt (PGROUNDDOWN va) = Some pa" and "n \<le> page_rest va"
  shows "load_bytes m (pa + (va - PGROUNDDOWN va)) n = map (\<lambda>i. the (ubyte m pt (va + of_nat i))) [0..<n]"
  unfolding load_bytes_def using assms by (intro map_cong) (simp_all add: ubyte_in_page)

lemma all_split:
  assumes "k \<le> n"
  shows "(\<forall>i < n. P i) \<longleftrightarrow> (\<forall>i < k. P i) \<and> (\<forall>j < n - k. P (k + j :: nat))"
proof
  assume a: "(\<forall>i < k. P i) \<and> (\<forall>j < n - k. P (k + j))"
  show "\<forall>i < n. P i"
  proof (intro allI impI)
    fix i assume i: "i < n"
    show "P i"
    proof (cases "i < k")
      case False
      then have "i - k < n - k" "k + (i - k) = i" using i by auto
      then show ?thesis using a by metis
    qed (use a in blast)
  qed
qed (use assms in auto)

lemma map_upt_split: "k \<le> n \<Longrightarrow> map f [0..<n] = map f [0..<k] @ map (\<lambda>j. f (k + j)) [0..<n - k]"
proof -
  assume "k \<le> n"
  then have "[0..<n] = [0..<k] @ [k..<n]" using upt_add_eq_append [of 0 k "n - k"] by simp
  moreover have "[k..<n] = map (\<lambda>j. k + j) [0..<n - k]" using \<open>k \<le> n\<close> map_add_upt [of k "n - k"] by (simp add: add.commute)
  ultimately show ?thesis by (simp add: comp_def)
qed

definition mapped :: "mem \<Rightarrow> u64 \<Rightarrow> u64 \<Rightarrow> nat \<Rightarrow> bool" where
  "mapped m pt va n \<longleftrightarrow> (\<forall>i < n. ubyte m pt (va + of_nat i) \<noteq> None)"

definition user_bytes :: "mem \<Rightarrow> u64 \<Rightarrow> u64 \<Rightarrow> nat \<Rightarrow> u8 list" where
  "user_bytes m pt va n = map (\<lambda>i. the (ubyte m pt (va + of_nat i))) [0..<n]"

lemma chunk:
  fixes va :: u64 and n :: nat
  assumes "0 < n"
  defines "k \<equiv> min (page_rest va) n"
  shows "0 < k" "k \<le> n" "k \<le> page_rest va" "n - k = 0 \<or> PGROUNDDOWN va + PGSIZE = va + of_nat k"
  using assms next_page [of va] by (auto simp: k_def min_def)

lemma copyin_user:
  "if mapped (mem s) pt va n then copyin pt va n s = Ok (0, user_bytes (mem s) pt va n, s)
   else \<exists>bs. copyin pt va n s = Ok (- 1, bs, s)"
proof (induction pt va n s rule: copyin.induct)
  case (1 pt va n s)
  show ?case
  proof (cases "n = 0")
    case True
    then show ?thesis using copyin.simps [of pt va 0 s] by (simp add: mapped_def user_bytes_def)
  next
    case False
    let ?k = "min (page_rest va) n" and ?va = "PGROUNDDOWN va"
    note ch = chunk [of n va] 
    have k: "0 < ?k" "?k \<le> n" "?k \<le> page_rest va" "n - ?k = 0 \<or> ?va + PGSIZE = va + of_nat ?k" using ch False by simp_all
    show ?thesis
    proof (cases "uaddr (mem s) pt ?va")
      case None
      then have "ubyte (mem s) pt (va + of_nat 0) = None" by (simp add: ubyte_def)
      then have "\<not> mapped (mem s) pt va n" using False unfolding mapped_def by blast
      then show ?thesis using None False by (subst copyin.simps) (simp add: walkaddr_read Let_def)
    next
      case (Some pa)
      have pa: "pa \<noteq> 0" using Some by (auto simp: uaddr_def split: option.splits if_splits)
      have w: "walkaddr pt ?va s = Ok (pa, s)" by (simp add: walkaddr_read Some)
      have a: "?va + PGSIZE + of_nat j = va + of_nat (?k + j)" if "j < n - ?k" for j
      proof -
        have "?va + PGSIZE = va + of_nat ?k" using k(4) that by auto
        then show ?thesis by (simp only: of_nat_add add.assoc)
      qed
      have rest: "mapped (mem s) pt (?va + PGSIZE) (n - ?k) = (\<forall>j < n - ?k. ubyte (mem s) pt (va + of_nat (?k + j)) \<noteq> None)"
        "user_bytes (mem s) pt (?va + PGSIZE) (n - ?k) = map (\<lambda>j. the (ubyte (mem s) pt (va + of_nat (?k + j)))) [0..<n - ?k]"
        unfolding mapped_def user_bytes_def using a by (auto simp del: of_nat_add)
      have first: "ubyte (mem s) pt (va + of_nat i) \<noteq> None" if "i < ?k" for i
        using ubyte_in_page [of i va "mem s" pt] that Some by simp
      have m: "mapped (mem s) pt va n = mapped (mem s) pt (?va + PGSIZE) (n - ?k)"
        unfolding rest using first unfolding mapped_def all_split [OF k(2)] by blast
      have u: "user_bytes (mem s) pt va n =
          load_bytes (mem s) (pa + (va - ?va)) ?k @ user_bytes (mem s) pt (?va + PGSIZE) (n - ?k)"
        unfolding rest load_bytes_ubyte [OF Some k(3)] unfolding user_bytes_def by (rule map_upt_split [OF k(2)])
      have IH: "if mapped (mem s) pt (?va + PGSIZE) (n - ?k)
          then copyin pt (?va + PGSIZE) (n - ?k) s = Ok (0, user_bytes (mem s) pt (?va + PGSIZE) (n - ?k), s)
          else \<exists>bs. copyin pt (?va + PGSIZE) (n - ?k) s = Ok (- 1, bs, s)"
        using 1 [OF False refl w refl pa refl] .
      have step: "copyin pt va n s = bindR (copyin pt (?va + PGSIZE) (n - ?k) s) (\<lambda>(r, bs, s2).
          Ok (r, load_bytes (mem s) (pa + (va - ?va)) ?k @ bs, s2))"
        using False w pa by (subst copyin.simps) (simp add: Let_def)
      show ?thesis unfolding m u step using IH by (auto split: if_splits)
    qed
  qed
qed

section \<open>Address spaces\<close>

text \<open>The pages of the table that are read on the way to an entry.\<close>

fun tpages :: "nat \<Rightarrow> mem \<Rightarrow> u64 \<Rightarrow> u64 \<Rightarrow> u64 set" where
  "tpages 0 m pt va = {pt}"
| "tpages (Suc l) m pt va =
     insert pt (let e = load64 m (pt + 8 * PX (Suc l) va) in if e AND PTE_V \<noteq> 0 then tpages l m (PTE2PA e) va else {})"

lemma page_aligned_PTE2PA [simp]: "page_aligned (PTE2PA e)"
proof -
  have "PTE2PA e = PGROUNDDOWN (PTE2PA e)"
    unfolding PGROUNDDOWN_def page_mask PTE2PA_def by (rule bit_word_eqI) (auto simp: bit_simps)
  then show ?thesis by (metis page_aligned_PGROUNDDOWN)
qed

lemma PX_less: "unat (PX l va) < 512"
proof -
  have "(0x1FF :: u64) = mask 9" by (simp add: mask_eq_exp_minus_1)
  then have "PX l va = take_bit 9 (drop_bit (PXSHIFT l) va)" by (simp only: PX_def take_bit_eq_mask)
  then have "unat (PX l va) = take_bit 9 (unat (drop_bit (PXSHIFT l) va))" by (simp only: unsigned_take_bit_eq)
  then show ?thesis using take_bit_nat_less_exp [of 9 "unat (drop_bit (PXSHIFT l) va)"] by simp
qed

lemma entry_in_page:
  assumes "page_aligned pt"
  shows "in_page pt (pt + 8 * PX l va)" "aligned8 (pt + 8 * PX l va)"
proof -
  have u: "unat (8 * PX l va) = 8 * unat (PX l va)" using PX_less [of l va] by (simp add: unat_word_ariths(2))
  then show "in_page pt (pt + 8 * PX l va)" using PX_less [of l va] by (simp add: in_page_def word_less_nat_alt)
  have "unat (pt + 8 * PX l va) = (unat pt + 8 * unat (PX l va)) mod 18446744073709551616" using u by (simp add: unat_word_ariths(1))
  moreover have "8 dvd unat pt" using page_aligned8 [OF assms] by (simp add: aligned8_def)
  ultimately show "aligned8 (pt + 8 * PX l va)" by (simp add: aligned8_def dvd_mod)
qed

lemma pte_addr_frame:
  assumes "page_aligned pt" and "\<And>q x. q \<in> tpages l m pt va \<Longrightarrow> in_page q x \<Longrightarrow> m' x = m x"
  shows "pte_addr l m' pt va = pte_addr l m pt va" "tpages l m' pt va = tpages l m pt va"
    "pte_addr l m pt va = Some a \<Longrightarrow> load64 m' a = load64 m a"
proof -
  have "pte_addr l m' pt va = pte_addr l m pt va \<and> tpages l m' pt va = tpages l m pt va \<and>
      (\<forall>a. pte_addr l m pt va = Some a \<longrightarrow> load64 m' a = load64 m a)"
    using assms
  proof (induction l arbitrary: pt)
    case 0
    have "load64 m' (pt + 8 * PX 0 va) = load64 m (pt + 8 * PX 0 va)"
      by (rule load64_in_page [OF 0(1) entry_in_page [OF 0(1)]]) (use 0(2) in simp)
    then show ?case by simp
  next
    case (Suc l)
    let ?e = "load64 m (pt + 8 * PX (Suc l) va)"
    have e: "load64 m' (pt + 8 * PX (Suc l) va) = ?e"
      by (rule load64_in_page [OF Suc(2) entry_in_page [OF Suc(2)]], rule Suc(3) [of pt]) simp_all
    show ?case
    proof (cases "?e AND PTE_V = 0")
      case False
      then have "pte_addr l m' (PTE2PA ?e) va = pte_addr l m (PTE2PA ?e) va \<and> tpages l m' (PTE2PA ?e) va = tpages l m (PTE2PA ?e) va \<and>
          (\<forall>a. pte_addr l m (PTE2PA ?e) va = Some a \<longrightarrow> load64 m' a = load64 m a)"
        by (intro Suc(1), simp) (rule Suc(3), simp_all add: Let_def)
      then show ?thesis using False e by (simp add: Let_def)
    qed (use e in \<open>simp add: Let_def\<close>)
  qed
  then show "pte_addr l m' pt va = pte_addr l m pt va" "tpages l m' pt va = tpages l m pt va"
    "pte_addr l m pt va = Some a \<Longrightarrow> load64 m' a = load64 m a" by blast+
qed

text \<open>A table that maps no page of its own to the user, maps nothing to address 0 and no page twice.\<close>

definition addr_space :: "mem \<Rightarrow> u64 \<Rightarrow> bool" where
  "addr_space m pt \<longleftrightarrow> page_aligned pt \<and>
     (\<forall>va e. leaf m pt va = Some e \<and> e AND PTE_V \<noteq> 0 \<longrightarrow> PTE2PA e \<noteq> 0) \<and>
     (\<forall>va va' pa. uaddr m pt va = Some pa \<longrightarrow> pa \<notin> tpages 2 m pt va') \<and>
     (\<forall>va va' pa. page_aligned va \<and> page_aligned va' \<and> uaddr m pt va = Some pa \<and> uaddr m pt va' = Some pa \<longrightarrow> va = va')"

lemma uaddr_aligned: "uaddr m pt va = Some pa \<Longrightarrow> page_aligned pa"
  by (auto simp: uaddr_def split: option.splits if_splits)

lemma user_write_frame:
  assumes "addr_space m pt" and "uaddr m pt va = Some pa" and "\<And>x. \<not> in_page pa x \<Longrightarrow> m' x = m x"
  shows "leaf m' pt v = leaf m pt v" "uaddr m' pt v = uaddr m pt v" "addr_space m' pt"
proof -
  have al: "page_aligned pt" using assms(1) by (simp add: addr_space_def)
  have same: "m' x = m x" if q: "q \<in> tpages 2 m pt v" "in_page q x" "page_aligned q" for q x v
  proof (rule assms(3), rule notI)
    assume "in_page pa x"
    then have "pa = q" using in_page_unique [OF uaddr_aligned [OF assms(2)] q(3) _ q(2)] by blast
    then show False using q(1) assms(1,2) by (auto simp: addr_space_def)
  qed
  have tal: "page_aligned q" if "q \<in> tpages l m p v" "page_aligned p" for q l p v
    using that by (induction l arbitrary: p) (auto simp: Let_def split: if_splits)
  have fr: "pte_addr 2 m' pt v = pte_addr 2 m pt v" "tpages 2 m' pt v = tpages 2 m pt v"
    "pte_addr 2 m pt v = Some a \<Longrightarrow> load64 m' a = load64 m a" for v a
    by (rule pte_addr_frame [OF al]; use same tal [OF _ al] in blast)+
  show lf: "leaf m' pt v = leaf m pt v" for v using fr(1,3) [of v] by (auto simp: leaf_def split: option.splits)
  show ua: "uaddr m' pt v = uaddr m pt v" for v by (simp add: uaddr_def lf)
  show "addr_space m' pt" using assms(1) unfolding addr_space_def lf ua fr(2) .
qed

section \<open>\<open>copyout\<close>\<close>

definition wok :: "mem \<Rightarrow> u64 \<Rightarrow> u64 \<Rightarrow> bool" where
  "wok m pt va \<longleftrightarrow> (case leaf m pt (PGROUNDDOWN va) of
     Some e \<Rightarrow> e AND PTE_V \<noteq> 0 \<and> e AND PTE_U \<noteq> 0 \<and> e AND PTE_W \<noteq> 0 | None \<Rightarrow> False)"

definition writable_range :: "mem \<Rightarrow> u64 \<Rightarrow> u64 \<Rightarrow> nat \<Rightarrow> bool" where
  "writable_range m pt va n \<longleftrightarrow> (\<forall>i < n. wok m pt (va + of_nat i))"

lemma wok_uaddr:
  assumes "addr_space m pt" and "wok m pt va"
  obtains pa where "uaddr m pt (PGROUNDDOWN va) = Some pa"
proof -
  obtain e where e: "leaf m pt (PGROUNDDOWN va) = Some e" "e AND PTE_V \<noteq> 0" "e AND PTE_U \<noteq> 0"
    using assms(2) by (auto simp: wok_def split: option.splits)
  then have "PTE2PA e \<noteq> 0" using assms(1) unfolding addr_space_def by blast
  then show thesis using that e by (simp add: uaddr_def)
qed

lemma wok_less: "wok m pt va \<Longrightarrow> unat va < 274877906944"
proof -
  assume "wok m pt va"
  then have "PGROUNDDOWN va < MAXVA" by (auto simp: wok_def leaf_def not_le split: option.splits if_splits)
  then have "unat va div 4096 * 4096 < 67108864 * 4096" by (simp add: word_less_nat_alt unat_PGROUNDDOWN)
  then have "unat va div 4096 < 67108864" by simp
  then show ?thesis using div_mult_mod_eq [of "unat va" 4096] mod_less_divisor [of 4096 "unat va"] by linarith
qed

lemma range_no_wrap:
  assumes "writable_range m pt va n" and "i < n"
  shows "unat (va + of_nat i) = unat va + i"
  using assms(2)
proof (induction i)
  case (Suc i)
  then have u: "unat (va + of_nat i) = unat va + i" by simp
  moreover have "unat (va + of_nat i) < 274877906944" using assms(1) Suc.prems by (intro wok_less [of m pt]) (simp add: writable_range_def)
  ultimately have "unat ((va + of_nat i) + 1) = unat va + i + 1" using unat_add_no_wrap [of "va + of_nat i" 1] by simp
  moreover have e: "va + of_nat (Suc i) = (va + of_nat i) + 1" by (simp add: algebra_simps)
  ultimately show ?case unfolding e by simp
qed simp

text \<open>Writing \<open>k\<close> bytes within one user page.\<close>

lemma page_write:
  assumes s: "addr_space m pt" and pa: "uaddr m pt (PGROUNDDOWN va) = Some pa" and k: "length bs \<le> page_rest va"
  defines "m' \<equiv> store_bytes (pa + (va - PGROUNDDOWN va)) bs m"
  shows "leaf m' pt v = leaf m pt v" "uaddr m' pt v = uaddr m pt v" "addr_space m' pt"
    "i < length bs \<Longrightarrow> ubyte m' pt (va + of_nat i) = Some (bs ! i)"
    "(\<And>i. i < length bs \<Longrightarrow> x \<noteq> va + of_nat i) \<Longrightarrow> ubyte m' pt x = ubyte m pt x"
proof -
  let ?off = "va - PGROUNDDOWN va"
  have off: "unat ?off + length bs \<le> 4096" using k by (simp add: unat_page_offset page_rest_eq)
  have out: "m' y = m y" if "\<not> in_page pa y" for y
  proof -
    have "\<not> unat (y - (pa + ?off)) < length bs"
    proof
      assume a: "unat (y - (pa + ?off)) < length bs"
      have e: "y - pa = (y - (pa + ?off)) + ?off" by simp
      have "unat ((y - (pa + ?off)) + ?off) = unat (y - (pa + ?off)) + unat ?off"
        by (rule unat_add_no_wrap) (use a off in linarith)
      then have "unat (y - pa) < 4096" unfolding e using a off by linarith
      then show False using that by (simp add: in_page_def word_less_nat_alt)
    qed
    then show ?thesis by (simp add: m'_def store_bytes_def)
  qed
  show "leaf m' pt v = leaf m pt v" "addr_space m' pt" and ua: "uaddr m' pt v = uaddr m pt v" for v
    by (rule user_write_frame [OF s pa out]; assumption)+
  show "ubyte m' pt (va + of_nat i) = Some (bs ! i)" if i: "i < length bs"
  proof -
    have pr: "i < page_rest va" using i k by simp
    have "unat (of_nat i :: u64) = i" using i off by (intro unat_of_nat_u64) simp
    then have "m' (pa + ?off + of_nat i) = bs ! i" using i by (simp add: m'_def store_bytes_def)
    then show ?thesis unfolding ubyte_in_page [OF pr] ua pa by simp
  qed
  assume x: "\<And>i. i < length bs \<Longrightarrow> x \<noteq> va + of_nat i"
  show "ubyte m' pt x = ubyte m pt x"
  proof (cases "uaddr m pt (PGROUNDDOWN x)")
    case (Some q)
    let ?y = "q + (x - PGROUNDDOWN x)"
    have qy: "in_page q ?y" by (simp add: in_page_def word_less_nat_alt unat_page_offset)
    have "m' ?y = m ?y"
    proof (cases "q = pa")
      case True
      then have "PGROUNDDOWN x = PGROUNDDOWN va" using s pa Some page_aligned_PGROUNDDOWN unfolding addr_space_def by metis
      then have e: "?y - (pa + ?off) = x - va" by (simp add: True)
      have "\<not> unat (x - va) < length bs"
      proof
        assume "unat (x - va) < length bs"
        then show False using x [of "unat (x - va)"] by simp
      qed
      then show ?thesis by (simp add: m'_def store_bytes_def e)
    next
      case False
      then have "\<not> in_page pa ?y" using in_page_unique [OF uaddr_aligned [OF pa] uaddr_aligned [OF Some] _ qy] by blast
      then show ?thesis by (rule out)
    qed
    then show ?thesis by (simp add: ubyte_def ua Some)
  qed (simp add: ubyte_def ua)
qed

lemma copyout_step:
  assumes "src \<noteq> []"
  shows "copyout pt dst src s =
    (case leaf (mem s) pt (PGROUNDDOWN dst) of
       Some e \<Rightarrow> if e AND PTE_V = 0 \<or> e AND PTE_U = 0 \<or> e AND PTE_W = 0 then Ok (- 1, s)
         else copyout pt (PGROUNDDOWN dst + PGSIZE) (drop (min (page_rest dst) (length src)) src)
           (s\<lparr>mem := store_bytes (PTE2PA e + (dst - PGROUNDDOWN dst)) (take (min (page_rest dst) (length src)) src) (mem s)\<rparr>)
     | None \<Rightarrow> Ok (- 1, s))"
  using assms by (subst copyout.simps) (auto simp: leaf_def Let_def walk_read not_le split: option.splits)

lemma copyout_user:
  assumes "addr_space (mem s) pt"
  shows "if writable_range (mem s) pt dst (length src)
    then \<exists>m. copyout pt dst src s = Ok (0, s\<lparr>mem := m\<rparr>) \<and> addr_space m pt \<and> (\<forall>v. leaf m pt v = leaf (mem s) pt v) \<and>
      (\<forall>i < length src. ubyte m pt (dst + of_nat i) = Some (src ! i)) \<and>
      (\<forall>x. (\<forall>i < length src. x \<noteq> dst + of_nat i) \<longrightarrow> ubyte m pt x = ubyte (mem s) pt x)
    else \<exists>m. copyout pt dst src s = Ok (- 1, s\<lparr>mem := m\<rparr>) \<and> addr_space m pt"
  using assms
proof (induction "length src" arbitrary: dst src s rule: less_induct)
  case less
  show ?case
  proof (cases "src = []")
    case True
    then show ?thesis using less(2) copyout.simps [of pt dst "[]" s] by (auto simp: writable_range_def intro!: exI [of _ "mem s"])
  next
    case False
    let ?n = "length src" and ?va = "PGROUNDDOWN dst"
    define k0 where "k0 = min (page_rest dst) ?n"
    have n0: "0 < ?n" using False by simp
    note k = chunk [OF n0, of dst, folded k0_def]
    have a: "?va + PGSIZE + of_nat j = dst + of_nat (k0 + j)" if "j < ?n - k0" for j
    proof -
      have "?va + PGSIZE = dst + of_nat k0" using k(4) that by auto
      then show ?thesis by (simp only: of_nat_add add.assoc)
    qed
    have first: "wok (mem s) pt (dst + of_nat i) = wok (mem s) pt dst" if "i < k0" for i
      using PGROUNDDOWN_in_page [of i dst] that k(3) by (simp add: wok_def)
    show ?thesis
    proof (cases "wok (mem s) pt dst")
      case no: False
      then have "\<not> writable_range (mem s) pt dst ?n" using n0 by (auto simp: writable_range_def intro!: exI [of _ 0])
      moreover have "copyout pt dst src s = Ok (- 1, s)" using no by (auto simp: copyout_step [OF False] wok_def split: option.splits)
      ultimately show ?thesis using less(2) by (auto intro!: exI [of _ "mem s"])
    next
      case yes: True
      obtain pa where pa: "uaddr (mem s) pt ?va = Some pa" using wok_uaddr [OF less(2) yes] .
      define m1 where "m1 = store_bytes (pa + (dst - ?va)) (take k0 src) (mem s)"
      have lk: "length (take k0 src) = k0" using k(2) by simp
      note pw = page_write [OF less(2) pa, of "take k0 src", unfolded lk, OF k(3), folded m1_def]
      have cs: "copyout pt dst src s = copyout pt (?va + PGSIZE) (drop k0 src) (s\<lparr>mem := m1\<rparr>)"
        using yes pa by (auto simp: copyout_step [OF False] wok_def uaddr_def k0_def [symmetric] m1_def split: option.splits if_splits)
      have wr: "writable_range (mem s) pt dst ?n \<longleftrightarrow> writable_range m1 pt (?va + PGSIZE) (length (drop k0 src))"
        unfolding writable_range_def all_split [OF k(2)] length_drop using first yes a pw(1) by (auto simp: wok_def simp del: of_nat_add)
      have IH: "if writable_range m1 pt (?va + PGSIZE) (length (drop k0 src))
        then \<exists>m. copyout pt (?va + PGSIZE) (drop k0 src) (s\<lparr>mem := m1\<rparr>) = Ok (0, s\<lparr>mem := m\<rparr>) \<and> addr_space m pt \<and>
          (\<forall>v. leaf m pt v = leaf m1 pt v) \<and>
          (\<forall>i < length (drop k0 src). ubyte m pt (?va + PGSIZE + of_nat i) = Some (drop k0 src ! i)) \<and>
          (\<forall>x. (\<forall>i < length (drop k0 src). x \<noteq> ?va + PGSIZE + of_nat i) \<longrightarrow> ubyte m pt x = ubyte m1 pt x)
        else \<exists>m. copyout pt (?va + PGSIZE) (drop k0 src) (s\<lparr>mem := m1\<rparr>) = Ok (- 1, s\<lparr>mem := m\<rparr>) \<and> addr_space m pt"
      proof -
        have "length (drop k0 src) < length src" using k(1) n0 by simp
        from less(1) [OF this, of "s\<lparr>mem := m1\<rparr>" "?va + PGSIZE"] pw(3) show ?thesis
          by (cases "writable_range m1 pt (?va + PGSIZE) (length (drop k0 src))") simp_all
      qed
      show ?thesis
      proof (cases "writable_range (mem s) pt dst ?n")
        case False
        then show ?thesis using IH wr cs by simp
      next
        case True
        then obtain m where m: "copyout pt dst src s = Ok (0, s\<lparr>mem := m\<rparr>)" "addr_space m pt" "\<And>v. leaf m pt v = leaf (mem s) pt v"
          "\<And>i. i < ?n - k0 \<Longrightarrow> ubyte m pt (dst + of_nat (k0 + i)) = Some (src ! (k0 + i))"
          "\<And>x. (\<And>i. i < ?n - k0 \<Longrightarrow> x \<noteq> dst + of_nat (k0 + i)) \<Longrightarrow> ubyte m pt x = ubyte m1 pt x"
          using IH wr cs pw(1) a by (auto simp del: of_nat_add)
        have "ubyte m pt (dst + of_nat i) = Some (src ! i)" if i: "i < ?n" for i
        proof (cases "i < k0")
          case True
          have "dst + of_nat i \<noteq> dst + of_nat (k0 + j)" if "j < ?n - k0" for j
          proof
            assume "dst + of_nat i = dst + of_nat (k0 + j)"
            then have "unat dst + i = unat dst + (k0 + j)"
              using range_no_wrap [OF \<open>writable_range (mem s) pt dst ?n\<close>, of i] that i
                range_no_wrap [OF \<open>writable_range (mem s) pt dst ?n\<close>, of "k0 + j"] by simp
            then show False using True by simp
          qed
          then show ?thesis using m(5) pw(4) [OF True] True by simp
        next
          case False
          then have "i = k0 + (i - k0)" "i - k0 < ?n - k0" using i by auto
          then show ?thesis using m(4) by metis
        qed
        moreover have "ubyte m pt x = ubyte (mem s) pt x" if x: "\<And>i. i < ?n \<Longrightarrow> x \<noteq> dst + of_nat i" for x
          using m(5) [of x] pw(5) [of x] x k(2) by (metis add_diff_inverse_nat add_less_cancel_left less_diff_conv add.commute not_less order_less_le_trans)
        ultimately show ?thesis using True m(1-3) by (auto intro!: exI [of _ m])
      qed
    qed
  qed
qed

lemma user_bytes_eq: "(\<And>i. i < length bs \<Longrightarrow> ubyte m pt (va + of_nat i) = Some (bs ! i)) \<Longrightarrow>
    mapped m pt va (length bs) \<and> user_bytes m pt va (length bs) = bs"
  by (auto simp: mapped_def user_bytes_def intro!: nth_equalityI)

section \<open>A small address space\<close>

text \<open>Storing an entry of one table, then reading an entry of another.\<close>

lemma load_store_entry:
  assumes "page_aligned p" and "page_aligned q"
  shows "load64 (store64 (q + 8 * PX l' va') e m) (p + 8 * PX l va) =
    (if p = q \<and> PX l va = PX l' va' then e else load64 m (p + 8 * PX l va))"
proof (cases "p + 8 * PX l va = q + 8 * PX l' va'")
  case True
  then have "p = q" using in_page_unique [OF assms] entry_in_page(1) [OF assms(1)] entry_in_page(1) [OF assms(2)] by metis
  then have "8 * PX l va = 8 * PX l' va'" using True by simp
  moreover have "unat (8 * PX l va) = 8 * unat (PX l va)" "unat (8 * PX l' va') = 8 * unat (PX l' va')"
    using PX_less [of l va] PX_less [of l' va'] by (simp_all add: unat_word_ariths(2))
  ultimately have "PX l va = PX l' va'" by (simp add: word_unat_eq_iff)
  then show ?thesis using True \<open>p = q\<close> by simp
next
  case False
  then show ?thesis using load_store64_other [OF entry_in_page(2) [OF assms(2)] entry_in_page(2) [OF assms(1)]] by auto
qed

lemma PX_0 [simp]: "PX l 0 = 0"
  by (simp add: PX_def)

lemma load_store_entry0:
  "page_aligned p \<Longrightarrow> page_aligned q \<Longrightarrow>
    load64 (store64 q e m) (p + 8 * PX l va) = (if p = q \<and> PX l va = 0 then e else load64 m (p + 8 * PX l va))"
  using load_store_entry [of p q 0 0 e m l va] by simp

lemma PX_all_0:
  assumes "PX 2 va = 0" "PX 1 va = 0" "PX 0 va = 0" "va < MAXVA" "page_aligned va"
  shows "va = 0"
proof (rule bit_word_eqI)
  fix n assume "n < LENGTH(64)"
  have m: "(0x1FF :: u64) = mask 9" by (simp add: mask_eq_exp_minus_1)
  have px: "\<not> bit va (PXSHIFT l + i)" if "PX l va = 0" "i < 9" for l i
  proof -
    have "\<not> bit (PX l va) i" using that(1) by simp
    then show ?thesis using that(2) unfolding PX_def m by (simp add: bit_simps)
  qed
  have "\<not> bit va n"
  proof
    assume b: "bit va n"
    have "n < 38" using bit_less_exp [OF _ b, of 38] assms(4) by simp
    moreover have "12 \<le> n" using bit_page_aligned [OF assms(5) b] .
    ultimately consider "n < 21" "n = 12 + (n - 12)" | "21 \<le> n" "n < 30" "n = 21 + (n - 21)" | "30 \<le> n" "n = 30 + (n - 30)"
      by linarith
    then show False
    proof cases
      case 1
      moreover have "n - 12 < 9" using 1 by linarith
      ultimately show ?thesis using b px [OF assms(3), of "n - 12"] by (simp add: PXSHIFT_def)
    next
      case 2
      moreover have "n - 21 < 9" using 2 by linarith
      ultimately show ?thesis using b px [OF assms(2), of "n - 21"] by (simp add: PXSHIFT_def)
    next
      case 3
      moreover have "n - 30 < 9" using \<open>n < 38\<close> by linarith
      ultimately show ?thesis using b px [OF assms(1), of "n - 30"] by (simp add: PXSHIFT_def)
    qed
  qed
  then show "bit va n \<longleftrightarrow> bit (0 :: u64) n" by simp
qed

text \<open>Three tables and one page at virtual address 0 that the user can write.\<close>

definition demo_mem :: mem where
  "demo_mem = store64 0x80100000 (PA2PTE 0x80101000 OR PTE_V) (store64 0x80101000 (PA2PTE 0x80102000 OR PTE_V)
     (store64 0x80102000 (PA2PTE 0x80103000 OR PTE_V OR PTE_R OR PTE_W OR PTE_U) (\<lambda>_. 0)))"

lemma demo_entries:
  "load64 demo_mem (0x80100000 + 8 * PX l va) = (if PX l va = 0 then PA2PTE 0x80101000 OR PTE_V else 0)"
  "load64 demo_mem (0x80101000 + 8 * PX l va) = (if PX l va = 0 then PA2PTE 0x80102000 OR PTE_V else 0)"
  "load64 demo_mem (0x80102000 + 8 * PX l va) = (if PX l va = 0 then PA2PTE 0x80103000 OR PTE_V OR PTE_R OR PTE_W OR PTE_U else 0)"
proof -
  have a: "page_aligned 0x80100000" "page_aligned 0x80101000" "page_aligned 0x80102000" by (simp_all add: page_aligned_def)
  have z: "load64 (\<lambda>_. 0) x = 0" for x by (simp add: load64_def)
  show "load64 demo_mem (0x80100000 + 8 * PX l va) = (if PX l va = 0 then PA2PTE 0x80101000 OR PTE_V else 0)"
    unfolding demo_mem_def by (simp add: load_store_entry0 [OF a(1) a(1)] load_store_entry0 [OF a(1) a(2)] load_store_entry0 [OF a(1) a(3)] z)
  show "load64 demo_mem (0x80101000 + 8 * PX l va) = (if PX l va = 0 then PA2PTE 0x80102000 OR PTE_V else 0)"
    unfolding demo_mem_def by (simp add: load_store_entry0 [OF a(2) a(1)] load_store_entry0 [OF a(2) a(2)] load_store_entry0 [OF a(2) a(3)] z)
  show "load64 demo_mem (0x80102000 + 8 * PX l va) = (if PX l va = 0 then PA2PTE 0x80103000 OR PTE_V OR PTE_R OR PTE_W OR PTE_U else 0)"
    unfolding demo_mem_def by (simp add: load_store_entry0 [OF a(3) a(1)] load_store_entry0 [OF a(3) a(2)] load_store_entry0 [OF a(3) a(3)] z)
qed

lemma demo_tables:
  "pte_addr 2 demo_mem 0x80100000 va = (if PX 2 va = 0 \<and> PX 1 va = 0 then Some (0x80102000 + 8 * PX 0 va) else None)"
  "tpages 2 demo_mem 0x80100000 va \<subseteq> {0x80100000, 0x80101000, 0x80102000}"
proof -
  have e: "PTE2PA (PA2PTE 0x80101000 OR PTE_V) = 0x80101000" "PTE2PA (PA2PTE 0x80102000 OR PTE_V) = 0x80102000"
    "(PA2PTE 0x80101000 OR PTE_V) AND PTE_V \<noteq> 0" "(PA2PTE 0x80102000 OR PTE_V) AND PTE_V \<noteq> 0"
    by (simp_all add: PTE2PA_def PA2PTE_def)
  show "pte_addr 2 demo_mem 0x80100000 va = (if PX 2 va = 0 \<and> PX 1 va = 0 then Some (0x80102000 + 8 * PX 0 va) else None)"
    "tpages 2 demo_mem 0x80100000 va \<subseteq> {0x80100000, 0x80101000, 0x80102000}"
    using demo_entries(1) [of 2 va] demo_entries(2) [of 1 va] e by (auto simp: numeral_2_eq_2 Let_def)
qed

lemma demo_leaf:
  "leaf demo_mem 0x80100000 va = (if va < MAXVA \<and> PX 2 va = 0 \<and> PX 1 va = 0
     then Some (if PX 0 va = 0 then PA2PTE 0x80103000 OR PTE_V OR PTE_R OR PTE_W OR PTE_U else 0) else None)"
proof -
  have "0x80102000 + 8 * PX 0 va \<noteq> 0"
    using in_page_unat [OF _ entry_in_page(1) [of "0x80102000" 0 va]] by (auto simp: page_aligned_def)
  then show ?thesis by (auto simp: leaf_def demo_tables demo_entries not_le)
qed

lemma demo_uaddr: "uaddr demo_mem 0x80100000 va = (if va < MAXVA \<and> PX 2 va = 0 \<and> PX 1 va = 0 \<and> PX 0 va = 0 then Some 0x80103000 else None)"
  by (simp add: uaddr_def demo_leaf) (simp add: PTE2PA_def PA2PTE_def)

lemma demo_addr_space: "addr_space demo_mem 0x80100000"
proof -
  have e: "PTE2PA (PA2PTE 0x80103000 OR PTE_V OR PTE_R OR PTE_W OR PTE_U) \<noteq> 0" by (simp add: PTE2PA_def PA2PTE_def)
  have "page_aligned 0x80100000" by (simp add: page_aligned_def)
  moreover have "leaf demo_mem 0x80100000 va = Some e \<and> e AND PTE_V \<noteq> 0 \<longrightarrow> PTE2PA e \<noteq> 0" for va e
    using e by (auto simp: demo_leaf split: if_splits)
  moreover have "uaddr demo_mem 0x80100000 va = Some pa \<longrightarrow> pa \<notin> tpages 2 demo_mem 0x80100000 va'" for va va' pa
    using demo_tables(2) [of va'] by (auto simp: demo_uaddr split: if_splits)
  moreover have "page_aligned va \<and> page_aligned va' \<and> uaddr demo_mem 0x80100000 va = Some pa \<and> uaddr demo_mem 0x80100000 va' = Some pa
      \<longrightarrow> va = va'" for va va' pa
    using PX_all_0 [of va] PX_all_0 [of va'] by (auto simp: demo_uaddr split: if_splits)
  ultimately show ?thesis unfolding addr_space_def by blast
qed

lemma demo_wok: "va < 4096 \<Longrightarrow> wok demo_mem 0x80100000 va"
proof -
  assume "va < 4096"
  then have "unat (PGROUNDDOWN va) = 0" unfolding unat_PGROUNDDOWN by (simp add: word_less_nat_alt)
  then have "PGROUNDDOWN va = 0" by (simp add: unat_0_iff)
  then show ?thesis by (simp add: wok_def demo_leaf) (simp add: PA2PTE_def)
qed

section \<open>The contract of \<open>copyin\<close> and \<open>copyout\<close>\<close>

lemma copyout_then_copyin:
  assumes "addr_space (mem s) pt"
  shows "if writable_range (mem s) pt dst (length src)
    then \<exists>m. copyout pt dst src s = Ok (0, s\<lparr>mem := m\<rparr>) \<and> (\<forall>v. leaf m pt v = leaf (mem s) pt v) \<and>
      copyin pt dst (length src) (s\<lparr>mem := m\<rparr>) = Ok (0, src, s\<lparr>mem := m\<rparr>) \<and>
      (\<forall>x. (\<forall>i < length src. x \<noteq> dst + of_nat i) \<longrightarrow> ubyte m pt x = ubyte (mem s) pt x)
    else \<exists>m. copyout pt dst src s = Ok (- 1, s\<lparr>mem := m\<rparr>)"
proof (cases "writable_range (mem s) pt dst (length src)")
  case True
  then obtain m where m: "copyout pt dst src s = Ok (0, s\<lparr>mem := m\<rparr>)" "\<forall>v. leaf m pt v = leaf (mem s) pt v"
    "\<And>i. i < length src \<Longrightarrow> ubyte m pt (dst + of_nat i) = Some (src ! i)"
    "\<forall>x. (\<forall>i < length src. x \<noteq> dst + of_nat i) \<longrightarrow> ubyte m pt x = ubyte (mem s) pt x"
    using copyout_user [OF assms, of dst src] by auto
  from user_bytes_eq [OF m(3)] copyin_user [of "s\<lparr>mem := m\<rparr>" pt dst "length src"]
  have "copyin pt dst (length src) (s\<lparr>mem := m\<rparr>) = Ok (0, src, s\<lparr>mem := m\<rparr>)" by simp
  then show ?thesis using True m by (auto intro!: exI [of _ m])
next
  case False
  then show ?thesis using copyout_user [OF assms, of dst src] by auto
qed

text \<open>C23. Copying to and from user space.  Where every byte of the destination is mapped for the user to write, \<open>copyout\<close>
  returns 0, the user sees exactly the given bytes there and every other byte as before, and \<open>copyin\<close> reads the
  bytes back; otherwise \<open>copyout\<close> returns -1.  \<open>copyin\<close> returns 0 and the bytes of the user exactly if each of them
  lies below \<open>MAXVA\<close> on a valid page with \<open>PTE_U\<close>, and -1 otherwise, also where it meets the bad page only after some good
  ones.  Neither panics, whatever the address and the length are, and the translation is not touched.\<close>

theorem copyout_copyin:
  assumes "addr_space (mem s) pt"
  shows "(if writable_range (mem s) pt dst (length src)
    then \<exists>m. copyout pt dst src s = Ok (0, s\<lparr>mem := m\<rparr>) \<and> (\<forall>v. leaf m pt v = leaf (mem s) pt v) \<and>
      copyin pt dst (length src) (s\<lparr>mem := m\<rparr>) = Ok (0, src, s\<lparr>mem := m\<rparr>) \<and>
      (\<forall>x. (\<forall>i < length src. x \<noteq> dst + of_nat i) \<longrightarrow> ubyte m pt x = ubyte (mem s) pt x)
    else \<exists>m. copyout pt dst src s = Ok (- 1, s\<lparr>mem := m\<rparr>)) \<and>
    (if \<forall>i < n. uaddr (mem s) pt (PGROUNDDOWN (va + of_nat i)) \<noteq> None
     then copyin pt va n s = Ok (0, user_bytes (mem s) pt va n, s)
     else \<exists>bs. copyin pt va n s = Ok (- 1, bs, s))"
  using copyout_then_copyin [OF assms, of dst src] copyin_user [of s pt va n] by (simp add: mapped_def ubyte_def)

theorem copyout_copyin_witness:
  "(\<exists>m. copyout 0x80100000 5 [7, 8, 9] (boot_phys\<lparr>mem := demo_mem\<rparr>) = Ok (0, boot_phys\<lparr>mem := m\<rparr>) \<and>
     copyin 0x80100000 5 3 (boot_phys\<lparr>mem := m\<rparr>) = Ok (0, [7, 8, 9], boot_phys\<lparr>mem := m\<rparr>)) \<and>
   (\<exists>m. copyout 0x80100000 0x40000000 [7] (boot_phys\<lparr>mem := demo_mem\<rparr>) = Ok (- 1, boot_phys\<lparr>mem := m\<rparr>)) \<and>
   (\<exists>bs. copyin 0x80100000 MAXVA 1 (boot_phys\<lparr>mem := demo_mem\<rparr>) = Ok (- 1, bs, boot_phys\<lparr>mem := demo_mem\<rparr>)) \<and>
   (\<exists>bs. copyin 0x80100000 4095 2 (boot_phys\<lparr>mem := demo_mem\<rparr>) = Ok (- 1, bs, boot_phys\<lparr>mem := demo_mem\<rparr>))"
proof -
  let ?s = "boot_phys\<lparr>mem := demo_mem\<rparr>"
  have "addr_space (mem ?s) 0x80100000" by (simp add: demo_addr_space)
  note c = copyout_copyin [OF this]
  have w: "writable_range (mem ?s) 0x80100000 5 (length [7, 8, 9 :: u8])"
    by (auto simp: writable_range_def less_Suc_eq numeral_3_eq_3 intro!: demo_wok)
  have "\<not> wok demo_mem 0x80100000 0x40000000"
    by (simp add: wok_def demo_leaf PGROUNDDOWN_def PX_def PXSHIFT_def)
  then have f: "\<not> writable_range (mem ?s) 0x80100000 0x40000000 (length [7 :: u8])" by (simp add: writable_range_def)
  have "\<exists>m. copyout 0x80100000 5 [7, 8, 9] ?s = Ok (0, boot_phys\<lparr>mem := m\<rparr>) \<and>
      copyin 0x80100000 5 3 (boot_phys\<lparr>mem := m\<rparr>) = Ok (0, [7, 8, 9], boot_phys\<lparr>mem := m\<rparr>)"
    using c [of 5 "[7, 8, 9]", THEN conjunct1] w by (force simp: numeral_3_eq_3)
  moreover have "\<exists>m. copyout 0x80100000 0x40000000 [7] ?s = Ok (- 1, boot_phys\<lparr>mem := m\<rparr>)"
    using c [of "0x40000000" "[7]", THEN conjunct1] f by simp
  moreover have "uaddr (mem ?s) 0x80100000 (PGROUNDDOWN (MAXVA + of_nat 0)) = None"
    "uaddr (mem ?s) 0x80100000 (PGROUNDDOWN (4095 + of_nat 1)) = None"
    by (simp_all add: demo_uaddr PGROUNDDOWN_def PX_def PXSHIFT_def)
  then have u: "\<not> (\<forall>i < 1. uaddr (mem ?s) 0x80100000 (PGROUNDDOWN (MAXVA + of_nat i)) \<noteq> None)"
    "\<not> (\<forall>i < 2. uaddr (mem ?s) 0x80100000 (PGROUNDDOWN (4095 + of_nat i)) \<noteq> None)"
    using zero_less_one one_less_numeral_iff semiring_norm(76) by blast+
  moreover have "\<exists>bs. copyin 0x80100000 MAXVA 1 ?s = Ok (- 1, bs, ?s)"
    using c [of 0 "[]" 1 MAXVA, THEN conjunct2] unfolding if_not_P [OF u(1)] .
  moreover have "\<exists>bs. copyin 0x80100000 4095 2 ?s = Ok (- 1, bs, ?s)"
    using c [of 0 "[]" 2 4095, THEN conjunct2] unfolding if_not_P [OF u(2)] .
  ultimately show ?thesis by blast
qed

end
