(* ===== verification/Pipe.thy ===== *)
theory Pipe
  imports Console Paging
begin

text \<open>
  \<open>struct file\<close> of \<open>kernel/file.h\<close> and the pipes of \<open>kernel/pipe.c\<close> (\<open>pipealloc\<close> is with
  the file table, which it uses).  A pipe is named by the address of the page that holds it.
\<close>

abbreviation (input) PIPESIZE :: u32 where "PIPESIZE \<equiv> 512"

datatype filetype = FD_NONE | FD_PIPE | FD_INODE | FD_DEVICE

record open_file =
  ftype :: filetype
  fref :: int
  readable :: bool
  writable :: bool
  fpipe :: u64
  fip :: "nat option"
  foff :: u32
  fmajor :: u16

record pipe =
  pdata :: "u8 list"
  nread :: u32
  nwrite :: u32
  readopen :: bool
  writeopen :: bool

record files = cons +
  ftable :: "nat \<Rightarrow> open_file"
  pipes :: "u64 \<Rightarrow> pipe"

definition set_file :: "nat \<Rightarrow> (open_file \<Rightarrow> open_file) \<Rightarrow> 'a files_scheme \<Rightarrow> 'a files_scheme" where
  "set_file f g s = s\<lparr>ftable := (ftable s)(f := g (ftable s f))\<rparr>"

definition set_pipe :: "u64 \<Rightarrow> (pipe \<Rightarrow> pipe) \<Rightarrow> 'a files_scheme \<Rightarrow> 'a files_scheme" where
  "set_pipe pi g s = s\<lparr>pipes := (pipes s)(pi := g (pipes s pi))\<rparr>"

definition pipe_slot :: "u32 \<Rightarrow> nat" where
  "pipe_slot i = unat (i mod PIPESIZE)"

definition pipeclose :: "u64 \<Rightarrow> bool \<Rightarrow> 'a files_scheme \<Rightarrow> 'a files_scheme res" where
  "pipeclose pi wr s =
     bindR (acquire (LPipe pi) s) (\<lambda>s.
     bindR (if wr then wakeup (ChPipeR pi) (set_pipe pi (\<lambda>p. p\<lparr>writeopen := False\<rparr>) s)
            else wakeup (ChPipeW pi) (set_pipe pi (\<lambda>p. p\<lparr>readopen := False\<rparr>) s)) (\<lambda>s.
       if \<not> readopen (pipes s pi) \<and> \<not> writeopen (pipes s pi)
       then bindR (release (LPipe pi) s) (kfree pi)
       else release (LPipe pi) s))"

text \<open>
  The loop of \<open>pipewrite\<close>, with the lock held: \<open>i\<close> bytes are written and \<open>k\<close> are left.
  \<open>Wait i\<close> is the point at which the writer goes to sleep on the full pipe.
\<close>

fun pipewrite_loop ::
  "u64 \<Rightarrow> nat \<Rightarrow> u64 \<Rightarrow> nat \<Rightarrow> nat \<Rightarrow> 'a files_scheme \<Rightarrow> (nat io \<times> 'a files_scheme) res" where
  "pipewrite_loop pi pr addr i 0 s =
     bindR (wakeup (ChPipeR pi) s) (\<lambda>s.
     bindR (release (LPipe pi) s) (\<lambda>s. Ok (Ret (of_nat i), s)))"
| "pipewrite_loop pi pr addr i (Suc k) s =
     bindR (if readopen (pipes s pi) then killed pr s else Ok (1, s)) (\<lambda>(gone, s).
       if gone \<noteq> 0 then bindR (release (LPipe pi) s) (\<lambda>s. Ok (Ret (- 1), s))
       else if nwrite (pipes s pi) = nread (pipes s pi) + PIPESIZE
       then bindR (wakeup (ChPipeR pi) s) (\<lambda>s. Ok (Wait i, s))
       else bindR (copyin (pagetable (procs s pr)) (addr + of_nat i) 1 s) (\<lambda>(r, bs, s).
         if r = - 1
         then bindR (wakeup (ChPipeR pi) s) (\<lambda>s.
              bindR (release (LPipe pi) s) (\<lambda>s. Ok (Ret (of_nat i), s)))
         else bindR (arr_get bs 0) (\<lambda>ch.
              bindR (arr_set (pdata (pipes s pi)) (pipe_slot (nwrite (pipes s pi))) ch) (\<lambda>d.
              pipewrite_loop pi pr addr (Suc i) k
                (set_pipe pi (\<lambda>p. p\<lparr>pdata := d, nwrite := nwrite p + 1\<rparr>) s)))))"

definition pipewrite :: "u64 \<Rightarrow> u64 \<Rightarrow> i32 \<Rightarrow> 'a files_scheme \<Rightarrow> (nat io \<times> 'a files_scheme) res" where
  "pipewrite pi addr n s =
     bindR (curproc s) (\<lambda>(pr, s).
     bindR (acquire (LPipe pi) s) (pipewrite_loop pi pr addr 0 (nat (sint n))))"

text \<open>The writer goes on after its sleep.\<close>

definition pipewrite_resume ::
  "u64 \<Rightarrow> nat \<Rightarrow> u64 \<Rightarrow> nat \<Rightarrow> i32 \<Rightarrow> bool \<Rightarrow> 'a files_scheme \<Rightarrow> (nat io \<times> 'a files_scheme) res" where
  "pipewrite_resume pi pr addr i n ie s =
     bindR (sleep_in pr (LPipe pi) ie s) (pipewrite_loop pi pr addr i (nat (sint n) - i))"

fun piperead_loop ::
  "u64 \<Rightarrow> nat \<Rightarrow> u64 \<Rightarrow> nat \<Rightarrow> nat \<Rightarrow> 'a files_scheme \<Rightarrow> (nat \<times> 'a files_scheme) res" where
  "piperead_loop pi pr addr i 0 s = Ok (i, s)"
| "piperead_loop pi pr addr i (Suc k) s =
     (if nread (pipes s pi) = nwrite (pipes s pi) then Ok (i, s)
      else bindR (arr_get (pdata (pipes s pi)) (pipe_slot (nread (pipes s pi)))) (\<lambda>ch.
           let s = set_pipe pi (\<lambda>p. p\<lparr>nread := nread p + 1\<rparr>) s
           in bindR (copyout (pagetable (procs s pr)) (addr + of_nat i) [ch] s) (\<lambda>(r, s).
              if r = - 1 then Ok (i, s) else piperead_loop pi pr addr (Suc i) k s)))"

definition piperead_locked ::
  "u64 \<Rightarrow> nat \<Rightarrow> u64 \<Rightarrow> i32 \<Rightarrow> 'a files_scheme \<Rightarrow> (unit io \<times> 'a files_scheme) res" where
  "piperead_locked pi pr addr n s =
     (if nread (pipes s pi) = nwrite (pipes s pi) \<and> writeopen (pipes s pi)
      then bindR (killed pr s) (\<lambda>(k, s).
             if k \<noteq> 0 then bindR (release (LPipe pi) s) (\<lambda>s. Ok (Ret (- 1), s))
             else Ok (Wait (), s))
      else bindR (piperead_loop pi pr addr 0 (nat (sint n)) s) (\<lambda>(i, s).
           bindR (wakeup (ChPipeW pi) s) (\<lambda>s.
           bindR (release (LPipe pi) s) (\<lambda>s. Ok (Ret (of_nat i), s)))))"

definition piperead :: "u64 \<Rightarrow> u64 \<Rightarrow> i32 \<Rightarrow> 'a files_scheme \<Rightarrow> (unit io \<times> 'a files_scheme) res" where
  "piperead pi addr n s =
     bindR (curproc s) (\<lambda>(pr, s).
     bindR (acquire (LPipe pi) s) (piperead_locked pi pr addr n))"

definition piperead_resume ::
  "u64 \<Rightarrow> nat \<Rightarrow> u64 \<Rightarrow> i32 \<Rightarrow> bool \<Rightarrow> 'a files_scheme \<Rightarrow> (unit io \<times> 'a files_scheme) res" where
  "piperead_resume pi pr addr n ie s =
     bindR (sleep_in pr (LPipe pi) ie s) (piperead_locked pi pr addr n)"

section \<open>The pipe as a queue\<close>

interpretation pb: ring pipe_slot 512
  by (rule ring_mod) (simp_all add: pipe_slot_def unat_mod)

definition pipe_queue :: "pipe \<Rightarrow> u8 list" where
  "pipe_queue P = queue_of pipe_slot (pdata P) (nread P) (nwrite P)"

definition pipe_ok :: "pipe \<Rightarrow> bool" where
  "pipe_ok P \<longleftrightarrow> length (pdata P) = 512 \<and> unat (nwrite P - nread P) \<le> 512"

lemma pipe_full: "pipe_ok P \<Longrightarrow> nwrite P = nread P + 512 \<longleftrightarrow> length (pipe_queue P) = 512"
  using pb.full_iff [of "nwrite P" "nread P"] by (simp add: pipe_queue_def)

lemma pipe_empty: "nread P = nwrite P \<longleftrightarrow> pipe_queue P = []"
  by (auto simp: pipe_queue_def queue_of_nil)

lemma pipe_push:
  assumes "pipe_ok P" and "length (pipe_queue P) \<noteq> 512"
  shows "arr_set (pdata P) (pipe_slot (nwrite P)) c = Ok ((pdata P)[pipe_slot (nwrite P) := c])"
    "pipe_ok (P\<lparr>pdata := (pdata P)[pipe_slot (nwrite P) := c], nwrite := nwrite P + 1\<rparr>)"
    "pipe_queue (P\<lparr>pdata := (pdata P)[pipe_slot (nwrite P) := c], nwrite := nwrite P + 1\<rparr>) = pipe_queue P @ [c]"
  using assms pb.slot_less [of "nwrite P"] pb.queue_push [of "nwrite P" "nread P" "pdata P" c] pb.fill_push [of "nwrite P" "nread P"]
  by (simp_all add: pipe_ok_def pipe_queue_def arr_set_def)

lemma pipe_pop:
  assumes "pipe_ok P" and "pipe_queue P \<noteq> []"
  shows "arr_get (pdata P) (pipe_slot (nread P)) = Ok (hd (pipe_queue P))" "pipe_ok (P\<lparr>nread := nread P + 1\<rparr>)"
    "pipe_queue (P\<lparr>nread := nread P + 1\<rparr>) = tl (pipe_queue P)"
proof -
  have n: "nwrite P \<noteq> nread P" using assms(2) pipe_empty [of P] by auto
  have q: "pipe_queue P = pdata P ! pipe_slot (nread P) # queue_of pipe_slot (pdata P) (nread P + 1) (nwrite P)"
    unfolding pipe_queue_def by (rule queue_of_pop [OF n])
  show "arr_get (pdata P) (pipe_slot (nread P)) = Ok (hd (pipe_queue P))"
    using q pb.slot_less [of "nread P"] assms(1) by (simp add: arr_get_def pipe_ok_def)
  show "pipe_ok (P\<lparr>nread := nread P + 1\<rparr>)" using assms(1) pb.fill_pop [OF n] by (simp add: pipe_ok_def)
  show "pipe_queue (P\<lparr>nread := nread P + 1\<rparr>) = tl (pipe_queue P)" unfolding q by (simp add: pipe_queue_def)
qed

text \<open>What holds between taking and giving back the lock of a pipe.\<close>

definition in_pipe :: "nat \<Rightarrow> u64 \<Rightarrow> 'a mach_scheme \<Rightarrow> 'b mach_scheme \<Rightarrow> bool" where
  "in_pipe p pi s0 s \<longleftrightarrow> quiet p s0 \<and> same_mach (grab (LPipe pi) s0) s"

lemma killed_calm: "cpu_ok s \<Longrightarrow> lock_free (LProc i) s \<Longrightarrow> killed i s = Ok (pkilled (procs s i), settle s)"
  by (simp add: killed_def acquire_free release_section same_mach_def at_mach_grab)

lemma in_pipeD:
  assumes "in_pipe p pi s0 s"
  shows "killed p s = Ok (pkilled (procs s p), s)" "wakeup ch s = Ok (s\<lparr>procs := woken p ch (procs s)\<rparr>)"
    "release (LPipe pi) s = Ok (at_mach (settle s0) s)"
proof -
  have q: "quiet p s0" and m: "same_mach (grab (LPipe pi) s0) s" using assms by (simp_all add: in_pipe_def)
  have st: "settle s = s"
    using settle_same_mach [of "grab (LPipe pi) s0" s] m settle_grab [OF quietD(3) [OF q], of "LPipe pi"] by simp
  have c: "calm p s" using calm_same_mach [OF m] calm_grab [OF quietD(1) [OF q]] by simp
  have "lock_free (LProc p) s" using lock_free_same_mach [OF m] quietD(2) [OF q] by simp
  then show "killed p s = Ok (pkilled (procs s p), s)" using killed_calm [OF calmD(1) [OF c], of p] st by simp
  show "wakeup ch s = Ok (s\<lparr>procs := woken p ch (procs s)\<rparr>)" using wakeup_calm [OF c, of ch] st by simp
  show "release (LPipe pi) s = Ok (at_mach (settle s0) s)" by (rule release_section [OF quietD(3) [OF q] quietD(2) [OF q] m])
qed

lemma in_pipe_frame [simp]:
  "in_pipe p pi s0 (s\<lparr>procs := a\<rparr>) = in_pipe p pi s0 s" "in_pipe p pi s0 (s\<lparr>mem := b\<rparr>) = in_pipe p pi s0 s"
  "in_pipe p pi s0 (s\<lparr>pipes := c\<rparr>) = in_pipe p pi s0 s"
  by (simp_all add: in_pipe_def same_mach_def)

section \<open>Writing\<close>

text \<open>The bytes that can be read from an address on, up to the first that is not mapped.\<close>

fun user_prefix :: "mem \<Rightarrow> u64 \<Rightarrow> u64 \<Rightarrow> nat \<Rightarrow> u8 list" where
  "user_prefix m pt va 0 = []"
| "user_prefix m pt va (Suc k) = (case ubyte m pt va of None \<Rightarrow> [] | Some b \<Rightarrow> b # user_prefix m pt (va + 1) k)"

lemma user_prefix_length: "length (user_prefix m pt va k) \<le> k"
  by (induction k arbitrary: va) (simp_all split: option.split)

lemma copyin_1: "if ubyte (mem s) pt va = None then \<exists>bs. copyin pt va 1 s = Ok (- 1, bs, s)
    else copyin pt va 1 s = Ok (0, [the (ubyte (mem s) pt va)], s)"
  using copyin_user [of s pt va 1] by (auto simp: mapped_def user_bytes_def)

lemma pipewrite_loop_spec:
  assumes "in_pipe p pi s0 s" and "pipe_ok (pipes s pi)"
    and "k = 0 \<or> readopen (pipes s pi)" and "k = 0 \<or> pkilled (procs s p) = 0"
    and "w = take (512 - length (pipe_queue (pipes s pi))) (user_prefix (mem s) (pagetable (procs s p)) (addr + of_nat i) k)"
  shows "\<exists>P. pipe_ok P \<and> pipe_queue P = pipe_queue (pipes s pi) @ w \<and> readopen P = readopen (pipes s pi) \<and> writeopen P = writeopen (pipes s pi) \<and>
    pipewrite_loop pi p addr i k s = Ok (let t = s\<lparr>procs := woken p (ChPipeR pi) (procs s), pipes := (pipes s)(pi := P)\<rparr> in
      if length w = k \<or> length (pipe_queue P) < 512 then (Ret (of_nat (i + length w)), at_mach (settle s0) t) else (Wait (i + length w), t))"
  using assms
proof (induction k arbitrary: i s w)
  case 0
  show ?case
    using 0 in_pipeD(2) [OF 0(1), of "ChPipeR pi"] in_pipeD(3) [of p pi s0 "s\<lparr>procs := woken p (ChPipeR pi) (procs s)\<rparr>"]
    by (intro exI [of _ "pipes s pi"]) (simp add: Let_def)
next
  case (Suc k)
  let ?P = "pipes s pi" and ?t = "s\<lparr>procs := woken p (ChPipeR pi) (procs s)\<rparr>"
  note k = in_pipeD(1) [OF Suc(2)] and wk = in_pipeD(2) [OF Suc(2), of "ChPipeR pi"]
  have rl: "release (LPipe pi) ?t = Ok (at_mach (settle s0) ?t)" by (rule in_pipeD(3)) (use Suc(2) in simp)
  have le: "length (pipe_queue ?P) \<le> 512" using Suc(3) by (simp add: pipe_ok_def pipe_queue_def)
  show ?case
  proof (cases "length (pipe_queue ?P) = 512")
    case True
    then show ?thesis using Suc(3-6) k wk pipe_full [OF Suc(3)] by (intro exI [of _ ?P]) (simp add: Let_def)
  next
    case room: False
    show ?thesis
    proof (cases "ubyte (mem s) (pagetable (procs s p)) (addr + of_nat i)")
      case None
      then obtain bs where "copyin (pagetable (procs s p)) (addr + of_nat i) 1 s = Ok (- 1, bs, s)"
        using copyin_1 [of s "pagetable (procs s p)" "addr + of_nat i"] by auto
      then show ?thesis using Suc(3-6) k wk rl pipe_full [OF Suc(3)] room None le
        by (intro exI [of _ ?P]) (simp add: Let_def)
    next
      case (Some b)
      then have ci: "copyin (pagetable (procs s p)) (addr + of_nat i) 1 s = Ok (0, [b], s)"
        using copyin_1 [of s "pagetable (procs s p)" "addr + of_nat i"] by simp
      note ps = pipe_push [OF Suc(3) room, of b]
      define P1 where "P1 = ?P\<lparr>pdata := (pdata ?P)[pipe_slot (nwrite ?P) := b], nwrite := nwrite ?P + 1\<rparr>"
      define s1 where "s1 = s\<lparr>pipes := (pipes s)(pi := P1)\<rparr>"
      have s1: "pipes s1 pi = P1" "procs s1 = procs s" "mem s1 = mem s" by (simp_all add: s1_def)
      have sp: "set_pipe pi (\<lambda>p. p\<lparr>pdata := (pdata ?P)[pipe_slot (nwrite ?P) := b], nwrite := nwrite p + 1\<rparr>) s = s1"
        by (simp add: s1_def P1_def set_pipe_def)
      have st: "pipewrite_loop pi p addr i (Suc k) s = pipewrite_loop pi p addr (Suc i) k s1"
        using Suc(4,5) k ci ps(1) room pipe_full [OF Suc(3)] by (simp add: arr_get_def sp)
      define w1 where "w1 = take (512 - length (pipe_queue P1)) (user_prefix (mem s) (pagetable (procs s p)) (addr + of_nat (Suc i)) k)"
      have "\<exists>P. pipe_ok P \<and> pipe_queue P = pipe_queue (pipes s1 pi) @ w1 \<and> readopen P = readopen (pipes s1 pi) \<and> writeopen P = writeopen (pipes s1 pi) \<and>
        pipewrite_loop pi p addr (Suc i) k s1 = Ok (let t = s1\<lparr>procs := woken p (ChPipeR pi) (procs s1), pipes := (pipes s1)(pi := P)\<rparr> in
          if length w1 = k \<or> length (pipe_queue P) < 512 then (Ret (of_nat (Suc i + length w1)), at_mach (settle s0) t) else (Wait (Suc i + length w1), t))"
        by (rule Suc(1)) (use Suc(2,4,5) ps(2) in \<open>simp_all add: s1 w1_def\<close>, simp_all add: P1_def s1_def)
      then obtain P where P: "pipe_ok P" "pipe_queue P = pipe_queue P1 @ w1" "readopen P = readopen P1" "writeopen P = writeopen P1"
        "pipewrite_loop pi p addr (Suc i) k s1 = Ok (let t = s1\<lparr>procs := woken p (ChPipeR pi) (procs s1), pipes := (pipes s1)(pi := P)\<rparr> in
          if length w1 = k \<or> length (pipe_queue P) < 512 then (Ret (of_nat (Suc i + length w1)), at_mach (settle s0) t) else (Wait (Suc i + length w1), t))"
        unfolding s1(1) by blast
      have q1: "pipe_queue P1 = pipe_queue ?P @ [b]" unfolding P1_def by (rule ps(3))
      have w: "w = b # w1"
        using Suc(6) Some room le by (simp add: w1_def q1 take_Cons' algebra_simps)
      have "s1\<lparr>procs := woken p (ChPipeR pi) (procs s1), pipes := (pipes s1)(pi := P)\<rparr> =
          s\<lparr>procs := woken p (ChPipeR pi) (procs s), pipes := (pipes s)(pi := P)\<rparr>" by (simp add: s1_def)
      then show ?thesis unfolding st P(5) using P(1-4) w q1 by (intro exI [of _ P]) (simp add: P1_def Let_def fun_upd_def)
    qed
  qed
qed

section \<open>Reading\<close>

text \<open>How many bytes from an address on the user may write.\<close>

fun wprefix :: "mem \<Rightarrow> u64 \<Rightarrow> u64 \<Rightarrow> nat \<Rightarrow> nat" where
  "wprefix m pt va 0 = 0"
| "wprefix m pt va (Suc n) = (if wok m pt va then Suc (wprefix m pt (va + 1) n) else 0)"

lemma wprefix_le: "wprefix m pt va n \<le> n"
  by (induction n arbitrary: va) simp_all

lemma wprefix_leaf: "(\<And>v. leaf m' pt v = leaf m pt v) \<Longrightarrow> wprefix m' pt va n = wprefix m pt va n"
  by (induction n arbitrary: va) (simp_all add: wok_def)

lemma copyout_1:
  assumes "addr_space (mem s) pt"
  shows "\<not> wok (mem s) pt va \<Longrightarrow> copyout pt va [b] s = Ok (- 1, s)"
    "wok (mem s) pt va \<Longrightarrow> \<exists>m. copyout pt va [b] s = Ok (0, s\<lparr>mem := m\<rparr>) \<and> addr_space m pt \<and>
      (\<forall>v. leaf m pt v = leaf (mem s) pt v) \<and> ubyte m pt va = Some b \<and> (\<forall>x. x \<noteq> va \<longrightarrow> ubyte m pt x = ubyte (mem s) pt x)"
proof -
  show "\<not> wok (mem s) pt va \<Longrightarrow> copyout pt va [b] s = Ok (- 1, s)"
    by (auto simp: copyout_step wok_def split: option.splits)
  show "wok (mem s) pt va \<Longrightarrow> \<exists>m. copyout pt va [b] s = Ok (0, s\<lparr>mem := m\<rparr>) \<and> addr_space m pt \<and>
      (\<forall>v. leaf m pt v = leaf (mem s) pt v) \<and> ubyte m pt va = Some b \<and> (\<forall>x. x \<noteq> va \<longrightarrow> ubyte m pt x = ubyte (mem s) pt x)"
    using copyout_user [OF assms, of va "[b]"] by (auto simp: writable_range_def)
qed

lemma of_nat_Suc_neq: "j < 18446744073709551615 \<Longrightarrow> va + 1 + of_nat j \<noteq> (va :: u64)"
proof
  assume j: "j < 18446744073709551615" and "va + 1 + of_nat j = va"
  then have "1 + of_nat j = (0 :: u64)" by (simp add: add.assoc)
  then have "of_nat (Suc j) = (0 :: u64)" by simp
  moreover have "unat (of_nat (Suc j) :: u64) = Suc j" by (rule unat_of_nat_u64) (use j in simp)
  ultimately show False by (metis nat.distinct(1) unat_0)
qed

lemma piperead_loop_spec:
  assumes "pipe_ok (pipes s pi)" and "addr_space (mem s) pt" and "pt = pagetable (procs s p)"
    and "q = pipe_queue (pipes s pi)" and "j = wprefix (mem s) pt (addr + of_nat i) (min k (length q))"
  shows "\<exists>m P. piperead_loop pi p addr i k s = Ok (i + j, s\<lparr>mem := m, pipes := (pipes s)(pi := P)\<rparr>) \<and>
    pipe_ok P \<and> pipe_queue P = drop (if j < min k (length q) then Suc j else j) q \<and>
    readopen P = readopen (pipes s pi) \<and> writeopen P = writeopen (pipes s pi) \<and> addr_space m pt \<and>
    (\<forall>v. leaf m pt v = leaf (mem s) pt v) \<and> (\<forall>x < j. ubyte m pt (addr + of_nat i + of_nat x) = Some (q ! x)) \<and>
    (\<forall>v. (\<forall>x < j. v \<noteq> addr + of_nat i + of_nat x) \<longrightarrow> ubyte m pt v = ubyte (mem s) pt v)"
  using assms
proof (induction k arbitrary: i s q j)
  case 0
  then show ?case by (intro exI [of _ "mem s"] exI [of _ "pipes s pi"]) simp
next
  case (Suc k)
  let ?P = "pipes s pi" and ?va = "addr + of_nat i"
  show ?case
  proof (cases "q = []")
    case True
    then show ?thesis using Suc(2-6) pipe_empty [of ?P] by (intro exI [of _ "mem s"] exI [of _ ?P]) simp
  next
    case False
    note pp = pipe_pop [OF Suc(2), folded Suc(5), OF False]
    define P1 where "P1 = ?P\<lparr>nread := nread ?P + 1\<rparr>"
    define s1 where "s1 = s\<lparr>pipes := (pipes s)(pi := P1)\<rparr>"
    have sp: "set_pipe pi (\<lambda>p. p\<lparr>nread := nread p + 1\<rparr>) s = s1" by (simp add: s1_def P1_def set_pipe_def)
    have ne: "nread ?P \<noteq> nwrite ?P" using False Suc(5) pipe_empty [of ?P] by simp
    have s1: "mem s1 = mem s" "procs s1 = procs s" by (simp_all add: s1_def)
    have as: "addr_space (mem s1) pt" using Suc(3) s1 by simp
    obtain b r where q: "q = b # r" using False by (cases q) simp_all
    have qP: "pipe_queue P1 = r" "pipe_ok P1" using pp(2,3) q by (simp_all add: P1_def)
    show ?thesis
    proof (cases "wok (mem s) pt ?va")
      case no: False
      then have "piperead_loop pi p addr i (Suc k) s = Ok (i, s1)"
        using copyout_1(1) [OF as, of ?va b] ne pp(1) q Suc(4) s1 by (simp add: sp)
      then show ?thesis using no Suc(3,6) q qP by (intro exI [of _ "mem s"] exI [of _ P1]) (simp add: s1_def P1_def fun_upd_def)
    next
      case yes: True
      obtain m1 where m1: "copyout pt ?va [b] s1 = Ok (0, s1\<lparr>mem := m1\<rparr>)" "addr_space m1 pt" "\<And>v. leaf m1 pt v = leaf (mem s) pt v"
        "ubyte m1 pt ?va = Some b" "\<And>x. x \<noteq> ?va \<Longrightarrow> ubyte m1 pt x = ubyte (mem s) pt x"
        using copyout_1(2) [OF as, of ?va b] yes s1 by auto
      define s2 where "s2 = s1\<lparr>mem := m1\<rparr>"
      have st: "piperead_loop pi p addr i (Suc k) s = piperead_loop pi p addr (Suc i) k s2"
        using ne pp(1) q Suc(4) s1 m1(1) by (simp add: sp s2_def)
      define j1 where "j1 = wprefix (mem s) pt (?va + 1) (min k (length r))"
      have va1: "addr + of_nat (Suc i) = ?va + 1" by simp
      have "\<exists>m P. piperead_loop pi p addr (Suc i) k s2 = Ok (Suc i + j1, s2\<lparr>mem := m, pipes := (pipes s2)(pi := P)\<rparr>) \<and>
        pipe_ok P \<and> pipe_queue P = drop (if j1 < min k (length r) then Suc j1 else j1) r \<and>
        readopen P = readopen (pipes s2 pi) \<and> writeopen P = writeopen (pipes s2 pi) \<and> addr_space m pt \<and>
        (\<forall>v. leaf m pt v = leaf (mem s2) pt v) \<and> (\<forall>x < j1. ubyte m pt (addr + of_nat (Suc i) + of_nat x) = Some (r ! x)) \<and>
        (\<forall>v. (\<forall>x < j1. v \<noteq> addr + of_nat (Suc i) + of_nat x) \<longrightarrow> ubyte m pt v = ubyte (mem s2) pt v)"
        by (rule Suc(1)) (use qP m1(2) Suc(4) wprefix_leaf [OF m1(3)] in \<open>simp_all add: s1_def s2_def j1_def va1 ac_simps\<close>)
      then obtain m P where P: "piperead_loop pi p addr (Suc i) k s2 = Ok (Suc i + j1, s2\<lparr>mem := m, pipes := (pipes s2)(pi := P)\<rparr>)"
        "pipe_ok P" "pipe_queue P = drop (if j1 < min k (length r) then Suc j1 else j1) r"
        "readopen P = readopen ?P" "writeopen P = writeopen ?P" "addr_space m pt" "\<And>v. leaf m pt v = leaf (mem s) pt v"
        "\<And>x. x < j1 \<Longrightarrow> ubyte m pt (?va + 1 + of_nat x) = Some (r ! x)"
        "\<And>v. (\<forall>x < j1. v \<noteq> ?va + 1 + of_nat x) \<Longrightarrow> ubyte m pt v = ubyte m1 pt v"
        unfolding va1 by (auto simp: s2_def s1_def P1_def m1(3))
      have j: "j = Suc j1" using Suc(6) q yes by (simp add: j1_def)
      have "length q \<le> 512" using Suc(2,5) by (simp add: pipe_ok_def pipe_queue_def)
      then have "length r < 512" using q by simp
      then have small: "j1 < 512" using wprefix_le [of "mem s" pt "?va + 1" "min k (length r)"] by (simp add: j1_def)
      have e: "s2\<lparr>mem := m, pipes := (pipes s2)(pi := P)\<rparr> = s\<lparr>mem := m, pipes := (pipes s)(pi := P)\<rparr>" by (simp add: s2_def s1_def)
      have rd: "ubyte m pt (?va + of_nat x) = Some (q ! x)" if "x < j" for x
      proof (cases x)
        case 0
        then show ?thesis using P(9) [of ?va] m1(4) q of_nat_Suc_neq [of _ ?va] small by force
      next
        case (Suc y)
        then show ?thesis using P(8) [of y] that q j by (simp add: add.assoc)
      qed
      have fr: "ubyte m pt v = ubyte (mem s) pt v" if v: "\<And>x. x < j \<Longrightarrow> v \<noteq> ?va + of_nat x" for v
      proof -
        have "v \<noteq> ?va + 1 + of_nat x" if "x < j1" for x using v [of "Suc x"] that j by (simp add: add.assoc)
        then show ?thesis using P(9) [of v] m1(5) [of v] v [of 0] j by simp
      qed
      have "piperead_loop pi p addr i (Suc k) s = Ok (i + j, s\<lparr>mem := m, pipes := (pipes s)(pi := P)\<rparr>)"
        unfolding st P(1) e j by simp
      moreover have "pipe_queue P = drop (if j < min (Suc k) (length q) then Suc j else j) q" unfolding P(3) j q by simp
      ultimately show ?thesis using P(2,4-7) rd fr by blast
    qed
  qed
qed

section \<open>The contract of a pipe\<close>

lemma enter_pipe:
  assumes "quiet p s"
  shows "bindR (curproc s) (\<lambda>(pr, s). bindR (acquire (LPipe pi) s) (f pr)) = f p (grab (LPipe pi) (settle s))"
    "in_pipe p pi (settle s) (grab (LPipe pi) (settle s))"
proof -
  have q: "quiet p (settle s)" using assms by (simp add: quiet_def)
  then show "in_pipe p pi (settle s) (grab (LPipe pi) (settle s))" by (simp add: in_pipe_def same_mach_def)
  show "bindR (curproc s) (\<lambda>(pr, s). bindR (acquire (LPipe pi) s) (f pr)) = f p (grab (LPipe pi) (settle s))"
    using curproc_calm [OF quietD(1) [OF assms]] acquire_free [OF quietD(2) [OF q]] by simp
qed

lemma pipe_settle [simp]:
  "pipes (settle s) = pipes s" "pipes (grab l s) = pipes s" "pipes (at_mach u s) = pipes s"
  by (simp_all add: settle_def grab_def at_mach_def)

lemma proc_mem_settle [simp]:
  "procs (grab l s) = procs s" "mem (grab l s) = mem s" "procs (at_mach u s) = procs s" "mem (at_mach u s) = mem s"
  by (simp_all add: grab_def at_mach_def)

text \<open>C24. Writing to a pipe.  A call for a positive number of bytes fails with -1, and leaves every pipe as it was, when the read
  end is closed or the caller is killed.  Otherwise it appends to the queue of the pipe the bytes of the caller that are
  mapped, in their order, until all are written or 512 bytes are pending; it then returns their number, or goes to sleep
  if the pipe is full and bytes are left.  No other pipe changes.  The counters may wrap around.\<close>

theorem pipewrite_appends:
  assumes "quiet p s" and "pipe_ok (pipes s pi)"
  shows "let P = pipes s pi; k = nat (sint n);
      w = take (512 - length (pipe_queue P)) (user_prefix (mem s) (pagetable (procs s p)) addr k)
    in if 0 < k \<and> (\<not> readopen P \<or> pkilled (procs s p) \<noteq> 0)
       then \<exists>t. pipewrite pi addr n s = Ok (Ret (- 1), t) \<and> pipes t = pipes s
       else \<exists>P' t. pipewrite pi addr n s =
              Ok (if length w = k \<or> length (pipe_queue P') < 512 then Ret (of_nat (length w)) else Wait (length w), t) \<and>
            pipes t = (pipes s)(pi := P') \<and> pipe_ok P' \<and> pipe_queue P' = pipe_queue P @ w"
proof -
  let ?P = "pipes s pi" and ?k = "nat (sint n)" and ?g = "grab (LPipe pi) (settle s)"
  let ?w = "take (512 - length (pipe_queue ?P)) (user_prefix (mem s) (pagetable (procs s p)) addr ?k)"
  have e: "pipewrite pi addr n s = pipewrite_loop pi p addr 0 ?k ?g"
    unfolding pipewrite_def by (rule enter_pipe(1) [OF assms(1)])
  note i = enter_pipe(2) [OF assms(1), of pi]
  show ?thesis
  proof (cases "0 < ?k \<and> (\<not> readopen ?P \<or> pkilled (procs s p) \<noteq> 0)")
    case True
    then obtain k where k: "?k = Suc k" by (cases ?k) simp_all
    have "pipewrite pi addr n s = Ok (Ret (- 1), at_mach (settle (settle s)) ?g)"
      unfolding e k using True in_pipeD(1,3) [OF i] by auto
    then show ?thesis using True by (simp add: Let_def)
  next
    case False
    then have a: "pipe_ok (pipes ?g pi)" "?k = 0 \<or> readopen (pipes ?g pi)" "?k = 0 \<or> pkilled (procs ?g p) = 0"
      using assms(2) by auto
    have g: "pipes ?g = pipes s" "procs ?g = procs s" "mem ?g = mem s" "addr + of_nat 0 = addr" by simp_all
    obtain P where P: "pipe_ok P" "pipe_queue P = pipe_queue ?P @ ?w"
      "pipewrite_loop pi p addr 0 ?k ?g = Ok (let t = ?g\<lparr>procs := woken p (ChPipeR pi) (procs s), pipes := (pipes s)(pi := P)\<rparr> in
        if length ?w = ?k \<or> length (pipe_queue P) < 512 then (Ret (of_nat (length ?w)), at_mach (settle (settle s)) t) else (Wait (length ?w), t))"
      using pipewrite_loop_spec [OF i a refl, of addr 0, unfolded g add_0] by (elim exE conjE) (rule that)
    let ?t = "?g\<lparr>procs := woken p (ChPipeR pi) (procs s), pipes := (pipes s)(pi := P)\<rparr>"
    let ?r = "length ?w = ?k \<or> length (pipe_queue P) < 512"
    let ?u = "if ?r then at_mach (settle (settle s)) ?t else ?t"
    have "pipewrite pi addr n s = Ok (if ?r then Ret (of_nat (length ?w)) else Wait (length ?w), ?u)"
      unfolding e P(3) Let_def by (cases ?r) (simp_all only: if_True if_False)
    moreover have "pipes ?u = (pipes s)(pi := P)" by (cases ?r) (simp_all only: if_True if_False, simp_all)
    ultimately show ?thesis unfolding Let_def if_not_P [OF False] using P(1,2) by blast
  qed
qed

text \<open>C25. Reading from a pipe.  On an empty pipe with an open write end the call returns -1 if the caller is killed and sleeps
  otherwise, and nothing changes.  In all other cases it moves the oldest bytes, in their order, to the caller's memory and
  removes them from the queue: as many as were asked for, as there are, or as the caller can write at that address.  In the
  last case one further byte is lost, because it is taken from the queue before the copy fails.  No other byte of the
  caller changes.\<close>

theorem piperead_takes:
  assumes "quiet p s" and "pipe_ok (pipes s pi)" and "addr_space (mem s) (pagetable (procs s p))"
  shows "let P = pipes s pi; q = pipe_queue P; pt = pagetable (procs s p); k = min (nat (sint n)) (length q); j = wprefix (mem s) pt addr k
    in if q = [] \<and> writeopen P
       then \<exists>t. piperead pi addr n s = Ok (if pkilled (procs s p) \<noteq> 0 then Ret (- 1) else Wait (), t) \<and> pipes t = pipes s \<and> mem t = mem s
       else \<exists>P' t. piperead pi addr n s = Ok (Ret (of_nat j), t) \<and> pipes t = (pipes s)(pi := P') \<and> pipe_ok P' \<and>
            pipe_queue P' = drop (if j < k then Suc j else j) q \<and>
            (\<forall>x < j. ubyte (mem t) pt (addr + of_nat x) = Some (q ! x)) \<and>
            (\<forall>v. (\<forall>x < j. v \<noteq> addr + of_nat x) \<longrightarrow> ubyte (mem t) pt v = ubyte (mem s) pt v)"
proof -
  let ?P = "pipes s pi" and ?pt = "pagetable (procs s p)" and ?g = "grab (LPipe pi) (settle s)"
  let ?q = "pipe_queue ?P"
  let ?k = "min (nat (sint n)) (length ?q)"
  let ?j = "wprefix (mem s) ?pt addr ?k"
  have e: "piperead pi addr n s = piperead_locked pi p addr n ?g"
    unfolding piperead_def by (rule enter_pipe(1) [OF assms(1)])
  note i = enter_pipe(2) [OF assms(1), of pi]
  show ?thesis
  proof (cases "?q = [] \<and> writeopen ?P")
    case True
    then show ?thesis using e in_pipeD(1,3) [OF i] pipe_empty [of ?P] by (simp add: piperead_locked_def Let_def)
  next
    case False
    have g: "pipes ?g = pipes s" "procs ?g = procs s" "mem ?g = mem s" "addr + of_nat 0 = addr" by simp_all
    have a: "pipe_ok (pipes ?g pi)" "addr_space (mem ?g) ?pt" "?pt = pagetable (procs ?g p)" "?q = pipe_queue (pipes ?g pi)"
      "?j = wprefix (mem ?g) ?pt (addr + of_nat 0) ?k"
      unfolding g using assms(2,3) by simp_all
    obtain m P where P: "piperead_loop pi p addr 0 (nat (sint n)) ?g = Ok (?j, ?g\<lparr>mem := m, pipes := (pipes s)(pi := P)\<rparr>)"
      "pipe_ok P" "pipe_queue P = drop (if ?j < ?k then Suc ?j else ?j) ?q" "\<forall>x < ?j. ubyte m ?pt (addr + of_nat x) = Some (?q ! x)"
      "\<forall>v. (\<forall>x < ?j. v \<noteq> addr + of_nat x) \<longrightarrow> ubyte m ?pt v = ubyte (mem s) ?pt v"
      using piperead_loop_spec [OF a, unfolded g add_0] by (elim exE conjE) (rule that)
    let ?t = "?g\<lparr>mem := m, pipes := (pipes s)(pi := P)\<rparr>"
    have it: "in_pipe p pi (settle s) ?t" using i by simp
    let ?u = "?t\<lparr>procs := woken p (ChPipeW pi) (procs ?t)\<rparr>"
    have iu: "in_pipe p pi (settle s) ?u" using it by (simp only: in_pipe_frame)
    define U where "U = at_mach (settle (settle s)) ?u"
    have "piperead pi addr n s = Ok (Ret (of_nat ?j), U)"
      using iu e P(1) False pipe_empty [of ?P] in_pipeD(2) [OF it, of "ChPipeW pi"]
        in_pipeD(3) [of p pi "settle s" ?u]
      by (simp add: piperead_locked_def U_def)
    moreover have "pipes U = (pipes s)(pi := P)" and m: "mem U = m" by (simp_all add: U_def)
    ultimately show ?thesis unfolding Let_def if_not_P [OF False]
      using P(2,3) P(4) [folded m] P(5) [folded m] by blast
  qed
qed

section \<open>A small instance\<close>

text \<open>A process whose only page is at virtual address 0, and a pipe with one pending byte whose counters are about to wrap.\<close>

definition demo_pipe :: "'x \<Rightarrow> 'x files_scheme" where
  "demo_pipe x = (demo_cons [] \<lparr>ftable = (\<lambda>_. \<lparr>ftype = FD_NONE, fref = 0, readable = False, writable = False, fpipe = 0,
       fip = None, foff = 0, fmajor = 0\<rparr>),
     pipes = (\<lambda>_. \<lparr>pdata = replicate 512 7, nread = - 1, nwrite = 0, readopen = True, writeopen = True\<rparr>), \<dots> = x\<rparr>)
     \<lparr>mem := demo_mem, procs := (\<lambda>_. zero_proc\<lparr>pagetable := 0x80100000\<rparr>)\<rparr>"

lemma files_more: "cons.more s = \<lparr>ftable = f, pipes = g, \<dots> = x\<rparr> \<Longrightarrow> ftable s = f \<and> pipes s = g \<and> files.more s = x"
  by (cases s) simp

lemma demo_pipe_fields: "pipes (demo_pipe x) pi = \<lparr>pdata = replicate 512 7, nread = - 1, nwrite = 0, readopen = True, writeopen = True\<rparr>"
  "mem (demo_pipe x) = demo_mem" "procs (demo_pipe x) = (\<lambda>_. zero_proc\<lparr>pagetable := 0x80100000\<rparr>)" "quiet 3 (demo_pipe x)"
proof -
  show "pipes (demo_pipe x) pi = \<lparr>pdata = replicate 512 7, nread = - 1, nwrite = 0, readopen = True, writeopen = True\<rparr>"
    by (simp add: demo_pipe_def files_more [OF demo_cons_fields(5)])
  show "mem (demo_pipe x) = demo_mem" "procs (demo_pipe x) = (\<lambda>_. zero_proc\<lparr>pagetable := 0x80100000\<rparr>)"
    by (simp_all add: demo_pipe_def)
  have sm: "quiet 3 (s\<lparr>mem := m, procs := ps\<rparr>)" if "settle s = s" "quiet 3 s" for s :: "'x files_scheme" and m ps
    using that quiet_same_mach [of s "s\<lparr>mem := m, procs := ps\<rparr>" 3] by (simp add: same_mach_def)
  show "quiet 3 (demo_pipe x)" unfolding demo_pipe_def by (rule sm) (rule demo_cons_quiet)+
qed

lemma demo_pipe_ok: "pipe_ok (pipes (demo_pipe x) pi)" "pipe_queue (pipes (demo_pipe x) pi) = [7]"
  by (simp_all add: demo_pipe_fields pipe_ok_def pipe_queue_def queue_of_def pipe_slot_def)

theorem pipewrite_appends_witness:
  "\<exists>P t. pipewrite 0x87000000 5 2 (demo_pipe ()) = Ok (Ret 2, t) \<and> pipes t 0x87000000 = P \<and> pipe_queue P = [7, 0, 0]"
proof -
  have z: "ubyte demo_mem 0x80100000 5 = Some 0" "ubyte demo_mem 0x80100000 6 = Some 0"
    by (simp_all add: ubyte_def demo_uaddr PGROUNDDOWN_def) (simp_all add: demo_mem_def store64_def)
  have n: "nat (sint (2 :: i32)) = Suc (Suc 0)" by simp
  have "user_prefix demo_mem 0x80100000 5 (Suc (Suc 0)) = [0, 0]" using z by simp
  then show ?thesis
    using pipewrite_appends [OF demo_pipe_fields(4) demo_pipe_ok(1), of "()" "0x87000000" 2 5]
    unfolding Let_def n demo_pipe_ok(2) by (auto simp: demo_pipe_fields zero_proc_def)
qed

theorem piperead_takes_witness:
  "\<exists>t. piperead 0x87000000 5 4 (demo_pipe ()) = Ok (Ret 1, t) \<and> pipe_queue (pipes t 0x87000000) = [] \<and>
     ubyte (mem t) 0x80100000 5 = Some 7"
proof -
  have n: "nat (sint (4 :: i32)) = 4" by simp
  have "wprefix demo_mem 0x80100000 5 (Suc 0) = Suc 0" by (simp add: demo_wok)
  moreover have "addr_space (mem (demo_pipe ())) (pagetable (procs (demo_pipe ()) 3))" by (simp add: demo_pipe_fields demo_addr_space)
  ultimately show ?thesis
    using piperead_takes [OF demo_pipe_fields(4) demo_pipe_ok(1), of "()" "0x87000000" 4 5]
    unfolding Let_def n demo_pipe_ok(2) by (auto simp: demo_pipe_fields zero_proc_def)
qed

end
