(* ===== verification/File.thy ===== *)
theory File
  imports Pipe
begin

text \<open>
  \<open>kernel/file.c\<close>: the table of open files, with \<open>pipealloc\<close> of \<open>kernel/pipe.c\<close>.  Reads and
  writes are passed on to pipes, devices and inodes.
\<close>

abbreviation (input) NDEV :: int where "NDEV \<equiv> 10"

definition fileinit :: "'a files_scheme \<Rightarrow> 'a files_scheme" where
  "fileinit s = initlock LFtable ''ftable'' s"

fun free_file :: "nat list \<Rightarrow> 'a files_scheme \<Rightarrow> nat option" where
  "free_file [] s = None"
| "free_file (f # fs) s = (if fref (ftable s f) = 0 then Some f else free_file fs s)"

definition filealloc :: "'a files_scheme \<Rightarrow> (nat option \<times> 'a files_scheme) res" where
  "filealloc s =
     bindR (acquire LFtable s) (\<lambda>s.
       case free_file [0..<NFILE] s of
         Some f \<Rightarrow> bindR (release LFtable (set_file f (\<lambda>x. x\<lparr>fref := 1\<rparr>) s)) (\<lambda>s. Ok (Some f, s))
       | None \<Rightarrow> bindR (release LFtable s) (\<lambda>s. Ok (None, s)))"

definition filedup :: "nat \<Rightarrow> 'a files_scheme \<Rightarrow> (nat \<times> 'a files_scheme) res" where
  "filedup f s =
     bindR (acquire LFtable s) (\<lambda>s.
       if fref (ftable s f) < 1 then Panic ''filedup''
       else bindR (release LFtable (set_file f (\<lambda>x. x\<lparr>fref := fref x + 1\<rparr>) s)) (\<lambda>s. Ok (f, s)))"

definition fileclose :: "nat \<Rightarrow> 'a files_scheme \<Rightarrow> 'a files_scheme res" where
  "fileclose f s =
     bindR (acquire LFtable s) (\<lambda>s.
       if fref (ftable s f) < 1 then Panic ''fileclose''
       else let s = set_file f (\<lambda>x. x\<lparr>fref := fref x - 1\<rparr>) s
            in if fref (ftable s f) > 0 then release LFtable s
               else let ff = ftable s f;
                        s = set_file f (\<lambda>x. x\<lparr>fref := 0, ftype := FD_NONE\<rparr>) s
                    in bindR (release LFtable s) (\<lambda>s.
                       if ftype ff = FD_PIPE then pipeclose (fpipe ff) (writable ff) s
                       else if ftype ff = FD_INODE \<or> ftype ff = FD_DEVICE
                       then bindR (begin_op s) (\<lambda>s.
                            case fip ff of
                              None \<Rightarrow> Undef
                            | Some ip \<Rightarrow> bindR (iput ip s) end_op)
                       else Ok s))"

text \<open>\<open>struct stat\<close>; the four bytes of padding, indeterminate in C, are zero here.\<close>

definition stat_bytes :: "u32 \<times> u32 \<times> u16 \<times> u16 \<times> u64 \<Rightarrow> u8 list" where
  "stat_bytes st =
     (case st of (d, i, ty, nl, n) \<Rightarrow>
        put32 20 (ucast (drop_bit 32 n)) (put32 16 (ucast n) (put16 10 nl (put16 8 ty
          (put32 4 i (put32 0 d (replicate 24 0)))))))"

definition filestat :: "nat \<Rightarrow> u64 \<Rightarrow> 'a files_scheme \<Rightarrow> (i32 \<times> 'a files_scheme) res" where
  "filestat f addr s =
     bindR (curproc s) (\<lambda>(p, s).
       if ftype (ftable s f) = FD_INODE \<or> ftype (ftable s f) = FD_DEVICE
       then bindR (ilock (fip (ftable s f)) s) (\<lambda>s.
              case fip (ftable s f) of
                None \<Rightarrow> Undef
              | Some ip \<Rightarrow>
                  let st = stati ip s
                  in bindR (iunlock (Some ip) s) (\<lambda>s.
                     bindR (copyout (pagetable (procs s p)) addr (stat_bytes st) s) (\<lambda>(r, s).
                       Ok (if sint r < 0 then - 1 else 0, s))))
       else Ok (- 1, s))"

text \<open>The device switch.\<close>

definition device :: "nat \<Rightarrow> 'a files_scheme \<Rightarrow> devops option" where
  "device f s =
     (let m = sint (fmajor (ftable s f)) in if m < 0 \<or> m \<ge> NDEV then None else devsw s (nat m))"

definition fileread :: "nat \<Rightarrow> u64 \<Rightarrow> i32 \<Rightarrow> 'a files_scheme \<Rightarrow> (i32 \<times> 'a files_scheme) res" where
  "fileread f addr n s =
     (if \<not> readable (ftable s f) then Ok (- 1, s)
      else case ftype (ftable s f) of
             FD_PIPE \<Rightarrow> must_return (piperead (fpipe (ftable s f)) addr n s)
           | FD_DEVICE \<Rightarrow>
               (case device f s of
                  None \<Rightarrow> Ok (- 1, s)
                | Some ConsoleOps \<Rightarrow> must_return (consoleread True addr n s))
           | FD_INODE \<Rightarrow>
               bindR (ilock (fip (ftable s f)) s) (\<lambda>s.
               case fip (ftable s f) of
                 None \<Rightarrow> Undef
               | Some ip \<Rightarrow>
                   bindR (readi ip (UserMem addr) (foff (ftable s f)) n s) (\<lambda>(r, _, s).
                   bindR (iunlock (Some ip)
                            (if sint r > 0 then set_file f (\<lambda>x. x\<lparr>foff := foff x + r\<rparr>) s else s)) (\<lambda>s.
                   Ok (r, s))))
           | FD_NONE \<Rightarrow> Panic ''fileread'')"

text \<open>
  At most three blocks go into one transaction; \<open>i\<close> of the \<open>n\<close> bytes are written.  The loop
  stops at a short write, so every further turn has written at least one byte.
\<close>

definition max_write :: nat where
  "max_write = ((10 - 1 - 1 - 2) div 2) * BSIZE"

function filewrite_loop :: "nat \<Rightarrow> nat \<Rightarrow> u64 \<Rightarrow> nat \<Rightarrow> nat \<Rightarrow> 'a files_scheme \<Rightarrow> (nat \<times> 'a files_scheme) res" where
  "filewrite_loop f ip addr i n s =
     (if i < n
      then let n1 = min (n - i) max_write
           in bindR (begin_op s) (\<lambda>s.
              bindR (ilock (Some ip) s) (\<lambda>s.
              bindR (writei ip (UserMem (addr + of_nat i)) (foff (ftable s f)) (of_nat n1) s) (\<lambda>(r, s).
              bindR (iunlock (Some ip)
                       (if sint r > 0 then set_file f (\<lambda>x. x\<lparr>foff := foff x + r\<rparr>) s else s)) (\<lambda>s.
              bindR (end_op s) (\<lambda>s.
                if sint r \<noteq> int n1 then Ok (i, s) else filewrite_loop f ip addr (i + n1) n s)))))
      else Ok (i, s))"
  by pat_completeness auto
termination
  by (relation "measure (\<lambda>(f, ip, addr, i, n, s). n - i)") (auto simp: max_write_def)

declare filewrite_loop.simps [simp del]

definition filewrite :: "nat \<Rightarrow> u64 \<Rightarrow> i32 \<Rightarrow> 'a files_scheme \<Rightarrow> (i32 \<times> 'a files_scheme) res" where
  "filewrite f addr n s =
     (if \<not> writable (ftable s f) then Ok (- 1, s)
      else case ftype (ftable s f) of
             FD_PIPE \<Rightarrow> must_return (pipewrite (fpipe (ftable s f)) addr n s)
           | FD_DEVICE \<Rightarrow>
               (case device f s of
                  None \<Rightarrow> Ok (- 1, s)
                | Some ConsoleOps \<Rightarrow> consolewrite True addr n s)
           | FD_INODE \<Rightarrow>
               (if sint n \<le> 0 then Ok (if n = 0 then n else - 1, s)
                else case fip (ftable s f) of
                       None \<Rightarrow> bindR (begin_op s) (\<lambda>s. bindR (ilock None s) (\<lambda>s. Ok (0, s)))
                     | Some ip \<Rightarrow>
                         bindR (filewrite_loop f ip addr 0 (nat (sint n)) s) (\<lambda>(i, s).
                         Ok (if int i = sint n then n else - 1, s)))
           | FD_NONE \<Rightarrow> Panic ''filewrite'')"

section \<open>Creating a pipe\<close>

text \<open>The exit \<open>bad\<close>; the page is allocated last, so there is none to give back.\<close>

definition pipealloc_bad :: "nat option \<Rightarrow> nat option \<Rightarrow> 'a files_scheme \<Rightarrow> ((nat \<times> nat) option \<times> 'a files_scheme) res" where
  "pipealloc_bad f0 f1 s =
     bindR (case f0 of None \<Rightarrow> Ok s | Some f \<Rightarrow> fileclose f s) (\<lambda>s.
     bindR (case f1 of None \<Rightarrow> Ok s | Some f \<Rightarrow> fileclose f s) (\<lambda>s. Ok (None, s)))"

definition pipealloc :: "'a files_scheme \<Rightarrow> ((nat \<times> nat) option \<times> 'a files_scheme) res" where
  "pipealloc s =
     bindR (filealloc s) (\<lambda>(f0, s).
       case f0 of
         None \<Rightarrow> pipealloc_bad None None s
       | Some a \<Rightarrow>
           bindR (filealloc s) (\<lambda>(f1, s).
             case f1 of
               None \<Rightarrow> pipealloc_bad f0 None s
             | Some b \<Rightarrow>
                 bindR (kalloc s) (\<lambda>(pi, s).
                   if pi = 0 then pipealloc_bad f0 f1 s
                   else let s = set_pipe pi (\<lambda>p. p\<lparr>readopen := True, writeopen := True, nwrite := 0, nread := 0\<rparr>) s;
                            s = initlock (LPipe pi) ''pipe'' s;
                            s = set_file a (\<lambda>x. x\<lparr>ftype := FD_PIPE, readable := True, writable := False, fpipe := pi\<rparr>) s;
                            s = set_file b (\<lambda>x. x\<lparr>ftype := FD_PIPE, readable := False, writable := True, fpipe := pi\<rparr>) s
                        in Ok (Some (a, b), s))))"

end
