(* ===== verification/Process.thy ===== *)
theory Process
  imports File
begin

text \<open>
  Creation and end of processes in \<open>kernel/proc.c\<close>: \<open>allocproc\<close>, \<open>fork\<close>, \<open>forkprio\<close>,
  \<open>freeproc\<close>, \<open>userinit\<close>, \<open>growproc\<close>, \<open>exit\<close>, \<open>wait\<close>.  A trapframe is a page of physical
  memory.  \<open>exit\<close> ends in \<open>sched\<close>, so the model ends there; \<open>wait\<close> is one scan of the table,
  after which it returns or goes to sleep.
\<close>

section \<open>Address space of a process\<close>

text \<open>Byte offsets in \<open>struct trapframe\<close>.\<close>

abbreviation (input) TF_kernel_satp :: u64 where "TF_kernel_satp \<equiv> 0"
abbreviation (input) TF_kernel_sp :: u64 where "TF_kernel_sp \<equiv> 8"
abbreviation (input) TF_kernel_trap :: u64 where "TF_kernel_trap \<equiv> 16"
abbreviation (input) TF_epc :: u64 where "TF_epc \<equiv> 24"
abbreviation (input) TF_kernel_hartid :: u64 where "TF_kernel_hartid \<equiv> 32"
abbreviation (input) TF_sp :: u64 where "TF_sp \<equiv> 48"
abbreviation (input) TF_a0 :: u64 where "TF_a0 \<equiv> 112"
abbreviation (input) TF_a1 :: u64 where "TF_a1 \<equiv> 120"
abbreviation (input) TF_a7 :: u64 where "TF_a7 \<equiv> 168"
abbreviation (input) TF_size :: u32 where "TF_size \<equiv> 288"

definition proc_pagetable :: "nat \<Rightarrow> 'a ptab_scheme \<Rightarrow> (u64 \<times> 'a ptab_scheme) res" where
  "proc_pagetable p s =
     bindR (uvmcreate s) (\<lambda>(pt, s).
       if pt = 0 then Ok (0, s)
       else bindR (mappages pt TRAMPOLINE PGSIZE (trampoline (img s)) (PTE_R OR PTE_X) s) (\<lambda>(r, s).
         if sint r < 0 then bindR (uvmfree pt 0 s) (\<lambda>s. Ok (0, s))
         else bindR (mappages pt TRAPFRAME PGSIZE (trapframe (procs s p)) (PTE_R OR PTE_W) s) (\<lambda>(r, s).
           if sint r < 0
           then bindR (uvmunmap pt TRAMPOLINE 1 False s) (\<lambda>s.
                bindR (uvmfree pt 0 s) (\<lambda>s. Ok (0, s)))
           else Ok (pt, s))))"

definition proc_freepagetable :: "u64 \<Rightarrow> u64 \<Rightarrow> 'a phys_scheme \<Rightarrow> 'a phys_scheme res" where
  "proc_freepagetable pt nb s =
     bindR (uvmunmap pt TRAMPOLINE 1 False s) (\<lambda>s.
     bindR (uvmunmap pt TRAPFRAME 1 False s) (uvmfree pt nb))"

definition freeproc :: "nat \<Rightarrow> 'a ptab_scheme \<Rightarrow> 'a ptab_scheme res" where
  "freeproc p s =
     bindR (if trapframe (procs s p) \<noteq> 0 then kfree (trapframe (procs s p)) s else Ok s) (\<lambda>s.
     let s = set_proc p (\<lambda>x. x\<lparr>trapframe := 0\<rparr>) s
     in bindR (if pagetable (procs s p) \<noteq> 0
               then proc_freepagetable (pagetable (procs s p)) (sz (procs s p)) s else Ok s) (\<lambda>s.
        Ok (set_proc p (\<lambda>x. x\<lparr>pagetable := 0, sz := 0, pid := 0, parent := None, pname := (pname x)[0 := 0],
              chan := None, pkilled := 0, xstate := 0, state := UNUSED\<rparr>) s)))"

definition growproc :: "i32 \<Rightarrow> 'a ptab_scheme \<Rightarrow> (i32 \<times> 'a ptab_scheme) res" where
  "growproc n s =
     bindR (curproc s) (\<lambda>(p, s).
     let nb = sz (procs s p); pt = pagetable (procs s p)
     in if sint n > 0
        then bindR (uvmalloc pt nb (nb + scast n) PTE_W s) (\<lambda>(nb, s).
               if nb = 0 then Ok (- 1, s) else Ok (0, set_proc p (\<lambda>x. x\<lparr>sz := nb\<rparr>) s))
        else if sint n < 0
        then bindR (uvmdealloc pt nb (nb + scast n) s) (\<lambda>(nb, s).
               Ok (0, set_proc p (\<lambda>x. x\<lparr>sz := nb\<rparr>) s))
        else Ok (0, set_proc p (\<lambda>x. x\<lparr>sz := nb\<rparr>) s))"

section \<open>Creation\<close>

text \<open>The first unused slot, with its lock held.\<close>

fun find_unused :: "nat list \<Rightarrow> 'a ptab_scheme \<Rightarrow> (nat option \<times> 'a ptab_scheme) res" where
  "find_unused [] s = Ok (None, s)"
| "find_unused (p # ps) s =
     bindR (acquire (LProc p) s) (\<lambda>s.
       if state (procs s p) = UNUSED then Ok (Some p, s)
       else bindR (release (LProc p) s) (find_unused ps))"

definition allocproc :: "'a ptab_scheme \<Rightarrow> (nat option \<times> 'a ptab_scheme) res" where
  "allocproc s =
     bindR (find_unused slots s) (\<lambda>(r, s).
       case r of
         None \<Rightarrow> Ok (None, s)
       | Some p \<Rightarrow>
           bindR (allocpid s) (\<lambda>(n, s).
           let s = set_proc p (\<lambda>x. x\<lparr>pid := n, state := USED\<rparr>) s
           in bindR (kalloc s) (\<lambda>(tf, s).
              let s = set_proc p (\<lambda>x. x\<lparr>trapframe := tf\<rparr>) s
              in if tf = 0
                 then bindR (freeproc p s) (\<lambda>s. bindR (release (LProc p) s) (\<lambda>s. Ok (None, s)))
                 else bindR (proc_pagetable p s) (\<lambda>(pt, s).
                      let s = set_proc p (\<lambda>x. x\<lparr>pagetable := pt\<rparr>) s
                      in if pt = 0
                         then bindR (freeproc p s) (\<lambda>s. bindR (release (LProc p) s) (\<lambda>s. Ok (None, s)))
                         else Ok (Some p, set_proc p (\<lambda>x. x\<lparr>
                                pcontext := \<lparr>ra = forkret_addr (img s), ctx_sp = kstack x + PGSIZE,
                                             sregs = replicate 12 0\<rparr>,
                                prioridade := 3\<rparr>) s)))))"

text \<open>
  The part that \<open>fork\<close> and \<open>forkprio\<close> have in common: size, registers, open files, working
  directory and name of the parent.
\<close>

definition copy_files :: "nat \<Rightarrow> nat \<Rightarrow> 'a files_scheme \<Rightarrow> 'a files_scheme res" where
  "copy_files p np =
     foldR (\<lambda>i s.
       case ofile (procs s p) i of
         None \<Rightarrow> Ok s
       | Some f \<Rightarrow> bindR (filedup f s) (\<lambda>(f, s).
           Ok (set_proc np (\<lambda>x. x\<lparr>ofile := (ofile x)(i := Some f)\<rparr>) s))) [0..<NOFILE]"

definition copy_proc :: "nat \<Rightarrow> nat \<Rightarrow> 'a files_scheme \<Rightarrow> 'a files_scheme res" where
  "copy_proc p np s =
     (let s = set_proc np (\<lambda>x. x\<lparr>sz := sz (procs s p)\<rparr>) s;
          tf = trapframe (procs s np);
          s = s\<lparr>mem := store64 (tf + TF_a0) 0 (memmove tf (trapframe (procs s p)) TF_size (mem s))\<rparr>
      in bindR (copy_files p np s) (\<lambda>s.
         bindR (case cwd (procs s p) of None \<Rightarrow> Undef | Some ip \<Rightarrow> idup ip s) (\<lambda>(ip, s).
         let s = set_proc np (\<lambda>x. x\<lparr>cwd := Some ip\<rparr>) s
         in bindR (safestrcpy (pname (procs s np)) (pname (procs s p)) 16) (\<lambda>nm.
            Ok (set_proc np (\<lambda>x. x\<lparr>pname := nm\<rparr>) s)))))"

text \<open>The end of both: the child gets its parent and becomes runnable.\<close>

definition publish :: "nat \<Rightarrow> nat \<Rightarrow> 'a ptab_scheme \<Rightarrow> 'a ptab_scheme res" where
  "publish p np s =
     bindR (release (LProc np) s) (\<lambda>s.
     bindR (acquire LWait s) (\<lambda>s.
     bindR (release LWait (set_proc np (\<lambda>x. x\<lparr>parent := Some p\<rparr>) s)) (\<lambda>s.
     bindR (acquire (LProc np) s) (\<lambda>s.
     release (LProc np) (set_proc np (\<lambda>x. x\<lparr>state := RUNNABLE\<rparr>) s)))))"

definition fork :: "i32 \<Rightarrow> 'a files_scheme \<Rightarrow> (i32 \<times> 'a files_scheme) res" where
  "fork class s =
     bindR (curproc s) (\<lambda>(p, s).
     bindR (allocproc s) (\<lambda>(r, s).
       case r of
         None \<Rightarrow> Ok (- 1, s)
       | Some np \<Rightarrow>
           let s = set_proc np (\<lambda>x. x\<lparr>classe := class\<rparr>) s
           in bindR (uvmcopy (pagetable (procs s p)) (pagetable (procs s np)) (sz (procs s p)) s) (\<lambda>(r, s).
                if sint r < 0
                then bindR (freeproc np s) (\<lambda>s. bindR (release (LProc np) s) (\<lambda>s. Ok (- 1, s)))
                else bindR (copy_proc p np s) (\<lambda>s.
                     let n = pid (procs s np)
                     in bindR (publish p np s) (\<lambda>s. Ok (n, s))))))"

definition prio_tickets :: "i32 \<Rightarrow> i32" where
  "prio_tickets prio = (if prio = 0 then 100 else if prio = 1 then 50 else if prio = 2 then 250 else 10000)"

definition forkprio :: "i32 \<Rightarrow> 'a files_scheme \<Rightarrow> (i32 \<times> 'a files_scheme) res" where
  "forkprio prio s =
     bindR (curproc s) (\<lambda>(p, s).
     bindR (allocproc s) (\<lambda>(r, s).
       case r of
         None \<Rightarrow> Ok (- 1, s)
       | Some np \<Rightarrow>
           let s = set_proc np (\<lambda>x. x\<lparr>classe := prio\<rparr>) s
           in bindR (uvmcopy (pagetable (procs s p)) (pagetable (procs s np)) (sz (procs s p)) s) (\<lambda>(r, s).
                if sint r < 0
                then bindR (acquire (LProc np) s) (\<lambda>s.
                     bindR (freeproc np s) (\<lambda>s. bindR (release (LProc np) s) (\<lambda>s. Ok (- 1, s))))
                else bindR (copy_proc p np s) (\<lambda>s.
                     let n = pid (procs s np);
                         s = set_proc np (\<lambda>x. x\<lparr>tickets := prio_tickets prio,
                               stride := idiv 10000 (prio_tickets prio), pass := 0\<rparr>) s
                     in bindR (publish p np s) (\<lambda>s. Ok (n, s))))))"

definition initcode :: "u8 list" where
  "initcode = [
     0x17, 0x05, 0x00, 0x00, 0x13, 0x05, 0x45, 0x02, 0x97, 0x05, 0x00, 0x00, 0x93, 0x85, 0x35, 0x02,
     0x93, 0x08, 0x70, 0x00, 0x73, 0x00, 0x00, 0x00, 0x93, 0x08, 0x20, 0x00, 0x73, 0x00, 0x00, 0x00,
     0xef, 0xf0, 0x9f, 0xff, 0x2f, 0x69, 0x6e, 0x69, 0x74, 0x00, 0x00, 0x24, 0x00, 0x00, 0x00, 0x00,
     0x00, 0x00, 0x00, 0x00]"

definition userinit :: "'a files_scheme \<Rightarrow> 'a files_scheme res" where
  "userinit s =
     bindR (allocproc s) (\<lambda>(r, s).
     let s = s\<lparr>initproc := r\<rparr>
     in case r of
          None \<Rightarrow> Undef
        | Some p \<Rightarrow>
            bindR (uvmfirst (pagetable (procs s p)) initcode s) (\<lambda>s.
            let s = set_proc p (\<lambda>x. x\<lparr>sz := PGSIZE\<rparr>) s;
                tf = trapframe (procs s p);
                s = s\<lparr>mem := store64 (tf + TF_sp) PGSIZE (store64 (tf + TF_epc) 0 (mem s))\<rparr>
            in bindR (safestrcpy (pname (procs s p)) (bytes ''initcode'' @ [0]) 16) (\<lambda>nm.
               bindR (namei (bytes ''/'' @ [0]) (set_proc p (\<lambda>x. x\<lparr>pname := nm\<rparr>) s)) (\<lambda>(ip, s).
               release (LProc p) (set_proc p (\<lambda>x. x\<lparr>cwd := ip, state := RUNNABLE\<rparr>) s)))))"

section \<open>End\<close>

definition chan_of :: "nat option \<Rightarrow> chan" where
  "chan_of p = (case p of None \<Rightarrow> ChNull | Some i \<Rightarrow> ChProc i)"

definition reparent :: "nat \<Rightarrow> 'a ptab_scheme \<Rightarrow> 'a ptab_scheme res" where
  "reparent p =
     foldR (\<lambda>pp s.
       if parent (procs s pp) = Some p
       then wakeup (chan_of (initproc s)) (set_proc pp (\<lambda>x. x\<lparr>parent := initproc s\<rparr>) s)
       else Ok s) slots"

definition close_files :: "nat \<Rightarrow> 'a files_scheme \<Rightarrow> 'a files_scheme res" where
  "close_files p =
     foldR (\<lambda>fd s.
       case ofile (procs s p) fd of
         None \<Rightarrow> Ok s
       | Some f \<Rightarrow> bindR (fileclose f s) (\<lambda>s.
           Ok (set_proc p (\<lambda>x. x\<lparr>ofile := (ofile x)(fd := None)\<rparr>) s))) [0..<NOFILE]"

definition exit_out :: "i32 \<Rightarrow> 'a files_scheme \<Rightarrow> 'a files_scheme res" where
  "exit_out status s =
     bindR (curproc s) (\<lambda>(p, s).
       if initproc s = Some p then Panic ''init exiting''
       else bindR (close_files p s) (\<lambda>s.
            bindR (begin_op s) (\<lambda>s.
            bindR (case cwd (procs s p) of None \<Rightarrow> Undef | Some ip \<Rightarrow> iput ip s) (\<lambda>s.
            bindR (end_op s) (\<lambda>s.
            bindR (acquire LWait (set_proc p (\<lambda>x. x\<lparr>cwd := None\<rparr>) s)) (\<lambda>s.
            bindR (reparent p s) (\<lambda>s.
            bindR (wakeup (chan_of (parent (procs s p))) s) (\<lambda>s.
            bindR (acquire (LProc p) s) (\<lambda>s.
            bindR (release LWait (set_proc p (\<lambda>x. x\<lparr>xstate := status, state := ZOMBIE\<rparr>) s)) (\<lambda>s.
            bindR (sched_out s) (\<lambda>(ie, s). Ok s)))))))))))"

text \<open>The scan of \<open>wait\<close>: a result, or whether there are children.\<close>

fun wait_scan ::
  "nat \<Rightarrow> u64 \<Rightarrow> nat list \<Rightarrow> bool \<Rightarrow> 'a ptab_scheme \<Rightarrow> (bool io \<times> 'a ptab_scheme) res" where
  "wait_scan p addr [] havekids s = Ok (Wait havekids, s)"
| "wait_scan p addr (pp # pps) havekids s =
     (if parent (procs s pp) = Some p
      then bindR (acquire (LProc pp) s) (\<lambda>s.
        if state (procs s pp) = ZOMBIE
        then let n = pid (procs s pp)
             in bindR (if addr \<noteq> 0 then copyout (pagetable (procs s p)) addr
                                          (le32 (xstate (procs s pp))) s
                       else Ok (0, s)) (\<lambda>(r, s).
                  if sint r < 0
                  then bindR (release (LProc pp) s) (\<lambda>s.
                       bindR (release LWait s) (\<lambda>s. Ok (Ret (- 1), s)))
                  else bindR (freeproc pp s) (\<lambda>s.
                       bindR (release (LProc pp) s) (\<lambda>s.
                       bindR (release LWait s) (\<lambda>s. Ok (Ret n, s)))))
        else bindR (release (LProc pp) s) (wait_scan p addr pps True))
      else wait_scan p addr pps havekids s)"

definition wait_locked :: "nat \<Rightarrow> u64 \<Rightarrow> 'a ptab_scheme \<Rightarrow> (unit io \<times> 'a ptab_scheme) res" where
  "wait_locked p addr s =
     bindR (wait_scan p addr slots False s) (\<lambda>(r, s).
       case r of
         Ret n \<Rightarrow> Ok (Ret n, s)
       | Wait havekids \<Rightarrow>
           bindR (if havekids then killed p s else Ok (1, s)) (\<lambda>(k, s).
             if k \<noteq> 0 then bindR (release LWait s) (\<lambda>s. Ok (Ret (- 1), s))
             else Ok (Wait (), s)))"

definition wait :: "u64 \<Rightarrow> 'a ptab_scheme \<Rightarrow> (unit io \<times> 'a ptab_scheme) res" where
  "wait addr s =
     bindR (curproc s) (\<lambda>(p, s). bindR (acquire LWait s) (wait_locked p addr))"

text \<open>\<open>sleep(p, &wait_lock)\<close> at the end of a scan, and the next scan after it.\<close>

definition wait_sleep :: "nat \<Rightarrow> 'a ptab_scheme \<Rightarrow> (bool \<times> 'a ptab_scheme) res" where
  "wait_sleep p s = sleep_out (ChProc p) LWait s"

definition wait_resume :: "nat \<Rightarrow> u64 \<Rightarrow> bool \<Rightarrow> 'a ptab_scheme \<Rightarrow> (unit io \<times> 'a ptab_scheme) res" where
  "wait_resume p addr ie s = bindR (sleep_in p LWait ie s) (wait_locked p addr)"

end
