(* ===== verification/Exec.thy ===== *)
theory Exec
  imports Process
begin

text \<open>
  \<open>kernel/exec.c\<close> with the ELF structures of \<open>kernel/elf.h\<close>.  The headers are read into local
  variables, so they are byte lists here.  The argument vector is the list of its entries before
  the null pointer; each points to a page that holds a string.
\<close>

abbreviation (input) ELF_MAGIC :: u32 where "ELF_MAGIC \<equiv> 0x464C457F"
abbreviation (input) ELF_PROG_LOAD :: u32 where "ELF_PROG_LOAD \<equiv> 1"
abbreviation (input) MAXARG :: nat where "MAXARG \<equiv> 32"

record elfhdr =
  elf_magic :: u32
  elf_entry :: u64
  elf_phoff :: u64
  elf_phnum :: u16

record proghdr =
  ph_type :: u32
  ph_flags :: u32
  ph_off :: u64
  ph_vaddr :: u64
  ph_filesz :: u64
  ph_memsz :: u64

definition get_elfhdr :: "u8 list \<Rightarrow> elfhdr" where
  "get_elfhdr d = \<lparr>elf_magic = get32 d 0, elf_entry = get64 d 24, elf_phoff = get64 d 32, elf_phnum = get16 d 56\<rparr>"

definition get_proghdr :: "u8 list \<Rightarrow> proghdr" where
  "get_proghdr d = \<lparr>ph_type = get32 d 0, ph_flags = get32 d 4, ph_off = get64 d 8, ph_vaddr = get64 d 16,
     ph_filesz = get64 d 32, ph_memsz = get64 d 40\<rparr>"

definition flags2perm :: "u32 \<Rightarrow> u64" where
  "flags2perm flags =
     (let perm = (if flags AND 1 \<noteq> 0 then PTE_X else 0)
      in if flags AND 2 \<noteq> 0 then perm OR PTE_W else perm)"

text \<open>\<open>readi\<close> into a local structure of \<open>n\<close> bytes: \<open>None\<close> when the read is short.\<close>

definition read_struct :: "nat \<Rightarrow> u32 \<Rightarrow> u32 \<Rightarrow> 'a fs_scheme \<Rightarrow> (u8 list option \<times> 'a fs_scheme) res" where
  "read_struct ip off n s =
     bindR (readi ip (KernVar []) off n s) (\<lambda>(r, v, s).
       case v of KernVar d \<Rightarrow> Ok (if r = n then Some d else None, s) | _ \<Rightarrow> Undef)"

text \<open>
  A segment so large that \<open>i\<close> would wrap around makes the loop of \<open>loadseg\<close> start again from
  its beginning, for ever.
\<close>

function loadseg_loop ::
  "u64 \<Rightarrow> u64 \<Rightarrow> nat \<Rightarrow> u32 \<Rightarrow> u32 \<Rightarrow> u32 \<Rightarrow> 'a fs_scheme \<Rightarrow> (i32 \<times> 'a fs_scheme) res" where
  "loadseg_loop pt va ip off n i s =
     (if i < n
      then bindR (walkaddr pt (va + ucast i) s) (\<lambda>(pa, s).
             if pa = 0 then Panic ''loadseg: address should exist''
             else let k = (if n - i < 4096 then n - i else 4096)
                  in bindR (readi ip (KernMem pa) (off + i) k s) (\<lambda>(r, _, s).
                       if r \<noteq> k then Ok (- 1, s)
                       else if i + 4096 < i then Spin
                       else loadseg_loop pt va ip off n (i + 4096) s))
      else Ok (0, s))"
  by pat_completeness auto
termination
proof (relation "measure (\<lambda>(pt, va, ip, off, n, i, s). unat n - unat i)", goal_cases)
  case (2 pt va ip off n i s x pa s1 k y r z v s2)
  then have "i \<le> i + 4096" and "i < n" by simp_all
  then have "unat (i + 4096) = unat i + 4096" by (simp add: unat_plus_simple)
  with \<open>i < n\<close> show ?case by (simp add: word_less_nat_alt)
qed simp

declare loadseg_loop.simps [simp del]

definition loadseg :: "u64 \<Rightarrow> u64 \<Rightarrow> nat \<Rightarrow> u32 \<Rightarrow> u32 \<Rightarrow> 'a fs_scheme \<Rightarrow> (i32 \<times> 'a fs_scheme) res" where
  "loadseg pt va ip off n s = loadseg_loop pt va ip off n 0 s"

text \<open>
  The loop over the program headers; the result says whether it went through, and has the size of
  the address space so far.  The header offset is kept as a 32-bit word.
\<close>

fun load_segments ::
  "u64 \<Rightarrow> nat \<Rightarrow> nat \<Rightarrow> u32 \<Rightarrow> u64 \<Rightarrow> 'a files_scheme \<Rightarrow> (bool \<times> u64 \<times> 'a files_scheme) res" where
  "load_segments pt ip 0 off n s = Ok (True, n, s)"
| "load_segments pt ip (Suc k) off n s =
     bindR (read_struct ip off 56 s) (\<lambda>(d, s).
       case d of
         None \<Rightarrow> Ok (False, n, s)
       | Some d \<Rightarrow>
           let ph = get_proghdr d
           in if ph_type ph \<noteq> ELF_PROG_LOAD then load_segments pt ip k (off + 56) n s
              else if ph_memsz ph < ph_filesz ph \<or> ph_vaddr ph + ph_memsz ph < ph_vaddr ph
                      \<or> ph_vaddr ph mod PGSIZE \<noteq> 0
              then Ok (False, n, s)
              else bindR (uvmalloc pt n (ph_vaddr ph + ph_memsz ph) (flags2perm (ph_flags ph)) s) (\<lambda>(n1, s).
                     if n1 = 0 then Ok (False, n, s)
                     else bindR (loadseg pt (ph_vaddr ph) ip (ucast (ph_off ph)) (ucast (ph_filesz ph)) s) (\<lambda>(r, s).
                            if sint r < 0 then Ok (False, n1, s)
                            else load_segments pt ip k (off + 56) n1 s)))"

text \<open>
  Pushing the argument strings: \<open>None\<close> when one does not fit, otherwise the stack pointer and the
  addresses of the strings.
\<close>

fun push_args ::
  "u64 \<Rightarrow> u64 \<Rightarrow> u64 list \<Rightarrow> u64 list \<Rightarrow> u64 \<Rightarrow> 'a files_scheme \<Rightarrow> ((u64 \<times> u64 list) option \<times> 'a files_scheme) res" where
  "push_args pt stackbase [] ustack sp s = Ok (Some (sp, ustack), s)"
| "push_args pt stackbase (a # argv) ustack sp s =
     (if length ustack \<ge> MAXARG then Ok (None, s)
      else let str = load_bytes (mem s) a 4096
           in bindR (strlen str) (\<lambda>len.
              let sp = sp - of_nat (len + 1);
                  sp = sp - sp mod 16
              in if sp < stackbase then Ok (None, s)
                 else bindR (copyout pt sp (take (len + 1) str) s) (\<lambda>(r, s).
                   if sint r < 0 then Ok (None, s)
                   else push_args pt stackbase argv (ustack @ [sp]) sp s)))"

text \<open>The component of a path after its last slash.\<close>

fun last_elem :: "u8 list \<Rightarrow> u8 list \<Rightarrow> u8 list res" where
  "last_elem best [] = Undef"
| "last_elem best (c # cs) =
     (if c = 0 then Ok best else last_elem (if c = SLASH then cs else best) cs)"

definition exec_bad :: "u64 \<Rightarrow> u64 \<Rightarrow> nat option \<Rightarrow> 'a files_scheme \<Rightarrow> (i32 \<times> 'a files_scheme) res" where
  "exec_bad pt n ip s =
     bindR (if pt \<noteq> 0 then proc_freepagetable pt n s else Ok s) (\<lambda>s.
     bindR (case ip of None \<Rightarrow> Ok s | Some ip \<Rightarrow> bindR (iunlockput ip s) end_op) (\<lambda>s. Ok (- 1, s)))"

text \<open>The second half, once the program is loaded and its inode released.\<close>

definition exec_image ::
  "u8 list \<Rightarrow> u64 list \<Rightarrow> u64 \<Rightarrow> u64 \<Rightarrow> u64 \<Rightarrow> 'a files_scheme \<Rightarrow> (i32 \<times> 'a files_scheme) res" where
  "exec_image path argv entry pt n s =
     bindR (curproc s) (\<lambda>(p, s).
     let oldsz = sz (procs s p);
         n = PGROUNDUP n
     in bindR (uvmalloc pt n (n + 2 * PGSIZE) PTE_W s) (\<lambda>(n1, s).
        if n1 = 0 then exec_bad pt n None s
        else bindR (uvmclear pt (n1 - 2 * PGSIZE) s) (\<lambda>s.
             let stackbase = n1 - PGSIZE
             in bindR (push_args pt stackbase argv [] n1 s) (\<lambda>(r, s).
                case r of
                  None \<Rightarrow> exec_bad pt n1 None s
                | Some (sp, ustack) \<Rightarrow>
                    if length ustack \<ge> MAXARG then Undef
                    else let sp = sp - of_nat ((length ustack + 1) * 8);
                             sp = sp - sp mod 16
                         in if sp < stackbase then exec_bad pt n1 None s
                            else bindR (copyout pt sp (concat (map le64 (ustack @ [0]))) s) (\<lambda>(r, s).
                              if sint r < 0 then exec_bad pt n1 None s
                              else let tf = trapframe (procs s p);
                                       s = s\<lparr>mem := store64 (tf + TF_a1) sp (mem s)\<rparr>
                                   in bindR (last_elem path path) (\<lambda>lst.
                                      bindR (safestrcpy (pname (procs s p)) lst 16) (\<lambda>nm.
                                      let oldpt = pagetable (procs s p);
                                          s = set_proc p (\<lambda>x. x\<lparr>pname := nm, pagetable := pt, sz := n1\<rparr>) s;
                                          s = s\<lparr>mem := store64 (tf + TF_sp) sp (store64 (tf + TF_epc) entry (mem s))\<rparr>
                                      in bindR (proc_freepagetable oldpt oldsz s) (\<lambda>s.
                                         Ok (of_nat (length ustack), s)))))))))"

definition exec :: "u8 list \<Rightarrow> u64 list \<Rightarrow> 'a files_scheme \<Rightarrow> (i32 \<times> 'a files_scheme) res" where
  "exec path argv s =
     bindR (curproc s) (\<lambda>(p, s).
     bindR (begin_op s) (\<lambda>s.
     bindR (namei path s) (\<lambda>(r, s).
       case r of
         None \<Rightarrow> bindR (end_op s) (\<lambda>s. Ok (- 1, s))
       | Some ip \<Rightarrow>
           bindR (ilock (Some ip) s) (\<lambda>s.
           bindR (read_struct ip 0 64 s) (\<lambda>(d, s).
             case d of
               None \<Rightarrow> exec_bad 0 0 (Some ip) s
             | Some d \<Rightarrow>
                 let elf = get_elfhdr d
                 in if elf_magic elf \<noteq> ELF_MAGIC then exec_bad 0 0 (Some ip) s
                    else bindR (proc_pagetable p s) (\<lambda>(pt, s).
                      if pt = 0 then exec_bad 0 0 (Some ip) s
                      else bindR (load_segments pt ip (unat (elf_phnum elf)) (ucast (elf_phoff elf)) 0 s) (\<lambda>(ok, n, s).
                             if \<not> ok then exec_bad pt n (Some ip) s
                             else bindR (iunlockput ip s) (\<lambda>s.
                                  bindR (end_op s) (exec_image path argv (elf_entry elf) pt n)))))))))"

end
