(* ===== verification/Sysfile.thy ===== *)
theory Sysfile
  imports Exec
begin

text \<open>
  The argument fetching of \<open>kernel/syscall.c\<close> and the file system calls of
  \<open>kernel/sysfile.c\<close>.  The arguments of a system call are registers in the trapframe page of the
  calling process.
\<close>

section \<open>Arguments\<close>

abbreviation (input) MAXPATH :: nat where "MAXPATH \<equiv> 128"

definition fetchaddr :: "u64 \<Rightarrow> 'a ptab_scheme \<Rightarrow> (i32 \<times> u64 \<times> 'a ptab_scheme) res" where
  "fetchaddr addr s =
     bindR (curproc s) (\<lambda>(p, s).
       if addr \<ge> sz (procs s p) \<or> addr + 8 > sz (procs s p) then Ok (- 1, 0, s)
       else bindR (copyin (pagetable (procs s p)) addr 8 s) (\<lambda>(r, bs, s).
              if r \<noteq> 0 then Ok (- 1, 0, s) else Ok (0, get64 bs 0, s)))"

text \<open>The result has the return value and the bytes stored in the buffer.\<close>

definition fetchstr :: "u64 \<Rightarrow> nat \<Rightarrow> 'a ptab_scheme \<Rightarrow> (i32 \<times> u8 list \<times> 'a ptab_scheme) res" where
  "fetchstr addr n s =
     bindR (curproc s) (\<lambda>(p, s).
     bindR (copyinstr (pagetable (procs s p)) addr n s) (\<lambda>(r, bs, s).
       if sint r < 0 then Ok (- 1, bs, s)
       else bindR (strlen bs) (\<lambda>len. Ok (of_nat len, bs, s))))"

definition argraw :: "nat \<Rightarrow> 'a ptab_scheme \<Rightarrow> (u64 \<times> 'a ptab_scheme) res" where
  "argraw n s =
     bindR (curproc s) (\<lambda>(p, s).
       if n \<le> 5 then Ok (load64 (mem s) (trapframe (procs s p) + TF_a0 + 8 * of_nat n), s)
       else Panic ''argraw'')"

definition argint :: "nat \<Rightarrow> 'a ptab_scheme \<Rightarrow> (i32 \<times> 'a ptab_scheme) res" where
  "argint n s = bindR (argraw n s) (\<lambda>(v, s). Ok (ucast v, s))"

definition argaddr :: "nat \<Rightarrow> 'a ptab_scheme \<Rightarrow> (u64 \<times> 'a ptab_scheme) res" where
  "argaddr n s = argraw n s"

definition argstr :: "nat \<Rightarrow> nat \<Rightarrow> 'a ptab_scheme \<Rightarrow> (i32 \<times> u8 list \<times> 'a ptab_scheme) res" where
  "argstr n m s = bindR (argaddr n s) (\<lambda>(addr, s). fetchstr addr m s)"

definition argfd :: "nat \<Rightarrow> 'a ptab_scheme \<Rightarrow> ((nat \<times> nat) option \<times> 'a ptab_scheme) res" where
  "argfd n s =
     bindR (argint n s) (\<lambda>(fd, s).
       if sint fd < 0 \<or> sint fd \<ge> int NOFILE then Ok (None, s)
       else bindR (curproc s) (\<lambda>(p, s).
              case ofile (procs s p) (nat (sint fd)) of
                None \<Rightarrow> Ok (None, s)
              | Some f \<Rightarrow> Ok (Some (nat (sint fd), f), s)))"

fun free_fd :: "nat list \<Rightarrow> (nat \<Rightarrow> nat option) \<Rightarrow> nat option" where
  "free_fd [] of1 = None"
| "free_fd (fd # fds) of1 = (if of1 fd = None then Some fd else free_fd fds of1)"

definition fdalloc :: "nat \<Rightarrow> 'a ptab_scheme \<Rightarrow> (nat option \<times> 'a ptab_scheme) res" where
  "fdalloc f s =
     bindR (curproc s) (\<lambda>(p, s).
       case free_fd [0..<NOFILE] (ofile (procs s p)) of
         None \<Rightarrow> Ok (None, s)
       | Some fd \<Rightarrow> Ok (Some fd, set_proc p (\<lambda>x. x\<lparr>ofile := (ofile x)(fd := Some f)\<rparr>) s))"

section \<open>Descriptors\<close>

definition sys_dup :: "'a files_scheme \<Rightarrow> (i32 \<times> 'a files_scheme) res" where
  "sys_dup s =
     bindR (argfd 0 s) (\<lambda>(r, s).
       case r of
         None \<Rightarrow> Ok (- 1, s)
       | Some (_, f) \<Rightarrow>
           bindR (fdalloc f s) (\<lambda>(fd, s).
             case fd of
               None \<Rightarrow> Ok (- 1, s)
             | Some fd \<Rightarrow> bindR (filedup f s) (\<lambda>(_, s). Ok (of_nat fd, s))))"

definition sys_read :: "'a files_scheme \<Rightarrow> (i32 \<times> 'a files_scheme) res" where
  "sys_read s =
     bindR (argaddr 1 s) (\<lambda>(p, s).
     bindR (argint 2 s) (\<lambda>(n, s).
     bindR (argfd 0 s) (\<lambda>(r, s).
       case r of None \<Rightarrow> Ok (- 1, s) | Some (_, f) \<Rightarrow> fileread f p n s)))"

definition sys_write :: "'a files_scheme \<Rightarrow> (i32 \<times> 'a files_scheme) res" where
  "sys_write s =
     bindR (argaddr 1 s) (\<lambda>(p, s).
     bindR (argint 2 s) (\<lambda>(n, s).
     bindR (argfd 0 s) (\<lambda>(r, s).
       case r of None \<Rightarrow> Ok (- 1, s) | Some (_, f) \<Rightarrow> filewrite f p n s)))"

definition clear_fd :: "nat \<Rightarrow> nat \<Rightarrow> 'a ptab_scheme \<Rightarrow> 'a ptab_scheme" where
  "clear_fd p fd = set_proc p (\<lambda>x. x\<lparr>ofile := (ofile x)(fd := None)\<rparr>)"

definition sys_close :: "'a files_scheme \<Rightarrow> (i32 \<times> 'a files_scheme) res" where
  "sys_close s =
     bindR (argfd 0 s) (\<lambda>(r, s).
       case r of
         None \<Rightarrow> Ok (- 1, s)
       | Some (fd, f) \<Rightarrow>
           bindR (curproc s) (\<lambda>(p, s).
           bindR (fileclose f (clear_fd p fd s)) (\<lambda>s. Ok (0, s))))"

definition sys_fstat :: "'a files_scheme \<Rightarrow> (i32 \<times> 'a files_scheme) res" where
  "sys_fstat s =
     bindR (argaddr 1 s) (\<lambda>(st, s).
     bindR (argfd 0 s) (\<lambda>(r, s).
       case r of None \<Rightarrow> Ok (- 1, s) | Some (_, f) \<Rightarrow> filestat f st s))"

section \<open>Names\<close>

text \<open>\<open>ip->nlink += d\<close> and \<open>iupdate\<close>.\<close>

definition add_link :: "u16 \<Rightarrow> nat \<Rightarrow> 'a fs_scheme \<Rightarrow> 'a fs_scheme res" where
  "add_link d ip s = iupdate ip (set_icopy ip (\<lambda>x. x\<lparr>nlink := nlink x + d\<rparr>) s)"

definition sys_link_bad :: "nat \<Rightarrow> 'a files_scheme \<Rightarrow> (i32 \<times> 'a files_scheme) res" where
  "sys_link_bad ip s =
     bindR (ilock (Some ip) s) (\<lambda>s.
     bindR (add_link (- 1) ip s) (\<lambda>s.
     bindR (iunlockput ip s) (\<lambda>s.
     bindR (end_op s) (\<lambda>s. Ok (- 1, s)))))"

definition sys_link :: "'a files_scheme \<Rightarrow> (i32 \<times> 'a files_scheme) res" where
  "sys_link s =
     bindR (argstr 0 MAXPATH s) (\<lambda>(r, old, s).
       if sint r < 0 then Ok (- 1, s)
       else bindR (argstr 1 MAXPATH s) (\<lambda>(r, new, s).
         if sint r < 0 then Ok (- 1, s)
         else bindR (begin_op s) (\<lambda>s.
              bindR (namei old s) (\<lambda>(r, s).
                case r of
                  None \<Rightarrow> bindR (end_op s) (\<lambda>s. Ok (- 1, s))
                | Some ip \<Rightarrow>
                    bindR (ilock (Some ip) s) (\<lambda>s.
                      if itype (icopy (itable s ip)) = T_DIR
                      then bindR (iunlockput ip s) (\<lambda>s. bindR (end_op s) (\<lambda>s. Ok (- 1, s)))
                      else bindR (add_link 1 ip s) (\<lambda>s.
                           bindR (iunlock (Some ip) s) (\<lambda>s.
                           bindR (nameiparent new (replicate DIRSIZ 0) s) (\<lambda>(r, name, s).
                             case r of
                               None \<Rightarrow> sys_link_bad ip s
                             | Some dp \<Rightarrow>
                                 bindR (ilock (Some dp) s) (\<lambda>s.
                                 bindR (if idev (itable s dp) \<noteq> idev (itable s ip) then Ok (- 1, s)
                                        else dirlink dp name (inum (itable s ip)) s) (\<lambda>(r, s).
                                   if sint r < 0
                                   then bindR (iunlockput dp s) (sys_link_bad ip)
                                   else bindR (iunlockput dp s) (\<lambda>s.
                                        bindR (iput ip s) (\<lambda>s.
                                        bindR (end_op s) (\<lambda>s. Ok (0, s))))))))))))))"

fun isdirempty_loop :: "nat \<Rightarrow> u32 list \<Rightarrow> 'a fs_scheme \<Rightarrow> (bool \<times> 'a fs_scheme) res" where
  "isdirempty_loop dp [] s = Ok (True, s)"
| "isdirempty_loop dp (off # offs) s =
     bindR (read_dirent dp off s) (\<lambda>(r, s).
       case r of
         None \<Rightarrow> Panic ''isdirempty: readi''
       | Some de \<Rightarrow> if de_inum de \<noteq> 0 then Ok (False, s) else isdirempty_loop dp offs s)"

definition isdirempty :: "nat \<Rightarrow> 'a fs_scheme \<Rightarrow> (bool \<times> 'a fs_scheme) res" where
  "isdirempty dp s = isdirempty_loop dp (drop 2 (dir_offs dp s)) s"

definition sys_unlink_bad :: "nat \<Rightarrow> 'a files_scheme \<Rightarrow> (i32 \<times> 'a files_scheme) res" where
  "sys_unlink_bad dp s = bindR (iunlockput dp s) (\<lambda>s. bindR (end_op s) (\<lambda>s. Ok (- 1, s)))"

definition sys_unlink :: "'a files_scheme \<Rightarrow> (i32 \<times> 'a files_scheme) res" where
  "sys_unlink s =
     bindR (argstr 0 MAXPATH s) (\<lambda>(r, path, s).
       if sint r < 0 then Ok (- 1, s)
       else bindR (begin_op s) (\<lambda>s.
            bindR (nameiparent path (replicate DIRSIZ 0) s) (\<lambda>(r, name, s).
              case r of
                None \<Rightarrow> bindR (end_op s) (\<lambda>s. Ok (- 1, s))
              | Some dp \<Rightarrow>
                  bindR (ilock (Some dp) s) (\<lambda>s.
                  bindR (namecmp name (bytes ''.'' @ [0])) (\<lambda>c1.
                  bindR (if c1 = 0 then Ok 0 else namecmp name (bytes ''..'' @ [0])) (\<lambda>c2.
                    if c2 = 0 then sys_unlink_bad dp s
                    else bindR (dirlookup dp name s) (\<lambda>(r, s).
                      case r of
                        None \<Rightarrow> sys_unlink_bad dp s
                      | Some (ip, off) \<Rightarrow>
                          bindR (ilock (Some ip) s) (\<lambda>s.
                            if sint (nlink (icopy (itable s ip))) < 1 then Panic ''unlink: nlink < 1''
                            else bindR (if itype (icopy (itable s ip)) = T_DIR then isdirempty ip s else Ok (True, s)) (\<lambda>(e, s).
                              if \<not> e then bindR (iunlockput ip s) (sys_unlink_bad dp)
                              else bindR (writei dp (KernVar (replicate 16 0)) off 16 s) (\<lambda>(r, s).
                                if r \<noteq> 16 then Panic ''unlink: writei''
                                else bindR (if itype (icopy (itable s ip)) = T_DIR then add_link (- 1) dp s else Ok s) (\<lambda>s.
                                     bindR (iunlockput dp s) (\<lambda>s.
                                     bindR (add_link (- 1) ip s) (\<lambda>s.
                                     bindR (iunlockput ip s) (\<lambda>s.
                                     bindR (end_op s) (\<lambda>s. Ok (0, s))))))))))))))))"

definition create_fail :: "nat \<Rightarrow> nat \<Rightarrow> 'a files_scheme \<Rightarrow> (nat option \<times> 'a files_scheme) res" where
  "create_fail ip dp s =
     bindR (iupdate ip (set_icopy ip (\<lambda>x. x\<lparr>nlink := 0\<rparr>) s)) (\<lambda>s.
     bindR (iunlockput ip s) (\<lambda>s.
     bindR (iunlockput dp s) (\<lambda>s. Ok (None, s))))"

definition create :: "u8 list \<Rightarrow> u16 \<Rightarrow> u16 \<Rightarrow> u16 \<Rightarrow> 'a files_scheme \<Rightarrow> (nat option \<times> 'a files_scheme) res" where
  "create path ty mj mn s =
     bindR (nameiparent path (replicate DIRSIZ 0) s) (\<lambda>(r, name, s).
       case r of
         None \<Rightarrow> Ok (None, s)
       | Some dp \<Rightarrow>
           bindR (ilock (Some dp) s) (\<lambda>s.
           bindR (dirlookup dp name s) (\<lambda>(r, s).
             case r of
               Some (ip, _) \<Rightarrow>
                 bindR (iunlockput dp s) (\<lambda>s.
                 bindR (ilock (Some ip) s) (\<lambda>s.
                   if ty = T_FILE \<and> (itype (icopy (itable s ip)) = T_FILE \<or> itype (icopy (itable s ip)) = T_DEVICE)
                   then Ok (Some ip, s)
                   else bindR (iunlockput ip s) (\<lambda>s. Ok (None, s))))
             | None \<Rightarrow>
                 bindR (ialloc (idev (itable s dp)) ty s) (\<lambda>(r, s).
                   case r of
                     None \<Rightarrow> bindR (iunlockput dp s) (\<lambda>s. Ok (None, s))
                   | Some ip \<Rightarrow>
                       bindR (ilock (Some ip) s) (\<lambda>s.
                       bindR (iupdate ip (set_icopy ip (\<lambda>x. x\<lparr>imajor := mj, iminor := mn, nlink := 1\<rparr>) s)) (\<lambda>s.
                       bindR (if ty = T_DIR
                              then bindR (dirlink ip (bytes ''.'' @ [0]) (inum (itable s ip)) s) (\<lambda>(r, s).
                                   if sint r < 0 then Ok (r, s)
                                   else dirlink ip (bytes ''..'' @ [0]) (inum (itable s dp)) s)
                              else Ok (0, s)) (\<lambda>(r, s).
                         if sint r < 0 then create_fail ip dp s
                         else bindR (dirlink dp name (inum (itable s ip)) s) (\<lambda>(r, s).
                           if sint r < 0 then create_fail ip dp s
                           else bindR (if ty = T_DIR then add_link 1 dp s else Ok s) (\<lambda>s.
                                bindR (iunlockput dp s) (\<lambda>s. Ok (Some ip, s)))))))))))"

section \<open>Opening\<close>

abbreviation (input) O_RDONLY :: i32 where "O_RDONLY \<equiv> 0"
abbreviation (input) O_WRONLY :: i32 where "O_WRONLY \<equiv> 1"
abbreviation (input) O_RDWR :: i32 where "O_RDWR \<equiv> 2"
abbreviation (input) O_CREATE :: i32 where "O_CREATE \<equiv> 0x200"
abbreviation (input) O_TRUNC :: i32 where "O_TRUNC \<equiv> 0x400"

text \<open>The inode that \<open>sys_open\<close> works on, locked; \<open>None\<close> when the call fails.\<close>

definition open_inode :: "u8 list \<Rightarrow> i32 \<Rightarrow> 'a files_scheme \<Rightarrow> (nat option \<times> 'a files_scheme) res" where
  "open_inode path omode s =
     (if omode AND O_CREATE \<noteq> 0
      then bindR (create path T_FILE 0 0 s) (\<lambda>(r, s).
             case r of None \<Rightarrow> bindR (end_op s) (\<lambda>s. Ok (None, s)) | Some ip \<Rightarrow> Ok (Some ip, s))
      else bindR (namei path s) (\<lambda>(r, s).
             case r of
               None \<Rightarrow> bindR (end_op s) (\<lambda>s. Ok (None, s))
             | Some ip \<Rightarrow>
                 bindR (ilock (Some ip) s) (\<lambda>s.
                   if itype (icopy (itable s ip)) = T_DIR \<and> omode \<noteq> O_RDONLY
                   then bindR (iunlockput ip s) (\<lambda>s. bindR (end_op s) (\<lambda>s. Ok (None, s)))
                   else Ok (Some ip, s))))"

definition sys_open :: "'a files_scheme \<Rightarrow> (i32 \<times> 'a files_scheme) res" where
  "sys_open s =
     bindR (argint 1 s) (\<lambda>(omode, s).
     bindR (argstr 0 MAXPATH s) (\<lambda>(n, path, s).
       if sint n < 0 then Ok (- 1, s)
       else bindR (begin_op s) (\<lambda>s.
            bindR (open_inode path omode s) (\<lambda>(r, s).
              case r of
                None \<Rightarrow> Ok (- 1, s)
              | Some ip \<Rightarrow>
                  let c = icopy (itable s ip)
                  in if itype c = T_DEVICE \<and> (sint (imajor c) < 0 \<or> sint (imajor c) \<ge> NDEV)
                     then bindR (iunlockput ip s) (\<lambda>s. bindR (end_op s) (\<lambda>s. Ok (- 1, s)))
                     else bindR (filealloc s) (\<lambda>(f, s).
                       case f of
                         None \<Rightarrow> bindR (iunlockput ip s) (\<lambda>s. bindR (end_op s) (\<lambda>s. Ok (- 1, s)))
                       | Some f \<Rightarrow>
                           bindR (fdalloc f s) (\<lambda>(fd, s).
                             case fd of
                               None \<Rightarrow>
                                 bindR (fileclose f s) (\<lambda>s.
                                 bindR (iunlockput ip s) (\<lambda>s.
                                 bindR (end_op s) (\<lambda>s. Ok (- 1, s))))
                             | Some fd \<Rightarrow>
                                 let s = (if itype c = T_DEVICE
                                          then set_file f (\<lambda>x. x\<lparr>ftype := FD_DEVICE, fmajor := imajor c\<rparr>) s
                                          else set_file f (\<lambda>x. x\<lparr>ftype := FD_INODE, foff := 0\<rparr>) s);
                                     s = set_file f (\<lambda>x. x\<lparr>fip := Some ip, readable := (omode AND O_WRONLY = 0),
                                           writable := (omode AND O_WRONLY \<noteq> 0 \<or> omode AND O_RDWR \<noteq> 0)\<rparr>) s
                                 in bindR (if omode AND O_TRUNC \<noteq> 0 \<and> itype c = T_FILE then itrunc ip s else Ok s) (\<lambda>s.
                                    bindR (iunlock (Some ip) s) (\<lambda>s.
                                    bindR (end_op s) (\<lambda>s. Ok (of_nat fd, s))))))))))"

definition sys_mkdir :: "'a files_scheme \<Rightarrow> (i32 \<times> 'a files_scheme) res" where
  "sys_mkdir s =
     bindR (begin_op s) (\<lambda>s.
     bindR (argstr 0 MAXPATH s) (\<lambda>(r, path, s).
     bindR (if sint r < 0 then Ok (None, s) else create path T_DIR 0 0 s) (\<lambda>(ip, s).
       case ip of
         None \<Rightarrow> bindR (end_op s) (\<lambda>s. Ok (- 1, s))
       | Some ip \<Rightarrow> bindR (iunlockput ip s) (\<lambda>s. bindR (end_op s) (\<lambda>s. Ok (0, s))))))"

definition sys_mknod :: "'a files_scheme \<Rightarrow> (i32 \<times> 'a files_scheme) res" where
  "sys_mknod s =
     bindR (begin_op s) (\<lambda>s.
     bindR (argint 1 s) (\<lambda>(mj, s).
     bindR (argint 2 s) (\<lambda>(mn, s).
     bindR (argstr 0 MAXPATH s) (\<lambda>(r, path, s).
     bindR (if sint r < 0 then Ok (None, s) else create path T_DEVICE (ucast mj) (ucast mn) s) (\<lambda>(ip, s).
       case ip of
         None \<Rightarrow> bindR (end_op s) (\<lambda>s. Ok (- 1, s))
       | Some ip \<Rightarrow> bindR (iunlockput ip s) (\<lambda>s. bindR (end_op s) (\<lambda>s. Ok (0, s))))))))"

definition sys_chdir :: "'a files_scheme \<Rightarrow> (i32 \<times> 'a files_scheme) res" where
  "sys_chdir s =
     bindR (curproc s) (\<lambda>(p, s).
     bindR (begin_op s) (\<lambda>s.
     bindR (argstr 0 MAXPATH s) (\<lambda>(r, path, s).
     bindR (if sint r < 0 then Ok (None, s) else namei path s) (\<lambda>(ip, s).
       case ip of
         None \<Rightarrow> bindR (end_op s) (\<lambda>s. Ok (- 1, s))
       | Some ip \<Rightarrow>
           bindR (ilock (Some ip) s) (\<lambda>s.
             if itype (icopy (itable s ip)) \<noteq> T_DIR
             then bindR (iunlockput ip s) (\<lambda>s. bindR (end_op s) (\<lambda>s. Ok (- 1, s)))
             else bindR (iunlock (Some ip) s) (\<lambda>s.
                  bindR (case cwd (procs s p) of None \<Rightarrow> Undef | Some d \<Rightarrow> iput d s) (\<lambda>s.
                  bindR (end_op s) (\<lambda>s.
                  Ok (0, set_proc p (\<lambda>x. x\<lparr>cwd := Some ip\<rparr>) s)))))))))"

section \<open>\<open>exec\<close> and \<open>pipe\<close>\<close>

text \<open>
  The loop of \<open>sys_exec\<close> that copies the argument strings to fresh pages; \<open>k\<close> counts the entries
  of \<open>argv\<close> that are left.  The result says whether it went through, with the pages in order.
\<close>

fun fetch_args ::
  "u64 \<Rightarrow> nat \<Rightarrow> u64 list \<Rightarrow> 'a files_scheme \<Rightarrow> (bool \<times> u64 list \<times> 'a files_scheme) res" where
  "fetch_args uargv 0 argv s = Ok (False, argv, s)"
| "fetch_args uargv (Suc k) argv s =
     bindR (fetchaddr (uargv + 8 * of_nat (length argv)) s) (\<lambda>(r, uarg, s).
       if sint r < 0 then Ok (False, argv, s)
       else if uarg = 0 then Ok (True, argv, s)
       else bindR (kalloc s) (\<lambda>(pg, s).
         if pg = 0 then Ok (False, argv, s)
         else bindR (fetchstr uarg 4096 s) (\<lambda>(r, bs, s).
              let s = s\<lparr>mem := store_bytes pg bs (mem s)\<rparr>
              in if sint r < 0 then Ok (False, argv @ [pg], s)
                 else fetch_args uargv k (argv @ [pg]) s)))"

definition sys_exec :: "'a files_scheme \<Rightarrow> (i32 \<times> 'a files_scheme) res" where
  "sys_exec s =
     bindR (argaddr 1 s) (\<lambda>(uargv, s).
     bindR (argstr 0 MAXPATH s) (\<lambda>(r, path, s).
       if sint r < 0 then Ok (- 1, s)
       else bindR (fetch_args uargv MAXARG [] s) (\<lambda>(ok, argv, s).
            bindR (if ok then exec path argv s else Ok (- 1, s)) (\<lambda>(ret, s).
            bindR (foldR kfree argv s) (\<lambda>s. Ok (ret, s))))))"

definition sys_pipe_bad :: "nat \<Rightarrow> nat \<Rightarrow> 'a files_scheme \<Rightarrow> (i32 \<times> 'a files_scheme) res" where
  "sys_pipe_bad rfile wfile s =
     bindR (fileclose rfile s) (\<lambda>s. bindR (fileclose wfile s) (\<lambda>s. Ok (- 1, s)))"

definition sys_pipe :: "'a files_scheme \<Rightarrow> (i32 \<times> 'a files_scheme) res" where
  "sys_pipe s =
     bindR (curproc s) (\<lambda>(p, s).
     bindR (argaddr 0 s) (\<lambda>(fdarray, s).
     bindR (pipealloc s) (\<lambda>(r, s).
       case r of
         None \<Rightarrow> Ok (- 1, s)
       | Some (rfile, wfile) \<Rightarrow>
           bindR (fdalloc rfile s) (\<lambda>(fd0, s).
             case fd0 of
               None \<Rightarrow> sys_pipe_bad rfile wfile s
             | Some fd0 \<Rightarrow>
                 bindR (fdalloc wfile s) (\<lambda>(fd1, s).
                   case fd1 of
                     None \<Rightarrow> sys_pipe_bad rfile wfile (clear_fd p fd0 s)
                   | Some fd1 \<Rightarrow>
                       bindR (copyout (pagetable (procs s p)) fdarray (le32 (of_nat fd0)) s) (\<lambda>(r, s).
                       bindR (if sint r < 0 then Ok (r, s)
                              else copyout (pagetable (procs s p)) (fdarray + 4) (le32 (of_nat fd1)) s) (\<lambda>(r, s).
                         if sint r < 0 then sys_pipe_bad rfile wfile (clear_fd p fd1 (clear_fd p fd0 s))
                         else Ok (0, s))))))))"

end
