(* ===== verification/Syscall.thy ===== *)
theory Syscall
  imports Sysfile
begin

text \<open>
  \<open>kernel/sysproc.c\<close> and the dispatch of \<open>kernel/syscall.c\<close>.  A system call returns a value or
  ends the process; one that has to wait for another process gives \<open>Spin\<close>.
\<close>

record clock = files +
  ticks :: u32

datatype outcome = Returns u64 | Exits

definition returns :: "(i32 \<times> 's) res \<Rightarrow> (outcome \<times> 's) res" where
  "returns r = bindR r (\<lambda>(v, s). Ok (Returns (scast v), s))"

definition sys_exit :: "'a clock_scheme \<Rightarrow> (outcome \<times> 'a clock_scheme) res" where
  "sys_exit s = bindR (argint 0 s) (\<lambda>(n, s). bindR (exit_out n s) (\<lambda>s. Ok (Exits, s)))"

definition sys_getpid :: "'a clock_scheme \<Rightarrow> (i32 \<times> 'a clock_scheme) res" where
  "sys_getpid s = bindR (curproc s) (\<lambda>(p, s). Ok (pid (procs s p), s))"

definition sys_forkprio :: "'a clock_scheme \<Rightarrow> (i32 \<times> 'a clock_scheme) res" where
  "sys_forkprio s = bindR (argint 0 s) (\<lambda>(prio, s). forkprio prio s)"

definition sys_fork :: "'a clock_scheme \<Rightarrow> (i32 \<times> 'a clock_scheme) res" where
  "sys_fork s = bindR (argint 0 s) (\<lambda>(class, s). fork class s)"

definition sys_wait :: "'a clock_scheme \<Rightarrow> (i32 \<times> 'a clock_scheme) res" where
  "sys_wait s = bindR (argaddr 0 s) (\<lambda>(p, s). must_return (wait p s))"

definition sys_sbrk :: "'a clock_scheme \<Rightarrow> (outcome \<times> 'a clock_scheme) res" where
  "sys_sbrk s =
     bindR (argint 0 s) (\<lambda>(n, s).
     bindR (curproc s) (\<lambda>(p, s).
     let addr = sz (procs s p)
     in bindR (growproc n s) (\<lambda>(r, s).
          if sint r < 0 then Ok (Returns (- 1), s) else Ok (Returns addr, s))))"

text \<open>
  \<open>sys_sleep\<close> with the lock held, on its way in and after each wake-up; \<open>Wait\<close> has the tick at
  which it began.
\<close>

definition sleep_check :: "u32 \<Rightarrow> u32 \<Rightarrow> 'a clock_scheme \<Rightarrow> (u32 io \<times> 'a clock_scheme) res" where
  "sleep_check n ticks0 s =
     (if ticks s - ticks0 < n
      then bindR (curproc s) (\<lambda>(p, s).
           bindR (killed p s) (\<lambda>(k, s).
             if k \<noteq> 0 then bindR (release LTicks s) (\<lambda>s. Ok (Ret (- 1), s))
             else Ok (Wait ticks0, s)))
      else bindR (release LTicks s) (\<lambda>s. Ok (Ret 0, s)))"

definition sys_sleep :: "'a clock_scheme \<Rightarrow> (u32 io \<times> 'a clock_scheme) res" where
  "sys_sleep s =
     bindR (argint 0 s) (\<lambda>(n, s).
     let n = (if sint n < 0 then 0 else n)
     in bindR (acquire LTicks s) (\<lambda>s. sleep_check n (ticks s) s))"

definition sys_sleep_resume :: "nat \<Rightarrow> u32 \<Rightarrow> u32 \<Rightarrow> bool \<Rightarrow> 'a clock_scheme \<Rightarrow> (u32 io \<times> 'a clock_scheme) res" where
  "sys_sleep_resume p n ticks0 ie s = bindR (sleep_in p LTicks ie s) (sleep_check n ticks0)"

definition sys_kill :: "'a clock_scheme \<Rightarrow> (i32 \<times> 'a clock_scheme) res" where
  "sys_kill s = bindR (argint 0 s) (\<lambda>(n, s). kill n s)"

definition sys_uptime :: "'a clock_scheme \<Rightarrow> (outcome \<times> 'a clock_scheme) res" where
  "sys_uptime s =
     bindR (acquire LTicks s) (\<lambda>s.
     let xticks = ticks s
     in bindR (release LTicks s) (\<lambda>s. Ok (Returns (ucast xticks), s)))"

text \<open>The table \<open>syscalls\<close>.\<close>

definition syscalls :: "nat \<Rightarrow> ('a clock_scheme \<Rightarrow> (outcome \<times> 'a clock_scheme) res) option" where
  "syscalls num =
     (if num = 1 then Some (\<lambda>s. returns (sys_fork s))
      else if num = 2 then Some sys_exit
      else if num = 3 then Some (\<lambda>s. returns (sys_wait s))
      else if num = 4 then Some (\<lambda>s. returns (sys_pipe s))
      else if num = 5 then Some (\<lambda>s. returns (sys_read s))
      else if num = 6 then Some (\<lambda>s. returns (sys_kill s))
      else if num = 7 then Some (\<lambda>s. returns (sys_exec s))
      else if num = 8 then Some (\<lambda>s. returns (sys_fstat s))
      else if num = 9 then Some (\<lambda>s. returns (sys_chdir s))
      else if num = 10 then Some (\<lambda>s. returns (sys_dup s))
      else if num = 11 then Some (\<lambda>s. returns (sys_getpid s))
      else if num = 12 then Some sys_sbrk
      else if num = 13 then Some (\<lambda>s. returns (must_return (sys_sleep s)))
      else if num = 14 then Some sys_uptime
      else if num = 15 then Some (\<lambda>s. returns (sys_open s))
      else if num = 16 then Some (\<lambda>s. returns (sys_write s))
      else if num = 17 then Some (\<lambda>s. returns (sys_mknod s))
      else if num = 18 then Some (\<lambda>s. returns (sys_unlink s))
      else if num = 19 then Some (\<lambda>s. returns (sys_link s))
      else if num = 20 then Some (\<lambda>s. returns (sys_mkdir s))
      else if num = 21 then Some (\<lambda>s. returns (sys_close s))
      else if num = 22 then Some (\<lambda>s. returns (sys_forkprio s))
      else None)"

definition set_a0 :: "nat \<Rightarrow> u64 \<Rightarrow> 'a ptab_scheme \<Rightarrow> 'a ptab_scheme" where
  "set_a0 p v s = s\<lparr>mem := store64 (trapframe (procs s p) + TF_a0) v (mem s)\<rparr>"

text \<open>The result says whether the process is still there.\<close>

definition syscall :: "'a clock_scheme \<Rightarrow> (bool \<times> 'a clock_scheme) res" where
  "syscall s =
     bindR (curproc s) (\<lambda>(p, s).
     let num = sint (ucast (load64 (mem s) (trapframe (procs s p) + TF_a7)) :: i32)
     in case (if num > 0 \<and> num < 23 then syscalls (nat num) else None) of
          Some f \<Rightarrow>
            bindR (f s) (\<lambda>(r, s).
              case r of Returns v \<Rightarrow> Ok (True, set_a0 p v s) | Exits \<Rightarrow> Ok (False, s))
        | None \<Rightarrow>
            bindR (printf (''%d %s: unknown sys call %d'' @ newline)
                     [VInt (pid (procs s p)), VStr (Some (cstr (pname (procs s p)))), VInt (word_of_int num)] s)
              (\<lambda>s. Ok (True, set_a0 p (- 1) s)))"

end
