(* ===== verification/Trap.thy ===== *)
theory Trap
  imports Syscall
begin

text \<open>
  \<open>kernel/trap.c\<close>, \<open>kernel/plic.c\<close> and \<open>forkret\<close> of \<open>kernel/proc.c\<close>.  The supervisor
  registers are fields of the state, one value per hart; the hardware has set \<open>scause\<close>, \<open>sepc\<close>,
  \<open>stval\<close> and the SPP bit when a handler starts.  The interrupt-enable bit of \<open>sstatus\<close> is the
  field \<open>sie\<close>.  \<open>plic_pending\<close> is what the interrupt controller answers to a claim, \<open>rtime\<close> the
  clock.  A handler that gives up the processor ends there, and a second definition continues it.
\<close>

abbreviation (input) UART0_IRQ :: u32 where "UART0_IRQ \<equiv> 10"
abbreviation (input) VIRTIO0_IRQ :: u32 where "VIRTIO0_IRQ \<equiv> 1"
abbreviation (input) SSTATUS_SPP :: u64 where "SSTATUS_SPP \<equiv> 256"
abbreviation (input) SSTATUS_SPIE :: u64 where "SSTATUS_SPIE \<equiv> 32"

record traps = clock +
  stvec :: "nat \<Rightarrow> u64"
  sepc :: "nat \<Rightarrow> u64"
  sstatus :: "nat \<Rightarrow> u64"
  scause :: "nat \<Rightarrow> u64"
  stval :: "nat \<Rightarrow> u64"
  stimecmp :: "nat \<Rightarrow> u64"
  rtime :: u64
  plic_pending :: "nat \<Rightarrow> u32"
  first :: bool

section \<open>Interrupt controller\<close>

definition plicinit :: "'a vdisk_scheme \<Rightarrow> 'a vdisk_scheme" where
  "plicinit s = wreg ''PLIC+VIRTIO0_IRQ*4'' 1 (wreg ''PLIC+UART0_IRQ*4'' 1 s)"

definition plicinithart :: "'a vdisk_scheme \<Rightarrow> 'a vdisk_scheme" where
  "plicinithart s =
     wreg ''PLIC_SPRIORITY'' 0 (wreg ''PLIC_SENABLE'' (push_bit 10 1 OR push_bit 1 1) s)"

definition plic_claim :: "'a traps_scheme \<Rightarrow> u32" where
  "plic_claim s = plic_pending s (cpuid s)"

definition plic_complete :: "u32 \<Rightarrow> 'a traps_scheme \<Rightarrow> 'a traps_scheme" where
  "plic_complete irq s = wreg ''PLIC_SCLAIM'' irq s"

section \<open>Handlers\<close>

definition trapinit :: "'a mach_scheme \<Rightarrow> 'a mach_scheme" where
  "trapinit s = initlock LTicks ''time'' s"

definition w_stvec :: "u64 \<Rightarrow> 'a traps_scheme \<Rightarrow> 'a traps_scheme" where
  "w_stvec v s = s\<lparr>stvec := (stvec s)(cpuid s := v)\<rparr>"

definition trapinithart :: "'a traps_scheme \<Rightarrow> 'a traps_scheme" where
  "trapinithart s = w_stvec (kernelvec (img s)) s"

definition clockintr :: "'a traps_scheme \<Rightarrow> 'a traps_scheme res" where
  "clockintr s =
     bindR (if cpuid s = 0
            then bindR (acquire LTicks s) (\<lambda>s.
                 bindR (wakeup ChTicks (s\<lparr>ticks := ticks s + 1\<rparr>)) (release LTicks))
            else Ok s) (\<lambda>s.
     Ok (s\<lparr>stimecmp := (stimecmp s)(cpuid s := rtime s + 1000000)\<rparr>))"

definition devintr :: "'a traps_scheme \<Rightarrow> (nat \<times> 'a traps_scheme) res" where
  "devintr s =
     (let cause = scause s (cpuid s)
      in if cause = 0x8000000000000009
         then let irq = plic_claim s
              in bindR (if irq = UART0_IRQ then uartintr s
                        else if irq = VIRTIO0_IRQ then virtio_disk_intr s
                        else if irq \<noteq> 0
                        then printf (''unexpected interrupt irq=%d'' @ newline) [VInt irq] s
                        else Ok s) (\<lambda>s.
                 Ok (1, if irq \<noteq> 0 then plic_complete irq s else s))
         else if cause = 0x8000000000000005
         then bindR (clockintr s) (\<lambda>s. Ok (2, s))
         else Ok (0, s))"

datatype trap_end = ToUser u64 | Died | Yields bool

text \<open>The result is the page table register value handed to \<open>userret\<close>.\<close>

definition usertrapret :: "'a traps_scheme \<Rightarrow> (trap_end \<times> 'a traps_scheme) res" where
  "usertrapret s =
     bindR (curproc s) (\<lambda>(p, s).
     let s = intr_off s;
         h = cpuid s;
         s = w_stvec (TRAMPOLINE + (uservec (img s) - trampoline (img s))) s;
         tf = trapframe (procs s p);
         s = s\<lparr>mem := store64 (tf + TF_kernel_satp) (satp s h) (mem s)\<rparr>;
         s = s\<lparr>mem := store64 (tf + TF_kernel_sp) (kstack (procs s p) + PGSIZE) (mem s)\<rparr>;
         s = s\<lparr>mem := store64 (tf + TF_kernel_trap) (usertrap_addr (img s)) (mem s)\<rparr>;
         s = s\<lparr>mem := store64 (tf + TF_kernel_hartid) (of_nat h) (mem s)\<rparr>;
         x = sstatus s h;
         x = x AND NOT SSTATUS_SPP;
         x = x OR SSTATUS_SPIE;
         s = s\<lparr>sstatus := (sstatus s)(h := x)\<rparr>;
         s = s\<lparr>sepc := (sepc s)(h := load64 (mem s) (tf + TF_epc))\<rparr>
     in Ok (ToUser (MAKE_SATP (pagetable (procs s p))), s))"

definition set_epc :: "nat \<Rightarrow> u64 \<Rightarrow> 'a ptab_scheme \<Rightarrow> 'a ptab_scheme" where
  "set_epc p v s = s\<lparr>mem := store64 (trapframe (procs s p) + TF_epc) v (mem s)\<rparr>"

text \<open>The end of \<open>usertrap\<close>, after the cause has been dealt with.\<close>

definition usertrap_finish :: "nat \<Rightarrow> nat \<Rightarrow> 'a traps_scheme \<Rightarrow> (trap_end \<times> 'a traps_scheme) res" where
  "usertrap_finish p which_dev s =
     bindR (killed p s) (\<lambda>(k, s).
       if k \<noteq> 0 then bindR (exit_out (- 1) s) (\<lambda>s. Ok (Died, s))
       else if which_dev = 2 then bindR (yield_out s) (\<lambda>(ie, s). Ok (Yields ie, s))
       else usertrapret s)"

definition usertrap :: "'a traps_scheme \<Rightarrow> (trap_end \<times> 'a traps_scheme) res" where
  "usertrap s =
     (if sstatus s (cpuid s) AND SSTATUS_SPP \<noteq> 0 then Panic ''usertrap: not from user mode''
      else let s = w_stvec (kernelvec (img s)) s
           in bindR (curproc s) (\<lambda>(p, s).
              let s = set_epc p (sepc s (cpuid s)) s
              in if scause s (cpuid s) = 8
                 then bindR (killed p s) (\<lambda>(k, s).
                        if k \<noteq> 0 then bindR (exit_out (- 1) s) (\<lambda>s. Ok (Died, s))
                        else let s = set_epc p (load64 (mem s) (trapframe (procs s p) + TF_epc) + 4) s
                             in bindR (syscall (intr_on s)) (\<lambda>(alive, s).
                                  if alive then usertrap_finish p 0 s else Ok (Died, s)))
                 else bindR (devintr s) (\<lambda>(which_dev, s).
                        if which_dev \<noteq> 0 then usertrap_finish p which_dev s
                        else bindR (printf (''usertrap(): unexpected scause 0x%lx pid=%d'' @ newline)
                                      [VU64 (scause s (cpuid s)), VInt (pid (procs s p))] s) (\<lambda>s.
                             bindR (printf (''            sepc=0x%lx stval=0x%lx'' @ newline)
                                      [VU64 (sepc s (cpuid s)), VU64 (stval s (cpuid s))] s) (\<lambda>s.
                             bindR (setkilled p s) (usertrap_finish p 0))))))"

definition usertrap_resume :: "nat \<Rightarrow> bool \<Rightarrow> 'a traps_scheme \<Rightarrow> (trap_end \<times> 'a traps_scheme) res" where
  "usertrap_resume p ie s = bindR (yield_in p ie s) usertrapret"

text \<open>\<open>None\<close> when \<open>kerneltrap\<close> returns, the saved interrupt flag when it yields first.\<close>

definition kerneltrap_finish :: "u64 \<Rightarrow> u64 \<Rightarrow> 'a traps_scheme \<Rightarrow> 'a traps_scheme" where
  "kerneltrap_finish pc st s =
     s\<lparr>sepc := (sepc s)(cpuid s := pc), sstatus := (sstatus s)(cpuid s := st)\<rparr>"

definition kerneltrap :: "'a traps_scheme \<Rightarrow> (bool option \<times> 'a traps_scheme) res" where
  "kerneltrap s =
     (let pc = sepc s (cpuid s); st = sstatus s (cpuid s); cause = scause s (cpuid s)
      in if st AND SSTATUS_SPP = 0 then Panic ''kerneltrap: not from supervisor mode''
         else if intr_get s then Panic ''kerneltrap: interrupts enabled''
         else bindR (devintr s) (\<lambda>(which_dev, s).
           if which_dev = 0
           then bindR (printf (''scause=0x%lx sepc=0x%lx stval=0x%lx'' @ newline)
                         [VU64 cause, VU64 (sepc s (cpuid s)), VU64 (stval s (cpuid s))] s)
                  (\<lambda>s. Panic ''kerneltrap'')
           else if which_dev = 2
           then bindR (myproc s) (\<lambda>(me, s).
                  if me \<noteq> None then bindR (yield_out s) (\<lambda>(ie, s). Ok (Some ie, s))
                  else Ok (None, kerneltrap_finish pc st s))
           else Ok (None, kerneltrap_finish pc st s)))"

definition kerneltrap_resume :: "nat \<Rightarrow> bool \<Rightarrow> u64 \<Rightarrow> u64 \<Rightarrow> 'a traps_scheme \<Rightarrow> 'a traps_scheme res" where
  "kerneltrap_resume p ie pc st s =
     bindR (yield_in p ie s) (\<lambda>s. Ok (kerneltrap_finish pc st s))"

section \<open>The first return of a new process\<close>

definition forkret :: "'a traps_scheme \<Rightarrow> (trap_end \<times> 'a traps_scheme) res" where
  "forkret s =
     bindR (curproc s) (\<lambda>(p, s).
     bindR (release (LProc p) s) (\<lambda>s.
     bindR (if first s then bindR (fsinit ROOTDEV s) (\<lambda>s. Ok (s\<lparr>first := False\<rparr>)) else Ok s)
       usertrapret))"

end
