(* ===== verification/Boot.thy ===== *)
theory Boot
  imports Trap Scheduler
begin

text \<open>
  \<open>kernel/start.c\<close> and \<open>kernel/main.c\<close>: the machine-mode registers that \<open>start\<close> sets up, and
  the initialisation that each hart runs before it enters the scheduler.  The last part shows that the buffer cache and the
  disk are ready when \<open>main\<close> has set them up.
\<close>

record mregs =
  mstatus :: u64
  mepc :: u64
  msatp :: u64
  medeleg :: u64
  mideleg :: u64
  sie_reg :: u64
  pmpaddr0 :: u64
  pmpcfg0 :: u64
  mie :: u64
  menvcfg :: u64
  mcounteren :: u64
  mstimecmp :: u64
  mhartid :: u64
  mtp :: u64

definition timerinit :: "u64 \<Rightarrow> mregs \<Rightarrow> mregs" where
  "timerinit now m =
     (let m = m\<lparr>mie := mie m OR push_bit 5 1\<rparr>;
          m = m\<lparr>menvcfg := menvcfg m OR push_bit 63 1\<rparr>;
          m = m\<lparr>mcounteren := mcounteren m OR 2\<rparr>
      in m\<lparr>mstimecmp := now + 1000000\<rparr>)"

text \<open>The arguments are the address of \<open>main\<close> and the clock; \<open>mret\<close> ends the routine.\<close>

definition start :: "u64 \<Rightarrow> u64 \<Rightarrow> mregs \<Rightarrow> mregs" where
  "start main_addr now m =
     (let x = mstatus m;
          x = x AND NOT (push_bit 11 3);
          x = x OR push_bit 11 1;
          m = m\<lparr>mstatus := x\<rparr>;
          m = m\<lparr>mepc := main_addr\<rparr>;
          m = m\<lparr>msatp := 0\<rparr>;
          m = m\<lparr>medeleg := 0xffff\<rparr>;
          m = m\<lparr>mideleg := 0xffff\<rparr>;
          m = m\<lparr>sie_reg := sie_reg m OR push_bit 9 1 OR push_bit 5 1 OR push_bit 1 1\<rparr>;
          m = m\<lparr>pmpaddr0 := 0x3fffffffffffff\<rparr>;
          m = m\<lparr>pmpcfg0 := 0xf\<rparr>;
          m = timerinit now m
      in m\<lparr>mtp := mhartid m\<rparr>)"

record booting = traps +
  started :: bool

text \<open>The buffer cache, the tables of inodes and files, and the disk; \<open>rg\<close> answers reads of the disk's registers.\<close>

definition main_storage :: "(string \<Rightarrow> u32) \<Rightarrow> 'a files_scheme \<Rightarrow> 'a files_scheme res" where
  "main_storage rg s = virtio_disk_init rg (fileinit (iinit (binit s)))"

text \<open>What hart 0 does in \<open>main\<close> before \<open>scheduler\<close>.\<close>

definition main_first :: "(string \<Rightarrow> u32) \<Rightarrow> 'a booting_scheme \<Rightarrow> 'a booting_scheme res" where
  "main_first rg s =
     (let s = printfinit (consoleinit s)
      in bindR (printf newline [] s) (\<lambda>s.
         bindR (printf (''xv6 kernel is booting'' @ newline) [] s) (\<lambda>s.
         bindR (printf newline [] s) (\<lambda>s.
         bindR (kinit s) (\<lambda>s.
         bindR (kvminit s) (\<lambda>s.
         let s = plicinithart (plicinit (trapinithart (trapinit (procinit (kvminithart s)))))
         in bindR (main_storage rg s) (\<lambda>s.
            bindR (userinit s) (\<lambda>s. Ok (s\<lparr>started := True\<rparr>)))))))))"

definition main_other :: "'a booting_scheme \<Rightarrow> 'a booting_scheme res" where
  "main_other s =
     (if \<not> started s then Spin
      else bindR (printf (''hart %d starting'' @ newline) [VInt (of_nat (cpuid s))] s) (\<lambda>s.
           Ok (plicinithart (trapinithart (kvminithart s)))))"

definition main_init :: "(string \<Rightarrow> u32) \<Rightarrow> 'a booting_scheme \<Rightarrow> 'a booting_scheme res" where
  "main_init rg s = (if cpuid s = 0 then main_first rg s else main_other s)"

section \<open>The disk and the cache when \<open>main\<close> has set them up\<close>

text \<open>The answers of the disk's registers without which the driver panics.\<close>

definition disk_answers :: "(string \<Rightarrow> u32) \<Rightarrow> bool" where
  "disk_answers rg \<longleftrightarrow> rg ''MAGIC_VALUE'' = 0x74726976 \<and> rg ''VERSION'' = 2 \<and> rg ''DEVICE_ID'' = 2 \<and>
     rg ''VENDOR_ID'' = 0x554d4551 \<and> rg ''STATUS'' AND 8 \<noteq> 0 \<and> rg ''QUEUE_READY'' = 0 \<and> 8 \<le> rg ''QUEUE_NUM_MAX''"

lemma kalloc_page:
  assumes "kmem_ok e (x # xs) s"
  shows "\<exists>m h. kalloc s = Ok (x, (settle s)\<lparr>mem := m, freelist := h\<rparr>) \<and> kmem_ok e xs ((settle s)\<lparr>mem := m, freelist := h\<rparr>) \<and> x \<noteq> 0"
proof -
  have "kend (img s) = e" "x \<noteq> 0" "freelist s = x" "cpu_ok s" "lock_free LKmem s"
    using assms valid_page_nonzero [of e x] by (auto simp: kmem_ok_def)
  then show ?thesis using kmem_ok_kalloc_some [OF assms] kalloc_eq [of s] by auto
qed

lemma settle_mem [simp]: "settle (s\<lparr>mem := m, freelist := h\<rparr>) = (settle s)\<lparr>mem := m, freelist := h\<rparr>"
  by (simp add: settle_def)

lemma kalloc_pages:
  assumes "kmem_ok e (x # y # z # xs) s"
  shows "\<exists>s1 s2 m h. kalloc s = Ok (x, s1) \<and> kalloc s1 = Ok (y, s2) \<and> kalloc s2 = Ok (z, (settle s)\<lparr>mem := m, freelist := h\<rparr>) \<and>
    kmem_ok e xs ((settle s)\<lparr>mem := m, freelist := h\<rparr>) \<and> x \<noteq> 0 \<and> y \<noteq> 0 \<and> z \<noteq> 0"
proof -
  obtain m1 h1 where 1: "kalloc s = Ok (x, (settle s)\<lparr>mem := m1, freelist := h1\<rparr>)"
    "kmem_ok e (y # z # xs) ((settle s)\<lparr>mem := m1, freelist := h1\<rparr>)" "x \<noteq> 0" using kalloc_page [OF assms] by blast
  obtain m2 h2 where 2: "kalloc ((settle s)\<lparr>mem := m1, freelist := h1\<rparr>) = Ok (y, (settle s)\<lparr>mem := m2, freelist := h2\<rparr>)"
    "kmem_ok e (z # xs) ((settle s)\<lparr>mem := m2, freelist := h2\<rparr>)" "y \<noteq> 0" using kalloc_page [OF 1(2)] by auto
  obtain m3 h3 where "kalloc ((settle s)\<lparr>mem := m2, freelist := h2\<rparr>) = Ok (z, (settle s)\<lparr>mem := m3, freelist := h3\<rparr>)"
    "kmem_ok e xs ((settle s)\<lparr>mem := m3, freelist := h3\<rparr>)" "z \<noteq> 0" using kalloc_page [OF 2(2)] by auto
  then show ?thesis using 1(1,3) 2(1,3) by blast
qed

lemma kmem_ok_clear:
  assumes "kmem_ok e xs s" and "p \<notin> set xs" and "page_aligned p"
  shows "kmem_ok e xs (s\<lparr>mem := memset p 0 4096 (mem s)\<rparr>)"
proof -
  have "flist (memset p 0 4096 (mem s)) (freelist s) xs"
  proof (rule flist_frame)
    show "flist (mem s) (freelist s) xs" "\<forall>x\<in>set xs. page_aligned x" using assms(1) by (simp_all add: kmem_ok_def valid_page_def)
    fix x a assume x: "x \<in> set xs" "in_page x a"
    then have "page_aligned x" using assms(1) by (simp add: kmem_ok_def valid_page_def)
    then have "\<not> in_page p a" using x assms(2,3) in_page_unique [of p x a] by auto
    then show "memset p 0 4096 (mem s) a = mem s a" by (simp add: memset_page)
  qed
  then show ?thesis using assms(1) by (simp add: kmem_ok_def)
qed

lemma kmem_ok_other:
  "kmem_ok e xs s \<Longrightarrow> mem t = mem s \<Longrightarrow> freelist t = freelist s \<Longrightarrow> img t = img s \<Longrightarrow> cpus t = cpus s \<Longrightarrow> tp t = tp s \<Longrightarrow>
   sie t = sie s \<Longrightarrow> lock_free LKmem t \<Longrightarrow> kmem_ok e xs t"
  by (simp add: kmem_ok_def cpu_ok_def mach_defs)

text \<open>The state of a driver that is ready: no request is under way and every descriptor is free.\<close>

lemma virtio_disk_init_ok:
  fixes s :: "'a vdisk_scheme"
  assumes k: "kmem_ok e xs s" "3 \<le> length xs" and rg: "disk_answers rg" and u: "used_idx s = 0"
  shows "\<exists>t. virtio_disk_init rg s = Ok t \<and> disk_idle t \<and> kmem_ok e (drop 3 xs) t \<and> bufs t = bufs s \<and> slocks t = slocks s \<and>
    bdata t = bdata s \<and> medium (vqueue t) = medium (vqueue s) \<and> vdev t = vdev s \<and> cpus t = cpus (settle s) \<and> sie t = sie s \<and> tp t = tp s \<and>
    (\<forall>l. lock_free l s \<longrightarrow> lock_free l t) \<and> lock_free LDisk t"
proof -
  obtain x y z ys where xs: "xs = x # y # z # ys"
    using k(2) by (cases xs; cases "tl xs"; cases "tl (tl xs)") auto
  define w where "w = wreg ''QUEUE_SEL'' 0 (wreg ''STATUS'' 11 (wreg ''DRIVER_FEATURES'' (virtio_features (rg ''DEVICE_FEATURES''))
    (wreg ''STATUS'' 3 (wreg ''STATUS'' 1 (wreg ''STATUS'' 0 (initlock LDisk ''virtio_disk'' s))))))"
  then obtain M where w: "w = (initlock LDisk ''virtio_disk'' s)\<lparr>mmio := M\<rparr>"
    by (simp add: wreg_def)
  have "lock_free LKmem w" using k(1) by (simp add: w initlock_def kmem_ok_def lock_free_def)
  then have "kmem_ok e (x # y # z # ys) w"
    using kmem_ok_other [OF k(1), of w] by (simp add: w initlock_def xs)
  then obtain s1 s2 m h where a: "kalloc w = Ok (x, s1)" "kalloc s1 = Ok (y, s2)" "kalloc s2 = Ok (z, (settle w)\<lparr>mem := m, freelist := h\<rparr>)"
    "kmem_ok e ys ((settle w)\<lparr>mem := m, freelist := h\<rparr>)" "x \<noteq> 0" "y \<noteq> 0" "z \<noteq> 0"
    using kalloc_pages by metis
  let ?m = "memset z 0 4096 (memset y 0 4096 (memset x 0 4096 m))"
  let ?q = "(vqueue s)\<lparr>vdesc := (\<lambda>_. \<lparr>daddr = DNull, dlen = 0, dflags = 0, dnext = 0\<rparr>), avail_idx := 0, avail_ring := (\<lambda>_. 0),
     ring_used_idx := 0, ring_used := (\<lambda>_. 0)\<rparr>"
  have p: "x \<notin> set ys \<and> page_aligned x" "y \<notin> set ys \<and> page_aligned y" "z \<notin> set ys \<and> page_aligned z"
    using k(1) by (auto simp: xs kmem_ok_def valid_page_def)
  have ok: "kmem_ok e ys ((settle w)\<lparr>freelist := h, mem := ?m\<rparr>)"
    using kmem_ok_clear [OF kmem_ok_clear [OF kmem_ok_clear [OF a(4)]], of x y z] p by simp
  define t where "t = wreg ''STATUS'' (rg ''STATUS'' OR 4) ((wreg ''QUEUE_READY'' 1 (wreg ''DEVICE_DESC_HIGH'' (ucast (drop_bit 32 z))
    (wreg ''DEVICE_DESC_LOW'' (ucast z) (wreg ''DRIVER_DESC_HIGH'' (ucast (drop_bit 32 y)) (wreg ''DRIVER_DESC_LOW'' (ucast y)
    (wreg ''QUEUE_DESC_HIGH'' (ucast (drop_bit 32 x)) (wreg ''QUEUE_DESC_LOW'' (ucast x) (wreg ''QUEUE_NUM'' 8
    ((settle w)\<lparr>freelist := h, mem := ?m, vqueue := ?q\<rparr>)))))))))\<lparr>vfree := (\<lambda>i. i < NUM \<or> vfree s i)\<rparr>)"
  have nz: "rg ''QUEUE_NUM_MAX'' \<noteq> 0" "\<not> rg ''QUEUE_NUM_MAX'' < 8" using rg by (auto simp: disk_answers_def not_less)
  have vq: "vqueue (initlock LDisk nm s) = vqueue s" "vfree (initlock LDisk nm s) = vfree s" for nm by (simp_all add: initlock_def)
  have "virtio_disk_init rg s = Ok t"
    using a rg nz unfolding w_def
    by (simp add: virtio_disk_init_def Let_def disk_answers_def t_def w_def)
       (simp add: wreg_def vq)
  moreover have "kmem_ok e ys t"
    using ok by (simp add: t_def wreg_def kmem_ok_def lock_free_def cpu_ok_def mach_defs)
  ultimately show ?thesis
    using u by (simp add: xs t_def wreg_def disk_idle_def bdata_def lock_free_def fun_eq_iff)
       (simp add: w initlock_def settle_def)
qed

lemma iinit_rest:
  "\<exists>L K. iinit s = s\<lparr>slocks := L, locks := K\<rparr> \<and> (\<forall>b. L (SBuf b) = slocks s (SBuf b)) \<and>
     (\<forall>l. K l = locks s l \<or> \<not> locked (K l) \<and> lcpu (K l) = None)"
proof -
  let ?P = "\<lambda>t. \<exists>L K. t = s\<lparr>slocks := L, locks := K\<rparr> \<and> (\<forall>b. L (SBuf b) = slocks s (SBuf b)) \<and>
     (\<forall>l. K l = locks s l \<or> \<not> locked (K l) \<and> lcpu (K l) = None)"
  have one: "?P (initsleeplock (SInode i) nm t)" if P: "?P t" for i nm t
  proof -
    obtain L K where t: "t = s\<lparr>slocks := L, locks := K\<rparr>" "\<forall>b. L (SBuf b) = slocks s (SBuf b)"
      "\<forall>l. K l = locks s l \<or> \<not> locked (K l) \<and> lcpu (K l) = None" using P by blast
    show ?thesis
      by (rule exI [of _ "L(SInode i := \<lparr>slname = nm, slocked = False, slpid = 0\<rparr>)"],
          rule exI [of _ "K(LSleep (SInode i) := \<lparr>lname = ''sleep lock'', locked = False, lcpu = None\<rparr>)"])
        (use t in \<open>simp add: initsleeplock_def set_slock_def initlock_def\<close>)
  qed
  have "?P (fold (\<lambda>i. initsleeplock (SInode i) ''inode'') is t)" if "?P t" for "is" t
    using that
  proof (induction "is" arbitrary: t)
    case (Cons i "is")
    show ?case unfolding fold_Cons o_apply by (rule Cons.IH [OF one [OF Cons.prems]])
  qed simp
  moreover have "?P (initlock LItable ''itable'' s)"
    by (rule exI [of _ "slocks s"], rule exI [of _ "(locks s)(LItable := \<lparr>lname = ''itable'', locked = False, lcpu = None\<rparr>)"])
      (simp add: initlock_def)
  ultimately show ?thesis unfolding iinit_def by blast
qed

lemma tables_rest:
  fixes s :: "'a files_scheme"
  shows "\<exists>F L K. fileinit (iinit (binit s)) = s\<lparr>bufs := F, slocks := L, locks := K\<rparr> \<and> same_data (bufs s) F \<and>
    (\<forall>b < NBUF. \<not> slocked (L (SBuf b))) \<and> (\<forall>l. K l = locks s l \<or> \<not> locked (K l) \<and> lcpu (K l) = None) \<and>
    F = bufs (binit s)"
proof -
  obtain F L K where b: "binit s = s\<lparr>bufs := F, slocks := L, locks := K\<rparr>" "same_data (bufs s) F"
    "\<forall>b < NBUF. \<not> slocked (L (SBuf b))" "\<forall>l. K l = locks s l \<or> \<not> locked (K l) \<and> lcpu (K l) = None"
    using binit_rest [of s] unfolding binit_rel_def by blast
  obtain L' K' where i: "iinit (binit s) = (binit s)\<lparr>slocks := L', locks := K'\<rparr>" "\<forall>b. L' (SBuf b) = L (SBuf b)"
    "\<forall>l. K' l = K l \<or> \<not> locked (K' l) \<and> lcpu (K' l) = None"
    using iinit_rest [of "binit s"] by (auto simp: b(1))
  let ?K = "K'(LFtable := \<lparr>lname = ''ftable'', locked = False, lcpu = None\<rparr>)"
  have "\<forall>l. ?K l = locks s l \<or> \<not> locked (?K l) \<and> lcpu (?K l) = None" using b(4) i(3) by (metis fun_upd_apply spinlock.select_convs(2,3))
  moreover have "fileinit (iinit (binit s)) = s\<lparr>bufs := F, slocks := L', locks := ?K\<rparr>"
    unfolding fileinit_def initlock_def i(1) unfolding b(1) by simp
  moreover have "\<forall>b < NBUF. \<not> slocked (L' (SBuf b))" "F = bufs (binit s)" using b(1,3) i(2) by simp_all
  ultimately show ?thesis using b(2) by blast
qed

text \<open>The state in which \<open>main\<close> calls these routines: the buffers and the driver's counters are still zero.\<close>

definition storage_zero :: "'a vdisk_scheme \<Rightarrow> bool" where
  "storage_zero s \<longleftrightarrow> used_idx s = 0 \<and>
     (\<forall>b < NBUF. length (bdata s b) = BSIZE \<and> bdev (bufs s b) = 0 \<and> \<not> bvalid (bufs s b) \<and> refcnt (bufs s b) = 0)"

text \<open>C18. The start of the file system's lower layers.  On the machine as \<open>main\<close> finds it, with no process running, buffers and
  counters zero, no lock taken and at least three free pages, \<open>binit\<close>, \<open>iinit\<close>, \<open>fileinit\<close> and \<open>virtio_disk_init\<close> return,
  if the registers of the disk answer as the driver demands.  Then the invariant of the cache holds: the buffers form one
  circular list, nobody refers to one or has locked it, and the driver is idle with all its descriptors.  Every lock is free,
  three pages are taken from the free list, and the disk is unchanged.\<close>

theorem main_storage_ready:
  fixes s :: "'a files_scheme"
  assumes "storage_zero s" and "\<forall>l. lock_free l s" and "kmem_ok e xs s" and "3 \<le> length xs" and "disk_answers rg"
  shows "\<exists>t. main_storage rg s = Ok t \<and> cache_ok (rev [0..<NBUF]) t \<and>
    (\<forall>b < NBUF. refcnt (bufs t b) = 0 \<and> \<not> slocked (slocks t (SBuf b))) \<and> (\<forall>l. lock_free l t) \<and> cpu_ok t \<and>
    cproc (mycpu t) = cproc (mycpu s) \<and> kmem_ok e (drop 3 xs) t \<and> medium (vqueue t) = medium (vqueue s)"
proof -
  obtain F L K where i: "fileinit (iinit (binit s)) = s\<lparr>bufs := F, slocks := L, locks := K\<rparr>" and F: "same_data (bufs s) F"
    "F = bufs (binit s)" and L: "\<forall>b < NBUF. \<not> slocked (L (SBuf b))"
    and K: "\<forall>l. K l = locks s l \<or> \<not> locked (K l) \<and> lcpu (K l) = None"
    using tables_rest [of s] by blast
  let ?s = "s\<lparr>bufs := F, slocks := L, locks := K\<rparr>"
  have free: "lock_free l ?s" for l using K [rule_format, of l] assms(2) [rule_format, of l] by (auto simp: lock_free_def)
  have "kmem_ok e xs ?s" by (rule kmem_ok_other [OF assms(3)]) (simp_all add: free)
  moreover have "used_idx ?s = 0" using assms(1) by (simp add: storage_zero_def)
  ultimately obtain t where t: "virtio_disk_init rg ?s = Ok t" "disk_idle t" "kmem_ok e (drop 3 xs) t" "bufs t = F" "slocks t = L"
    "bdata t = bdata s" "medium (vqueue t) = medium (vqueue s)" "cpus t = cpus (settle ?s)" "tp t = tp s" "\<forall>l. lock_free l t"
    using virtio_disk_init_ok [of e xs ?s, OF _ assms(4,5)] free by (auto simp: bdata_def [abs_def])
  have bd: "bdev (F b) = bdev (bufs s b) \<and> bvalid (F b) = bvalid (bufs s b) \<and> refcnt (F b) = refcnt (bufs s b)" for b
    using F(1) by (simp add: same_data_def)
  have z: "length (bdata s b) = BSIZE" "bdev (F b) = 0" "\<not> bvalid (F b)" "refcnt (F b) = 0" if "b < NBUF" for b
    using assms(1) that bd [of b] by (simp_all add: storage_zero_def)
  have "lru t (rev [0..<NBUF])" using lru_binit [of s] t(4) F(2) by (simp add: lru_def)
  moreover have "set (rev [0..<NBUF]) = {..<NBUF}" unfolding set_rev set_upt by auto
  ultimately have "cache_ok (rev [0..<NBUF]) t" unfolding cache_ok_def t(4-7) using t(2) L z by simp
  moreover have "cpu_ok t" using t(3) by (simp add: kmem_ok_def)
  moreover have "cproc (mycpu t) = cproc (mycpu s)" using t(8,9) by (simp add: mach_defs settle_def)
  moreover have "main_storage rg s = Ok t" using t(1) by (simp add: main_storage_def i)
  ultimately show ?thesis using t(3,4,5,7,10) L z(4) by auto
qed

text \<open>A machine with three free pages, as it is before the tables are set up.\<close>

definition demo_boot :: files where
  "demo_boot = (demo_pipe ())\<lparr>cpus := (\<lambda>_. \<lparr>cproc = None, noff = 0, intena = False\<rparr>), sie := (\<lambda>_. False), tp := 0,
     locks := (\<lambda>_. \<lparr>lname = [], locked = False, lcpu = None\<rparr>), img := example_image,
     mem := store64 0x80030000 0x80031000 (store64 0x80031000 0x80032000 (\<lambda>_. 0)), freelist := 0x80030000,
     bufs := (\<lambda>_. \<lparr>bvalid = False, bdisk = False, bdev = 0, blockno = 0, refcnt = 0, bprev = 0, bnext = 0\<rparr>),
     vqueue := (vqueue (demo_pipe ()))\<lparr>vdata := (\<lambda>_. replicate BSIZE 0), medium := (\<lambda>_. 0)\<rparr>,
     vfree := (\<lambda>_. False), used_idx := 0\<rparr>"

definition demo_regs :: "string \<Rightarrow> u32" where
  "demo_regs = (\<lambda>_. 0)(''MAGIC_VALUE'' := 0x74726976, ''VERSION'' := 2, ''DEVICE_ID'' := 2, ''VENDOR_ID'' := 0x554d4551,
     ''STATUS'' := 11, ''QUEUE_NUM_MAX'' := 1024)"

theorem main_storage_ready_witness:
  "\<exists>t. main_storage demo_regs demo_boot = Ok t \<and> cache_ok (rev [0..<NBUF]) t \<and> freelist t = 0 \<and> cproc (mycpu t) = None"
proof -
  have z: "load64 (\<lambda>_. 0) a = 0" for a by (simp add: load64_def)
  have a: "page_aligned 0x80030000" "page_aligned 0x80031000" "page_aligned 0x80032000" by (simp_all add: page_aligned_def)
  note o = load_store64_other [OF page_aligned8 page_aligned8]
  have "kmem_ok 0x80022000 [0x80030000, 0x80031000, 0x80032000] demo_boot"
    by (simp add: kmem_ok_def demo_boot_def example_image_def valid_page_def a o z cpu_ok_def lock_free_def mach_defs)
  moreover have "storage_zero demo_boot" "\<forall>l. lock_free l demo_boot" "cproc (mycpu demo_boot) = None"
    by (simp_all add: storage_zero_def demo_boot_def bdata_def lock_free_def mach_defs)
  moreover have "disk_answers demo_regs" by (simp add: disk_answers_def demo_regs_def)
  ultimately show ?thesis using main_storage_ready [of demo_boot "0x80022000" _ demo_regs] by (fastforce simp: kmem_ok_def)
qed

end
