(* ===== verification/Recovery.thy ===== *)
theory Recovery
  imports Log
begin

text \<open>
  The log makes a transaction atomic.  The steps of \<open>commit\<close> write one block each; whichever of
  them is the last one before the machine stops, \<open>recover_from_log\<close> on the next start leaves the
  blocks of the transaction either all as they were or all as the transaction wrote them.
  \<open>end_op\<close> of the last operation runs these steps in their order; the space that \<open>begin_op\<close> reserves
  is one block more than the log has.  The counters of the log are read as numbers, which agree with the \<open>int\<close>s
  of the code: \<open>log_write\<close> and \<open>begin_op\<close> keep them far below \<open>2 ^ 31\<close>.
\<close>

section \<open>The fields of the log and the cache\<close>

lemma log_frame:
  fixes s t :: "'a log_state_scheme"
  assumes "disk_frame s t"
  shows "log_start t = log_start s" "log_size t = log_size s" "log_dev t = log_dev s" "log_lh t = log_lh s"
    "outstanding t = outstanding s" "committing t = committing s"
proof -
  have m: "vdisk.more t = vdisk.more s" using assms by (simp add: disk_frame_def)
  show "log_start t = log_start s" "log_size t = log_size s" "log_dev t = log_dev s" "log_lh t = log_lh s"
    "outstanding t = outstanding s" "committing t = committing s"
    using m by (cases s; cases t; simp)+
qed

lemma log_bdata [simp]:
  "log_start (set_bdata b d s) = log_start s" "log_size (set_bdata b d s) = log_size s"
  "log_dev (set_bdata b d s) = log_dev s" "log_lh (set_bdata b d s) = log_lh s"
  by (simp_all add: set_bdata_def)

lemma set_lh_simps [simp]:
  "bufs (set_lh f s) = bufs s" "slocks (set_lh f s) = slocks s" "procs (set_lh f s) = procs s" "vqueue (set_lh f s) = vqueue s"
  "vdev (set_lh f s) = vdev s" "log_lh (set_lh f s) = f (log_lh s)" "log_start (set_lh f s) = log_start s"
  "log_size (set_lh f s) = log_size s" "log_dev (set_lh f s) = log_dev s" "bdata (set_lh f s) = bdata s"
  "outstanding (set_lh f s) = outstanding s" "committing (set_lh f s) = committing s"
  by (simp_all add: set_lh_def bdata_def fun_eq_iff)

lemma settle_set_lh [simp]: "settle (set_lh f s) = set_lh f (settle s)"
  by (simp add: set_lh_def settle_def)

lemma quiet_set_lh [simp]: "quiet p (set_lh f s) = quiet p s"
  by (simp add: quiet_def calm_def cpu_ok_def lock_free_def set_lh_def mach_defs)

lemma cache_ok_set_lh [simp]: "cache_ok xs (set_lh f s) = cache_ok xs s"
  by (simp add: cache_ok_def lru_def disk_idle_def) (simp add: set_lh_def)

lemma holds_set_lh [simp]: "holds_block (set_lh f s) = holds_block s"
  by (simp add: holds_block_def fun_eq_iff)

lemma cache_set_lh [simp]:
  "content (set_lh f s) = content s" "dblock (set_lh f s) = dblock s" "refs (set_lh f s) = refs s"
  by (simp_all add: content_def dblock_def refs_def fun_eq_iff cong: option.case_cong)

lemma view_set_lh [simp]: "view p cap h (set_lh f s) = view p cap h s"
  by (simp add: view_def held_def)

lemma becomes_refl: "view p cap h s \<Longrightarrow> settle s = s \<Longrightarrow> becomes p cap h s s (content s ROOTDEV) (dblock s) (refs s)"
  by (simp add: becomes_def disk_frame_def only_states_refl)

lemma becomes_settled: "becomes p cap h r s C D R \<Longrightarrow> settle s = s"
  by (auto simp: becomes_def disk_frame_def intro: settle_same_mach)

section \<open>The log is out of reach of the cache\<close>

text \<open>Whatever the state is, a routine of the lower layers that returns has not touched the fields above its own.\<close>

lemma mach_more:
  "acquire l s = Ok t \<Longrightarrow> mach.more t = mach.more s" "release l s = Ok t \<Longrightarrow> mach.more t = mach.more s"
  "curproc s = Ok (p, t) \<Longrightarrow> mach.more t = mach.more s"
  by (auto simp: acquire_def release_def push_off_def pop_off_def curproc_def myproc_def mach_defs Let_def split: if_splits option.splits
      elim!: bindR_OkE)

lemma more_up:
  fixes s t :: "'a vdisk_scheme"
  shows "mach.more t = mach.more s \<Longrightarrow> vdisk.more t = vdisk.more s" "ptab.more t = ptab.more s \<Longrightarrow> vdisk.more t = vdisk.more s"
  by (cases s; cases t; simp)+

lemmas disk_more = more_up(1) [OF mach_more(1)] more_up(1) [OF mach_more(2)] more_up(1) [OF mach_more(3)] more_up(2) [OF wakeup_more]

lemma sleep_more:
  fixes s t :: "'a vdisk_scheme"
  shows "acquiresleep k s = Ok t \<Longrightarrow> vdisk.more t = vdisk.more s" "releasesleep k s = Ok t \<Longrightarrow> vdisk.more t = vdisk.more s"
    "holdingsleep k s = Ok (h, t) \<Longrightarrow> vdisk.more t = vdisk.more s"
  by (auto simp: acquiresleep_def releasesleep_def holdingsleep_def set_slock_def Let_def split: if_splits
      elim!: bindR_OkE dest!: disk_more)

lemma desc_more:
  fixes s t :: "'a vdisk_scheme"
  shows "alloc_desc s = (r, t) \<Longrightarrow> vdisk.more t = vdisk.more s" "free_desc i s = Ok t \<Longrightarrow> vdisk.more t = vdisk.more s"
proof -
  have "vdisk.more (snd (alloc_desc_from is s)) = vdisk.more s" for "is" by (induction "is") auto
  then show "alloc_desc s = (r, t) \<Longrightarrow> vdisk.more t = vdisk.more s" unfolding alloc_desc_def by (metis snd_conv)
  show "free_desc i s = Ok t \<Longrightarrow> vdisk.more t = vdisk.more s"
    by (auto simp: free_desc_def set_desc_def Let_def split: if_splits dest!: disk_more)
qed

lemma free_chain_more: "free_chain i s = Ok t \<Longrightarrow> vdisk.more t = vdisk.more s"
proof (induction i s arbitrary: t rule: free_chain.induct)
  case (1 i s)
  from 1(2) obtain u where u: "free_desc i s = Ok u"
    "(if dflags (vdesc (vqueue s) i) AND VRING_DESC_F_NEXT \<noteq> 0 then free_chain (unat (dnext (vdesc (vqueue s) i))) u else Ok u) = Ok t"
    by (subst (asm) free_chain.simps) (auto simp: Let_def elim!: bindR_OkE)
  then show ?case using 1(1) [OF refl refl u(1)] desc_more(2) [OF u(1)] by (auto split: if_splits)
qed

lemma alloc3_more: "alloc3_desc s = Ok (r, t) \<Longrightarrow> vdisk.more t = vdisk.more s"
  by (auto simp: alloc3_desc_def split: prod.splits option.splits elim!: bindR_OkE dest!: desc_more)

lemma intr_loop_more: "intr_loop s = Ok t \<Longrightarrow> vdisk.more t = vdisk.more s"
proof (induction s arbitrary: t rule: intr_loop.induct)
  case (1 s)
  show ?case
  proof (cases "used_idx s = ring_used_idx (vqueue s)")
    case True
    then show ?thesis using 1(2) by (subst (asm) intr_loop.simps) simp
  next
    case False
    let ?id = "ring_used (vqueue s) (unat (used_idx s) mod NUM)"
    have "\<exists>b u. \<not> ?id \<ge> NUM \<and> \<not> vstatus (vqueue s) ?id \<noteq> 0 \<and> vinfo s ?id = Some b \<and>
        wakeup (ChBuf b) (set_buf b (\<lambda>x. x\<lparr>bdisk := False\<rparr>) s) = Ok u \<and> intr_loop (u\<lparr>used_idx := used_idx u + 1\<rparr>) = Ok t"
      using 1(2) False by (subst (asm) intr_loop.simps) (auto simp: Let_def split: if_splits option.splits elim!: bindR_OkE)
    then obtain b u where u: "\<not> ?id \<ge> NUM" "\<not> vstatus (vqueue s) ?id \<noteq> 0" "vinfo s ?id = Some b"
      "wakeup (ChBuf b) (set_buf b (\<lambda>x. x\<lparr>bdisk := False\<rparr>) s) = Ok u" "intr_loop (u\<lparr>used_idx := used_idx u + 1\<rparr>) = Ok t" by blast
    then show ?thesis using 1(1) [OF False refl u(1-4) u(5)] disk_more(4) [OF u(4)] by (simp add: set_buf_def)
  qed
qed

lemma disk_rw_more: "virtio_disk_rw b wr s = Ok t \<Longrightarrow> vdisk.more t = vdisk.more s"
  by (auto simp: virtio_disk_rw_def await_disk_def virtio_disk_intr_def submit_def format_req_def set_desc_def set_buf_def wreg_def Let_def
      split: if_splits option.splits prod.splits elim!: bindR_OkE dest!: disk_more free_chain_more alloc3_more intr_loop_more)

lemma relinks_more [simp]:
  "vdisk.more (push_front b s) = vdisk.more s" "vdisk.more (unlink_buf b s) = vdisk.more s" "vdisk.more (set_buf b f s) = vdisk.more s"
  by (simp_all add: push_front_def unlink_buf_def set_buf_def Let_def)

lemma buffer_more:
  "bread dev n s = Ok (b, t) \<Longrightarrow> vdisk.more t = vdisk.more s" "bwrite b s = Ok t \<Longrightarrow> vdisk.more t = vdisk.more s"
  "brelse b s = Ok t \<Longrightarrow> vdisk.more t = vdisk.more s" "bunpin b s = Ok t \<Longrightarrow> vdisk.more t = vdisk.more s"
proof -
  have "bget dev n s = Ok (b, t) \<Longrightarrow> vdisk.more t = vdisk.more s" for s t :: "'a vdisk_scheme" and b
    by (auto simp: bget_def split: if_splits option.splits elim!: bindR_OkE dest!: disk_more sleep_more)
  then show "bread dev n s = Ok (b, t) \<Longrightarrow> vdisk.more t = vdisk.more s"
    by (fastforce simp: bread_def split: if_splits elim!: bindR_OkE dest!: disk_rw_more)
  show "bwrite b s = Ok t \<Longrightarrow> vdisk.more t = vdisk.more s" "brelse b s = Ok t \<Longrightarrow> vdisk.more t = vdisk.more s"
    "bunpin b s = Ok t \<Longrightarrow> vdisk.more t = vdisk.more s"
    by (auto simp: bwrite_def brelse_def bunpin_def Let_def split: if_splits elim!: bindR_OkE dest!: disk_more sleep_more disk_rw_more)
qed

section \<open>Copying a block\<close>

definition room :: "(u32 \<Rightarrow> nat) \<Rightarrow> nat" where
  "room R = card {n. R n \<noteq> 0}"

lemma room_add:
  assumes "finite {n. R n \<noteq> 0}"
  shows "room (R(n := R n + 1)) \<le> room R + 1"
proof -
  have "{m. (R(n := R n + 1)) m \<noteq> 0} = insert n {m. R m \<noteq> 0}" by auto
  then show ?thesis unfolding room_def by (simp add: card_insert_le_m1 card_insert_if assms)
qed

text \<open>The block of the log that belongs to slot \<open>i\<close> of the header, and its home.\<close>

definition log_block :: "'a log_state_scheme \<Rightarrow> nat \<Rightarrow> u32" where
  "log_block s i = word_of_int (log_start s + int i + 1)"

definition home :: "'a log_state_scheme \<Rightarrow> nat \<Rightarrow> u32" where
  "home s i = lh_block (log_lh s) ! i"

definition head_block :: "'a log_state_scheme \<Rightarrow> u32" where
  "head_block s = word_of_int (log_start s)"

text \<open>Two blocks are read one after the other.\<close>

lemma bread2:
  assumes v: "view p cap Map.empty s" and n: "unat a < cap" "unat b < cap" "a \<noteq> b" "refs s a + 1 < 2 ^ 32" "refs s b + 1 < 2 ^ 32"
    and f: "room (refs s) < NBUF" "refs s b \<noteq> 0 \<or> room (refs s) + 1 < NBUF"
  shows "\<exists>x s' y t. bread ROOTDEV a s = Ok (x, s') \<and> disk_frame s s' \<and> bread ROOTDEV b s' = Ok (y, t) \<and>
    becomes p cap (Map.empty(a := Some x, b := Some y)) s t (content s ROOTDEV) (dblock s)
      ((refs s)(a := refs s a + 1, b := refs s b + 1))"
proof -
  obtain x s' where s': "bread ROOTDEV a s = Ok (x, s')"
    "becomes p cap (Map.empty(a := Some x)) s s' (content s ROOTDEV) (dblock s) ((refs s)(a := refs s a + 1))"
    using bread_view [OF v n(1) _ n(4)] f(1) by (auto simp: room_def)
  have "((refs s)(a := refs s a + 1)) b \<noteq> 0 \<or> room ((refs s)(a := refs s a + 1)) < NBUF"
  proof (cases "refs s b = 0")
    case True
    then show ?thesis using f(2) room_add [OF finite_refs, of s a] by linarith
  qed (use n(3) in simp)
  then have "((refs s)(a := refs s a + 1)) b \<noteq> 0 \<or> card {m. ((refs s)(a := refs s a + 1)) m \<noteq> 0} < NBUF"
    unfolding room_def .
  then obtain y t where "bread ROOTDEV b s' = Ok (y, t)"
    "becomes p cap (Map.empty(a := Some x, b := Some y)) s t (content s ROOTDEV) (dblock s)
      ((refs s)(a := refs s a + 1, b := refs s b + 1))"
    using bread_then [OF s'(2) n(2)] n(3,5) by fastforce
  then show ?thesis using s' by (blast dest: becomes_keep(2))
qed

lemma write_log_one_spec:
  fixes s :: "'a log_state_scheme" and i :: nat
  defines "l \<equiv> log_block s i" and "m \<equiv> home s i"
  assumes v: "view p cap Map.empty s" and d: "log_dev s = ROOTDEV" "i < length (lh_block (log_lh s))"
    and n: "unat l < cap" "unat m < cap" "l \<noteq> m" "refs s l + 1 < 2 ^ 32" "refs s m + 1 < 2 ^ 32"
    and f: "room (refs s) < NBUF" "refs s m \<noteq> 0"
  shows "\<exists>t. write_log_one i s = Ok t \<and> becomes p cap Map.empty s t ((content s ROOTDEV)(l := content s ROOTDEV m))
    ((dblock s)(l := content s ROOTDEV m)) (refs s)"
proof -
  let ?C = "content s ROOTDEV"
  obtain x s' y t where r: "bread ROOTDEV l s = Ok (x, s')" "disk_frame s s'" "bread ROOTDEV m s' = Ok (y, t)"
    and t: "becomes p cap (Map.empty(l := Some x, m := Some y)) s t ?C (dblock s)
      ((refs s)(l := refs s l + 1, m := refs s m + 1))"
    using bread2 [OF v n f(1)] f(2) by blast
  define h where "h = Map.empty(l := Some x, m := Some y)"
  define R where "R = (refs s)(l := refs s l + 1, m := refs s m + 1)"
  note t = t [folded h_def R_def]
  have x: "h l = Some x" and y: "h m = Some y" and R: "R l = refs s l + 1" "R m = refs s m + 1"
    using n(3) by (simp_all add: h_def R_def)
  have len: "length (bdata t y) = BSIZE" and dat: "bdata t y = ?C m"
    using becomesD(3,16) [OF t y] by simp_all
  obtain t1 where t1: "bwrite x (set_bdata x (bdata t y) t) = Ok t1"
    "becomes p cap h s t1 (?C(l := ?C m)) ((dblock s)(l := ?C m)) R"
    using bwrite_then [OF set_bdata_then [OF t x len] x n(1)] by (auto simp: dat)
  obtain t2 where t2: "brelse y t1 = Ok t2"
    "becomes p cap (h(m := None)) s t2 (?C(l := ?C m)) ((dblock s)(l := ?C m)) (R(m := refs s m))"
    using brelse_then [OF t1(2) y] f(2) R(2) by auto
  obtain t3 where t3: "brelse x t2 = Ok t3"
    "becomes p cap (h(m := None, l := None)) s t3 (?C(l := ?C m)) ((dblock s)(l := ?C m)) (R(m := refs s m, l := refs s l))"
    using brelse_then [OF t2(2), of l x] n(3) x R(1) by auto
  have e: "h(m := None, l := None) = Map.empty" "R(m := refs s m, l := refs s l) = refs s" by (auto simp: fun_eq_iff h_def R_def)
  have "write_log_one i s = Ok t3"
    using r(1,3) t1(1) t2(1) t3(1) d log_frame [OF r(2)]
    by (simp add: write_log_one_def l_def m_def log_block_def home_def arr_get_def)
  then show ?thesis using t3(2) unfolding e by blast
qed

lemma install_one_spec:
  fixes s :: "'a log_state_scheme" and i :: nat
  defines "l \<equiv> log_block s i" and "m \<equiv> home s i"
  assumes v: "view p cap Map.empty s" and d: "log_dev s = ROOTDEV" "i < length (lh_block (log_lh s))"
    and n: "unat l < cap" "unat m < cap" "l \<noteq> m" "refs s l + 1 < 2 ^ 32" "refs s m + 1 < 2 ^ 32"
    and f: "room (refs s) < NBUF" "refs s m \<noteq> 0 \<or> room (refs s) + 1 < NBUF" and u: "rec \<or> refs s m \<noteq> 0"
  shows "\<exists>t. install_one rec i s = Ok t \<and> becomes p cap Map.empty s t ((content s ROOTDEV)(m := content s ROOTDEV l))
    ((dblock s)(m := content s ROOTDEV l)) (if rec then refs s else (refs s)(m := refs s m - 1))"
proof -
  let ?C = "content s ROOTDEV"
  obtain x s' y t where r: "bread ROOTDEV l s = Ok (x, s')" "disk_frame s s'" "bread ROOTDEV m s' = Ok (y, t)"
    and t: "becomes p cap (Map.empty(l := Some x, m := Some y)) s t ?C (dblock s)
      ((refs s)(l := refs s l + 1, m := refs s m + 1))"
    using bread2 [OF v n f] by blast
  define h where "h = Map.empty(l := Some x, m := Some y)"
  define R where "R = (refs s)(l := refs s l + 1, m := refs s m + 1)"
  note t = t [folded h_def R_def]
  have x: "h l = Some x" and y: "h m = Some y" and R: "R l = refs s l + 1" "R m = refs s m + 1"
    using n(3) by (simp_all add: h_def R_def)
  have len: "length (bdata t x) = BSIZE" and dat: "bdata t x = ?C l"
    using becomesD(3,16) [OF t x] by simp_all
  obtain t1 where t1: "bwrite y (set_bdata y (bdata t x) t) = Ok t1"
    "becomes p cap h s t1 (?C(m := ?C l)) ((dblock s)(m := ?C l)) R"
    using bwrite_then [OF set_bdata_then [OF t y len] y n(2)] by (auto simp: dat)
  define k where "k = (if rec then refs s m + 1 else refs s m)"
  obtain t2 where t2: "(if \<not> rec then bunpin y t1 else Ok t1) = Ok t2"
    "becomes p cap h s t2 (?C(m := ?C l)) ((dblock s)(m := ?C l)) (R(m := k))"
    using bunpin_then [OF t1(2) y] u t1(2) R(2) by (cases rec) (auto simp: k_def fun_upd_idem)
  have cl: "refs s l = 0 \<Longrightarrow> ?C l = dblock s l" by (rule refs_clean [OF v])
  obtain t3 where t3: "brelse x t2 = Ok t3"
    "becomes p cap (h(l := None)) s t3 (?C(m := ?C l)) ((dblock s)(m := ?C l)) (R(m := k, l := refs s l))"
    using brelse_then [OF t2(2) x] cl n(3) R(1) by auto
  obtain t4 where t4: "brelse y t3 = Ok t4"
    "becomes p cap (h(l := None, m := None)) s t4 (?C(m := ?C l)) ((dblock s)(m := ?C l)) (R(m := k, l := refs s l, m := k - 1))"
    using brelse_then [OF t3(2), of m y] n(3) y by auto
  have e: "h(l := None, m := None) = Map.empty"
    "R(m := k, l := refs s l, m := k - 1) = (if rec then refs s else (refs s)(m := refs s m - 1))"
    using n(3) by (auto simp: fun_eq_iff k_def h_def R_def)
  have "install_one rec i s = Ok t4"
    using r(1,3) t1(1) t2(1) t3(1) t4(1) d log_frame [OF r(2)]
    by (simp add: install_one_def l_def m_def log_block_def home_def arr_get_def)
  then show ?thesis using t4(2) unfolding e by blast
qed

section \<open>The header\<close>

text \<open>The bytes of the header block after \<open>write_head\<close>.\<close>

definition hdr_put :: "logheader \<Rightarrow> u8 list \<Rightarrow> u8 list" where
  "hdr_put lh d = fold (\<lambda>i. put32 (4 + 4 * i) (lh_block lh ! i)) [0..<nat (lh_n lh)] (put32 0 (word_of_int (lh_n lh)) d)"

lemma length_put_blocks [simp]: "length (fold (\<lambda>i. put32 (4 + 4 * i) (f i)) is d) = length d"
  by (induction "is" arbitrary: d) simp_all

lemma length_hdr_put [simp]: "length (hdr_put lh d) = length d"
  by (simp add: hdr_put_def)

lemma get_put_blocks_0: "get32 (fold (\<lambda>i. put32 (4 + 4 * i) (f i)) is d) 0 = get32 d 0"
  by (induction "is" arbitrary: d) simp_all

lemma get_put_blocks:
  assumes "4 + 4 * n \<le> length d" and "j < n"
  shows "get32 (fold (\<lambda>i. put32 (4 + 4 * i) (f i)) [0..<n] d) (4 + 4 * j) = f j"
  using assms
proof (induction n)
  case (Suc n)
  show ?case
  proof (cases "j = n")
    case True
    then show ?thesis using Suc.prems by simp
  next
    case False
    with Suc show ?thesis by simp
  qed
qed simp

lemma hdr_put_get:
  assumes "length d = BSIZE" and "0 \<le> lh_n lh" and "lh_n lh \<le> int LOGSIZE"
  shows "sint (get32 (hdr_put lh d) 0) = lh_n lh"
    and "j < nat (lh_n lh) \<Longrightarrow> get32 (hdr_put lh d) (4 + 4 * j) = lh_block lh ! j"
proof -
  have "sint (word_of_int (lh_n lh) :: u32) = lh_n lh"
    using assms(2,3) by (simp add: sint_uint signed_take_bit_int_eq_self take_bit_int_eq_self uint_word_of_int_eq)
  then show "sint (get32 (hdr_put lh d) 0) = lh_n lh" using assms(1) by (simp add: hdr_put_def get_put_blocks_0)
  show "j < nat (lh_n lh) \<Longrightarrow> get32 (hdr_put lh d) (4 + 4 * j) = lh_block lh ! j"
    unfolding hdr_put_def by (rule get_put_blocks) (use assms in simp_all)
qed

lemma set_bdata_simps [simp]:
  "set_bdata b d (set_bdata b e s) = set_bdata b d s" "bdata (set_bdata b d s) b = d" "set_bdata b (bdata s b) s = s"
  by (simp_all add: set_bdata_def bdata_def)

lemma put_blocks:
  assumes "set is \<subseteq> {..<length (lh_block (log_lh s))}"
  shows "foldR (\<lambda>i s. bindR (arr_get (lh_block (log_lh s)) i) (\<lambda>bno.
      Ok (set_bdata b (put32 (4 + 4 * i) bno (bdata s b)) s))) is s
    = Ok (set_bdata b (fold (\<lambda>i. put32 (4 + 4 * i) (lh_block (log_lh s) ! i)) is (bdata s b)) s)"
  using assms by (induction "is" arbitrary: s) (simp_all add: arr_get_def)

lemma get_blocks:
  assumes "set is \<subseteq> {..<length (lh_block (log_lh s))}"
  shows "foldR (\<lambda>i s. bindR (arr_set (lh_block (log_lh s)) i (get32 (bdata s b) (4 + 4 * i))) (\<lambda>bl.
      Ok (set_lh (\<lambda>h. h\<lparr>lh_block := bl\<rparr>) s))) is s
    = Ok (set_lh (\<lambda>h. h\<lparr>lh_block := fold (\<lambda>i bl. bl[i := get32 (bdata s b) (4 + 4 * i)]) is (lh_block h)\<rparr>) s)"
  using assms by (induction "is" arbitrary: s) (simp_all add: arr_set_def, simp_all add: set_lh_def)

lemma fold_list_update_length [simp]: "length (fold (\<lambda>i bl. bl[i := f i]) is xs) = length xs"
  by (induction "is" arbitrary: xs) simp_all

lemma fold_list_update:
  assumes "n \<le> length xs" and "j < n"
  shows "fold (\<lambda>i bl. bl[i := f i]) [0..<n] xs ! j = f j"
  using assms by (induction n) (auto simp: nth_list_update less_Suc_eq)

lemma write_head_spec:
  fixes s :: "'a log_state_scheme"
  defines "n \<equiv> head_block s"
  assumes v: "view p cap Map.empty s" and d: "log_dev s = ROOTDEV" "nat (lh_n (log_lh s)) \<le> length (lh_block (log_lh s))"
    and n: "unat n < cap" "refs s n + 1 < 2 ^ 32" and f: "room (refs s) < NBUF"
  shows "\<exists>t. write_head s = Ok t \<and> becomes p cap Map.empty s t
    ((content s ROOTDEV)(n := hdr_put (log_lh s) (content s ROOTDEV n)))
    ((dblock s)(n := hdr_put (log_lh s) (content s ROOTDEV n))) (refs s)"
proof -
  let ?C = "content s ROOTDEV" and ?d = "hdr_put (log_lh s) (content s ROOTDEV n)"
  obtain b t where r: "bread ROOTDEV n s = Ok (b, t)"
    and t: "becomes p cap (Map.empty(n := Some b)) s t ?C (dblock s) ((refs s)(n := refs s n + 1))"
    using bread_view [OF v n(1) _ n(2)] f by (auto simp: room_def)
  define h where "h = Map.empty(n := Some b)"
  note t = t [folded h_def]
  have b: "h n = Some b" and h: "h(n := None) = Map.empty" by (simp_all add: h_def)
  note lf = log_frame [OF becomes_keep(2) [OF t]]
  have dat: "bdata t b = ?C n" "length (bdata t b) = BSIZE" using becomesD(3,16) [OF t b] by simp_all
  obtain t1 where t1: "bwrite b (set_bdata b ?d t) = Ok t1"
    "becomes p cap h s t1 (?C(n := ?d)) ((dblock s)(n := ?d)) ((refs s)(n := refs s n + 1))"
    using bwrite_then [OF set_bdata_then [OF t b, of ?d] b n(1)] dat by auto
  obtain t2 where t2: "brelse b t1 = Ok t2"
    "becomes p cap Map.empty s t2 (?C(n := ?d)) ((dblock s)(n := ?d)) (refs s)"
    using brelse_then [OF t1(2) b] by (auto simp: h)
  have "set (log_indices s) \<subseteq> {..<length (lh_block (log_lh s))}" using d(2) by (auto simp: log_indices_def)
  then have "write_head s = Ok t2"
    using r t1(1) t2(1) lf dat d(1) put_blocks [of "log_indices s" "set_bdata b (put32 0 (word_of_int (lh_n (log_lh s))) (bdata t b)) t" b]
    by (simp add: write_head_def n_def head_block_def Let_def hdr_put_def log_indices_def)
  then show ?thesis using t2(2) by blast
qed

lemma read_head_spec:
  fixes s :: "'a log_state_scheme"
  defines "n \<equiv> head_block s"
  defines "d \<equiv> content s ROOTDEV n"
  assumes v: "view p cap Map.empty s" and l: "log_dev s = ROOTDEV" "nat (sint (get32 d 0)) \<le> length (lh_block (log_lh s))"
    and n: "unat n < cap" "refs s n + 1 < 2 ^ 32" and f: "room (refs s) < NBUF"
  shows "\<exists>t. read_head s = Ok t \<and> view p cap Map.empty t \<and> settle t = t \<and> content t ROOTDEV = content s ROOTDEV \<and>
    dblock t = dblock s \<and> refs t = refs s \<and> log_start t = log_start s \<and> log_size t = log_size s \<and> log_dev t = log_dev s \<and>
    lh_n (log_lh t) = sint (get32 d 0) \<and> length (lh_block (log_lh t)) = length (lh_block (log_lh s)) \<and>
    (\<forall>i < nat (sint (get32 d 0)). home t i = get32 d (4 + 4 * i))"
proof -
  let ?C = "content s ROOTDEV" and ?m = "nat (sint (get32 d 0))"
  obtain b t where r: "bread ROOTDEV n s = Ok (b, t)"
    and t: "becomes p cap (Map.empty(n := Some b)) s t ?C (dblock s) ((refs s)(n := refs s n + 1))"
    using bread_view [OF v n(1) _ n(2)] f by (auto simp: room_def)
  define h where "h = Map.empty(n := Some b)"
  note t = t [folded h_def]
  have b: "h n = Some b" and h: "h(n := None) = Map.empty" by (simp_all add: h_def)
  note lf = log_frame [OF becomes_keep(2) [OF t]]
  have dat: "bdata t b = d" using becomesD(3) [OF t b] by (simp add: d_def)
  define F where "F h = h\<lparr>lh_n := sint (get32 d 0), lh_block := fold (\<lambda>i bl. bl[i := get32 d (4 + 4 * i)]) [0..<?m] (lh_block h)\<rparr>" for h :: logheader
  let ?t = "set_lh F t"
  have b0: "becomes p cap h ?t ?t ?C (dblock s) ((refs s)(n := refs s n + 1))"
    using becomes_refl [of p cap h ?t] becomes_keep [OF t] becomes_settled [OF t] by simp
  obtain u where u: "brelse b ?t = Ok u" "becomes p cap Map.empty ?t u ?C (dblock s) (refs s)"
    using brelse_then [OF b0 b] refs_clean [OF v, of n] by (auto simp: h)
  note uf = log_frame [OF becomes_keep(2) [OF u(2)]]
  have "set [0..<?m] \<subseteq> {..<length (lh_block (log_lh (set_lh (\<lambda>h. h\<lparr>lh_n := sint (get32 d 0)\<rparr>) t)))}"
    using l(2) lf by auto
  from get_blocks [OF this, of b] have "read_head s = Ok u"
    using r u(1) lf l dat
    by (simp add: read_head_def n_def head_block_def Let_def log_indices_def) (simp add: set_lh_def F_def)
  moreover have "home u i = get32 d (4 + 4 * i)" if "i < ?m" for i
    using fold_list_update [OF l(2) that] uf lf by (simp add: home_def F_def)
  ultimately show ?thesis
    using becomes_keep [OF u(2)] becomes_settled [OF u(2)] uf lf by (simp add: F_def)
qed

section \<open>The loops\<close>

definition upds :: "(nat \<Rightarrow> u32) \<Rightarrow> (nat \<Rightarrow> 'v) \<Rightarrow> nat \<Rightarrow> (u32 \<Rightarrow> 'v) \<Rightarrow> u32 \<Rightarrow> 'v" where
  "upds f c n X = fold (\<lambda>i X. X(f i := c i)) [0..<n] X"

lemma upds_simps [simp]: "upds f c 0 X = X" "upds f c (Suc n) X = (upds f c n X)(f n := c n)"
  by (simp_all add: upds_def)

lemma upds_other: "x \<notin> f ` {..<n} \<Longrightarrow> upds f c n X x = X x"
  by (induction n) (auto simp: lessThan_Suc)

lemma upds_at: "inj_on f {..<n} \<Longrightarrow> j < n \<Longrightarrow> upds f c n X (f j) = c j"
proof (induction n)
  case (Suc n)
  have i: "inj_on f {..<n}" using Suc.prems(1) by (auto simp: inj_on_def)
  show ?case
  proof (cases "j = n")
    case False
    then have "j < n" using Suc.prems(2) by simp
    moreover from this have "f j \<noteq> f n" using Suc.prems(1) False by (auto simp: inj_on_def)
    ultimately show ?thesis using Suc.IH [OF i] by simp
  qed simp
qed simp

text \<open>The place of the log on the disk, and \<open>n\<close> slots of the header that are in order.\<close>

definition log_area :: "'a log_state_scheme \<Rightarrow> u32 set" where
  "log_area s = {word_of_int (log_start s + int j) |j. int j < log_size s}"

definition log_geo :: "nat \<Rightarrow> 'a log_state_scheme \<Rightarrow> bool" where
  "log_geo cap s \<longleftrightarrow> log_dev s = ROOTDEV \<and> 0 \<le> log_start s \<and> 1 \<le> log_size s \<and> log_start s + log_size s \<le> int cap \<and>
     length (lh_block (log_lh s)) = LOGSIZE"

definition fits :: "nat \<Rightarrow> nat \<Rightarrow> 'a log_state_scheme \<Rightarrow> bool" where
  "fits cap n s \<longleftrightarrow> int n < log_size s \<and> n \<le> LOGSIZE \<and> inj_on (home s) {..<n} \<and>
     (\<forall>i < n. unat (home s i) < cap \<and> home s i \<notin> log_area s)"

lemma log_word:
  assumes "log_geo cap s" and "cap \<le> 2 ^ 31" and "int j < log_size s"
  shows "unat (word_of_int (log_start s + int j) :: u32) = nat (log_start s + int j)"
    and "unat (word_of_int (log_start s + int j) :: u32) < cap"
proof -
  have "0 \<le> log_start s + int j" "log_start s + int j < 2 ^ 32" "log_start s + int j < int cap"
    using assms by (auto simp: log_geo_def)
  moreover from this have u: "uint (word_of_int (log_start s + int j) :: u32) = log_start s + int j"
    unfolding uint_word_of_int_eq by (intro take_bit_int_eq_self) simp_all
  ultimately show "unat (word_of_int (log_start s + int j) :: u32) = nat (log_start s + int j)"
    "unat (word_of_int (log_start s + int j) :: u32) < cap"
    unfolding unat_eq_nat_uint u by linarith+
qed

lemma log_blocks:
  assumes "log_geo cap s" and "cap \<le> 2 ^ 31" and "int n < log_size s"
  shows "unat (head_block s) < cap" "head_block s \<in> log_area s"
    "\<And>i. i < n \<Longrightarrow> unat (log_block s i) < cap" "\<And>i. i < n \<Longrightarrow> log_block s i \<in> log_area s"
    "inj_on (log_block s) {..<n}" "\<And>i. i < n \<Longrightarrow> log_block s i \<noteq> head_block s"
proof -
  have l: "log_block s i = word_of_int (log_start s + int (Suc i))" for i by (simp add: log_block_def add_ac)
  have h: "head_block s = word_of_int (log_start s + int 0)" by (simp add: head_block_def)
  have s: "int (Suc i) < log_size s" if "i < n" for i using that assms(3) by linarith
  have z: "int 0 < log_size s" using assms(1) by (simp add: log_geo_def)
  note w = log_word [OF assms(1,2)]
  show "unat (head_block s) < cap" unfolding h by (rule w(2) [OF z])
  show "unat (log_block s i) < cap" if "i < n" for i unfolding l by (rule w(2) [OF s [OF that]])
  show "head_block s \<in> log_area s" "i < n \<Longrightarrow> log_block s i \<in> log_area s" for i
    unfolding h l log_area_def using z s [of i] by blast+
  have g: "0 \<le> log_start s" using assms(1) by (simp add: log_geo_def)
  show "inj_on (log_block s) {..<n}"
  proof (rule inj_onI)
    fix i j assume ij: "i \<in> {..<n}" "j \<in> {..<n}" "log_block s i = log_block s j"
    then have "nat (log_start s + int (Suc i)) = nat (log_start s + int (Suc j))"
      using w(1) [OF s, of i] w(1) [OF s, of j] unfolding l by simp
    then show "i = j" using g by simp
  qed
  show "log_block s i \<noteq> head_block s" if "i < n" for i
  proof
    assume "log_block s i = head_block s"
    then have "nat (log_start s + int (Suc i)) = nat (log_start s + int 0)"
      using w(1) [OF s [OF that]] w(1) [OF z] unfolding l h by simp
    then show False using g by simp
  qed
qed

lemma fits_home:
  assumes "fits cap n s" and "i < n"
  shows "unat (home s i) < cap" "home s i \<notin> log_area s"
  using assms by (simp_all add: fits_def)

text \<open>What the routines of the log need of the cache.\<close>

definition cache_ready :: "nat \<Rightarrow> nat \<Rightarrow> 'a vdisk_scheme \<Rightarrow> bool" where
  "cache_ready p cap s \<longleftrightarrow> view p cap Map.empty s \<and> settle s = s \<and> (\<forall>n. refs s n + 1 < 2 ^ 32) \<and> room (refs s) < NBUF"

lemma cache_ready_becomes:
  assumes "cache_ready p cap s" and "becomes p cap Map.empty s t C D R" and "\<And>x. R x \<le> refs s x"
  shows "cache_ready p cap t"
proof -
  have R: "refs t = R" using becomes_keep(5) [OF assms(2)] .
  have "{n. refs t n \<noteq> 0} \<subseteq> {n. refs s n \<noteq> 0}"
  proof
    fix n assume "n \<in> {n. refs t n \<noteq> 0}"
    then show "n \<in> {n. refs s n \<noteq> 0}" using assms(3) [of n] R by simp
  qed
  then have "room (refs t) \<le> room (refs s)" unfolding room_def by (intro card_mono) simp_all
  moreover have "refs t n + 1 < 2 ^ 32" for n
    using assms(1,3) R by (metis add_le_cancel_right cache_ready_def le_less_trans)
  ultimately show ?thesis
    using assms(1) becomes_keep(1) [OF assms(2)] becomes_settled [OF assms(2)] by (simp add: cache_ready_def)
qed

lemma cache_readyD:
  assumes "cache_ready p cap s"
  shows "view p cap Map.empty s" "settle s = s" "\<And>n. refs s n + 1 < 2 ^ 32" "room (refs s) < NBUF" "cap \<le> 2 ^ 31"
  using assms viewD(3) by (auto simp: cache_ready_def)

lemma log_frame_geo:
  fixes s t :: "'a log_state_scheme"
  assumes "disk_frame s t"
  shows "log_geo cap t = log_geo cap s" "fits cap n t = fits cap n s" "log_block t = log_block s" "home t = home s"
    "head_block t = head_block s" "log_area t = log_area s" "log_indices t = log_indices s"
  using log_frame [OF assms]
  by (simp_all add: log_geo_def fits_def log_block_def [abs_def] home_def [abs_def] head_block_def log_area_def log_indices_def)

lemma write_log_loop:
  fixes s :: "'a log_state_scheme" and n :: nat
  defines "c \<equiv> \<lambda>i. content s ROOTDEV (home s i)"
  assumes r: "cache_ready p cap s" and g: "log_geo cap s" and f: "fits cap n s" and pin: "\<And>i. i < n \<Longrightarrow> refs s (home s i) \<noteq> 0"
    and j: "j \<le> n"
  shows "\<exists>t. foldR write_log_one [0..<j] s = Ok t \<and> becomes p cap Map.empty s t (upds (log_block s) c j (content s ROOTDEV))
    (upds (log_block s) c j (dblock s)) (refs s)"
  using j
proof (induction j)
  case 0
  show ?case using becomes_refl cache_readyD(1,2) [OF r] by auto
next
  case (Suc j)
  have cap: "cap \<le> 2 ^ 31" and sz: "int n < log_size s" using cache_readyD(5) [OF r] f by (simp_all add: fits_def)
  note lb = log_blocks [OF g cap sz]
  obtain t where t: "foldR write_log_one [0..<j] s = Ok t"
    "becomes p cap Map.empty s t (upds (log_block s) c j (content s ROOTDEV)) (upds (log_block s) c j (dblock s)) (refs s)"
    using Suc by auto
  note k = becomes_keep [OF t(2)] and fr = log_frame_geo [OF becomes_keep(2) [OF t(2)]] log_frame [OF becomes_keep(2) [OF t(2)]]
  have tr: "cache_ready p cap t" by (rule cache_ready_becomes [OF r t(2)]) simp
  have jn: "j < n" using Suc.prems by simp
  have lh: "log_block s j \<noteq> home s j" using fits_home(2) [OF f jn] lb(4) [OF jn] by force
  have hm: "home s j \<notin> log_block s ` {..<j}" using fits_home(2) [OF f jn] lb(4) jn by auto
  have ct: "content t ROOTDEV (home s j) = c j" using upds_other [OF hm] k(3) by (simp add: c_def)
  have "\<exists>u. write_log_one j t = Ok u \<and>
      becomes p cap Map.empty t u ((content t ROOTDEV)(log_block t j := content t ROOTDEV (home t j)))
        ((dblock t)(log_block t j := content t ROOTDEV (home t j))) (refs t)"
  proof (rule write_log_one_spec)
    show "log_dev t = ROOTDEV" "j < length (lh_block (log_lh t))" using g f jn fr(10,11) by (simp_all add: log_geo_def fits_def)
    show "log_block t j \<noteq> home t j" unfolding fr(3,4) by (rule lh)
    show "unat (log_block t j) < cap" unfolding fr(3) by (rule lb(3) [OF jn])
    show "unat (home t j) < cap" unfolding fr(4) by (rule fits_home(1) [OF f jn])
    show "refs t (home t j) \<noteq> 0" unfolding fr(4) k(5) by (rule pin [OF jn])
  qed (rule cache_readyD [OF tr])+
  then obtain u where u: "write_log_one j t = Ok u" and b: "becomes p cap Map.empty t u
      ((content t ROOTDEV)(log_block t j := content t ROOTDEV (home t j)))
      ((dblock t)(log_block t j := content t ROOTDEV (home t j))) (refs t)" by blast
  from b have b: "becomes p cap Map.empty t u
      (upds (log_block s) c (Suc j) (content s ROOTDEV)) (upds (log_block s) c (Suc j) (dblock s)) (refs s)"
    unfolding fr(3,4) ct unfolding k(3-5) upds_simps .
  have "foldR write_log_one [0..<Suc j] s = Ok u" using t(1) u by (simp add: foldR_append)
  then show ?case using becomes_trans [OF t(2) b] by blast
qed

definition unpinned :: "bool \<Rightarrow> 'a log_state_scheme \<Rightarrow> nat \<Rightarrow> u32 \<Rightarrow> nat" where
  "unpinned rec s n x = (if \<not> rec \<and> x \<in> home s ` {..<n} then refs s x - 1 else refs s x)"

lemma unpinned_Suc:
  assumes "inj_on (home s) {..<Suc n}"
  shows "unpinned rec s (Suc n) = (if rec then unpinned rec s n
    else (unpinned rec s n)(home s n := unpinned rec s n (home s n) - 1))"
  using assms by (auto simp: unpinned_def fun_eq_iff lessThan_Suc)

lemma install_loop:
  fixes s :: "'a log_state_scheme" and n :: nat
  defines "c \<equiv> \<lambda>i. content s ROOTDEV (log_block s i)"
  assumes r: "cache_ready p cap s" and g: "log_geo cap s" and f: "fits cap n s"
    and pin: "\<not> rec \<Longrightarrow> (\<And>i. i < n \<Longrightarrow> refs s (home s i) \<noteq> 0)" and free: "rec \<Longrightarrow> room (refs s) + 1 < NBUF"
    and j: "j \<le> n"
  shows "\<exists>t. foldR (install_one rec) [0..<j] s = Ok t \<and> becomes p cap Map.empty s t (upds (home s) c j (content s ROOTDEV))
    (upds (home s) c j (dblock s)) (unpinned rec s j)"
  using j
proof (induction j)
  case 0
  show ?case using becomes_refl cache_readyD(1,2) [OF r] by (auto simp: unpinned_def [abs_def])
next
  case (Suc j)
  have cap: "cap \<le> 2 ^ 31" and sz: "int n < log_size s" using cache_readyD(5) [OF r] f by (simp_all add: fits_def)
  note lb = log_blocks [OF g cap sz]
  obtain t where t: "foldR (install_one rec) [0..<j] s = Ok t"
    "becomes p cap Map.empty s t (upds (home s) c j (content s ROOTDEV)) (upds (home s) c j (dblock s)) (unpinned rec s j)"
    using Suc by auto
  note k = becomes_keep [OF t(2)] and fr = log_frame_geo [OF becomes_keep(2) [OF t(2)]] log_frame [OF becomes_keep(2) [OF t(2)]]
  have tr: "cache_ready p cap t" by (rule cache_ready_becomes [OF r t(2)]) (simp add: unpinned_def)
  have jn: "j < n" using Suc.prems by simp
  have inj: "inj_on (home s) {..<Suc j}" using f jn by (auto simp: fits_def intro: inj_on_subset)
  have lh: "log_block s j \<noteq> home s j" using fits_home(2) [OF f jn] lb(4) [OF jn] by force
  have lm: "log_block s j \<notin> home s ` {..<j}" using fits_home(2) [OF f] lb(4) [OF jn] jn by fastforce
  have ct: "content t ROOTDEV (log_block s j) = c j" using upds_other [OF lm] k(3) by (simp add: c_def)
  have "home s j \<notin> home s ` {..<j}" using inj by (simp add: lessThan_Suc)
  then have pj: "\<not> rec \<Longrightarrow> refs t (home s j) \<noteq> 0" using pin [OF _ jn] k(5) by (simp add: unpinned_def)
  have rm: "rec \<Longrightarrow> refs t = refs s" using k(5) by (simp add: unpinned_def fun_eq_iff)
  have "\<exists>u. install_one rec j t = Ok u \<and>
      becomes p cap Map.empty t u ((content t ROOTDEV)(home t j := content t ROOTDEV (log_block t j)))
        ((dblock t)(home t j := content t ROOTDEV (log_block t j)))
        (if rec then refs t else (refs t)(home t j := refs t (home t j) - 1))"
  proof (rule install_one_spec)
    show "log_dev t = ROOTDEV" "j < length (lh_block (log_lh t))" using g f jn fr(10,11) by (simp_all add: log_geo_def fits_def)
    show "log_block t j \<noteq> home t j" unfolding fr(3,4) by (rule lh)
    show "unat (log_block t j) < cap" unfolding fr(3) by (rule lb(3) [OF jn])
    show "unat (home t j) < cap" unfolding fr(4) by (rule fits_home(1) [OF f jn])
    show "refs t (home t j) \<noteq> 0 \<or> room (refs t) + 1 < NBUF" "rec \<or> refs t (home t j) \<noteq> 0"
      using pj rm free unfolding fr(4) by (cases rec; simp)+
  qed (rule cache_readyD [OF tr])+
  then obtain u where u: "install_one rec j t = Ok u" and b: "becomes p cap Map.empty t u
      ((content t ROOTDEV)(home t j := content t ROOTDEV (log_block t j)))
      ((dblock t)(home t j := content t ROOTDEV (log_block t j)))
      (if rec then refs t else (refs t)(home t j := refs t (home t j) - 1))" by blast
  from b have b: "becomes p cap Map.empty t u
      (upds (home s) c (Suc j) (content s ROOTDEV)) (upds (home s) c (Suc j) (dblock s)) (unpinned rec s (Suc j))"
    unfolding fr(3,4) ct unfolding k(3-5) upds_simps unpinned_Suc [OF inj] .
  have "foldR (install_one rec) [0..<Suc j] s = Ok u" using t(1) u by (simp add: foldR_append)
  then show ?case using becomes_trans [OF t(2) b] by blast
qed

section \<open>Recovery\<close>

lemma upds_cong: "(\<And>i. i < n \<Longrightarrow> f i = g i) \<Longrightarrow> (\<And>i. i < n \<Longrightarrow> c i = d i) \<Longrightarrow> upds f c n X = upds g d n X"
  by (induction n) simp_all

lemma content_length:
  assumes "view p cap h s"
  shows "length (content s ROOTDEV n) = BSIZE"
proof -
  obtain xs where c: "cache_ok xs s" using assms by (rule view_cache)
  show ?thesis
    by (auto simp: content_def disk_block_def load_bytes_def dest!: find_SomeD intro: cache_okD(6) [OF c] split: option.split)
qed

definition clear_head :: "'a log_state_scheme \<Rightarrow> 'a log_state_scheme res" where
  "clear_head s = write_head (set_lh (\<lambda>h. h\<lparr>lh_n := 0\<rparr>) s)"

lemma clear_head_spec:
  fixes s :: "'a log_state_scheme"
  defines "n \<equiv> head_block s"
  assumes r: "cache_ready p cap s" and g: "log_geo cap s"
  shows "\<exists>t. clear_head s = Ok t \<and> dblock t = (dblock s)(n := put32 0 0 (content s ROOTDEV n)) \<and>
    content t ROOTDEV = (content s ROOTDEV)(n := put32 0 0 (content s ROOTDEV n)) \<and>
    refs t = refs s \<and> cache_ready p cap t \<and> lh_n (log_lh t) = 0 \<and> log_start t = log_start s \<and> log_size t = log_size s \<and>
    log_geo cap t \<and> outstanding t = outstanding s \<and> committing t = committing s"
proof -
  let ?s = "set_lh (\<lambda>h. h\<lparr>lh_n := 0\<rparr>) s"
  have z: "int 0 < log_size s" using g by (simp add: log_geo_def)
  have r': "cache_ready p cap ?s" and g': "log_geo cap ?s" and hb: "head_block ?s = n"
    using r g by (simp_all add: cache_ready_def log_geo_def head_block_def n_def)
  have "unat n < cap" using log_blocks(1) [OF g cache_readyD(5) [OF r] z] by (simp add: n_def)
  then obtain t where t: "write_head ?s = Ok t" "becomes p cap Map.empty ?s t
      ((content ?s ROOTDEV)(n := hdr_put (log_lh ?s) (content ?s ROOTDEV n)))
      ((dblock ?s)(n := hdr_put (log_lh ?s) (content ?s ROOTDEV n))) (refs ?s)"
    using write_head_spec [of p cap ?s] cache_readyD [OF r'] g' unfolding hb by (auto simp: log_geo_def)
  have "hdr_put (log_lh ?s) d = put32 0 0 d" for d by (simp add: hdr_put_def)
  moreover have "cache_ready p cap t" by (rule cache_ready_becomes [OF r' t(2)]) simp
  ultimately show ?thesis
    using t(1) becomes_keep [OF t(2)] log_frame [OF becomes_keep(2) [OF t(2)]] log_frame_geo(1) [OF becomes_keep(2) [OF t(2)]] g'
    by (simp add: clear_head_def)
qed

definition hdr_count :: "u8 list \<Rightarrow> int" where "hdr_count d = sint (get32 d 0)"
definition hdr_home :: "u8 list \<Rightarrow> nat \<Rightarrow> u32" where "hdr_home d i = get32 d (4 + 4 * i)"

lemma recover_spec:
  fixes r :: "'a log_state_scheme"
  defines "d \<equiv> dblock r (head_block r)"
  defines "m \<equiv> nat (hdr_count d)"
  assumes r: "cache_ready p cap r" and z: "refs r = (\<lambda>_. 0)" and g: "log_geo cap r"
    and m: "int m < log_size r" "m \<le> LOGSIZE" "inj_on (hdr_home d) {..<m}"
      "\<And>i. i < m \<Longrightarrow> unat (hdr_home d i) < cap" "\<And>i. i < m \<Longrightarrow> hdr_home d i \<notin> log_area r"
  shows "\<exists>u. recover_from_log r = Ok u \<and> cache_ready p cap u \<and> lh_n (log_lh u) = 0 \<and>
    dblock u = (upds (hdr_home d) (\<lambda>i. dblock r (log_block r i)) m (dblock r))(head_block r := put32 0 0 d)"
proof -
  have c: "content r ROOTDEV = dblock r" by (rule ext, rule refs_clean [OF cache_readyD(1) [OF r]]) (simp add: z)
  have cap: "cap \<le> 2 ^ 31" by (rule cache_readyD(5) [OF r])
  note lb = log_blocks [OF g cap m(1)]
  have g1: "log_dev r = ROOTDEV" "length (lh_block (log_lh r)) = LOGSIZE" using g by (simp_all add: log_geo_def)
  have "nat (sint (get32 (content r ROOTDEV (head_block r)) 0)) \<le> length (lh_block (log_lh r))"
    using m(2) g1(2) by (simp add: c m_def d_def hdr_count_def)
  from read_head_spec [OF cache_readyD(1) [OF r] g1(1) this lb(1) cache_readyD(3,4) [OF r]]
  obtain t where t: "read_head r = Ok t" "view p cap Map.empty t" "settle t = t" "content t ROOTDEV = dblock r" "dblock t = dblock r"
    "refs t = (\<lambda>_. 0)" "log_start t = log_start r" "log_size t = log_size r" "log_dev t = ROOTDEV"
    "lh_n (log_lh t) = hdr_count d" "length (lh_block (log_lh t)) = LOGSIZE"
    and hm: "\<And>i. i < m \<Longrightarrow> home t i = hdr_home d i"
    unfolding c z d_def [symmetric] hdr_count_def [symmetric] m_def [symmetric] hdr_home_def [symmetric] g1 by auto
  have tr: "cache_ready p cap t" using t(2,3,6) by (simp add: cache_ready_def room_def)
  have tg: "log_geo cap t" using g t(7-9,11) by (simp add: log_geo_def)
  have ta: "log_area t = log_area r" "log_block t = log_block r" "head_block t = head_block r"
    using t(7,8) by (simp_all add: log_area_def log_block_def [abs_def] head_block_def)
  have "inj_on (home t) {..<m}" using m(3) hm by (auto simp: inj_on_def)
  then have tf: "fits cap m t" using m hm t(8) ta(1) by (simp add: fits_def)
  have "\<exists>v. foldR (install_one True) [0..<m] t = Ok v \<and> becomes p cap Map.empty t v
      (upds (home t) (\<lambda>i. content t ROOTDEV (log_block t i)) m (content t ROOTDEV))
      (upds (home t) (\<lambda>i. content t ROOTDEV (log_block t i)) m (dblock t)) (unpinned True t m)"
    by (rule install_loop [OF tr tg tf]) (simp_all add: t(6) room_def)
  moreover have "upds (home t) (\<lambda>i. dblock r (log_block r i)) m (dblock r) = upds (hdr_home d) (\<lambda>i. dblock r (log_block r i)) m (dblock r)"
    by (rule upds_cong) (simp_all add: hm)
  moreover have "unpinned True t m = (\<lambda>_. 0)" by (simp add: unpinned_def fun_eq_iff t(6))
  ultimately obtain v where v: "foldR (install_one True) [0..<m] t = Ok v" "becomes p cap Map.empty t v
      (upds (hdr_home d) (\<lambda>i. dblock r (log_block r i)) m (dblock r))
      (upds (hdr_home d) (\<lambda>i. dblock r (log_block r i)) m (dblock r)) (\<lambda>_. 0)"
    unfolding t(4,5) ta by metis
  note kv = becomes_keep [OF v(2)] and fv = log_frame_geo [OF becomes_keep(2) [OF v(2)]]
  have vr: "cache_ready p cap v" by (rule cache_ready_becomes [OF tr v(2)]) simp
  have "head_block r \<notin> hdr_home d ` {..<m}" using m(5) lb(2) by auto
  from upds_other [OF this] have ch: "content v ROOTDEV (head_block r) = d" unfolding kv(3) by (simp add: d_def)
  obtain u where u: "clear_head v = Ok u" "cache_ready p cap u" "lh_n (log_lh u) = 0"
    "dblock u = (dblock v)(head_block r := put32 0 0 d)"
    using clear_head_spec [OF vr] tg fv ch ta(3) by auto
  have "recover_from_log r = Ok u"
    using t(1,10) v(1) u(1) by (simp add: recover_from_log_def install_trans_def log_indices_def clear_head_def m_def)
  then show ?thesis using u(2-4) kv(4) by metis
qed

section \<open>The steps of a commit\<close>

text \<open>\<open>commit\<close> as the list of its steps, each of which writes one block of the disk.\<close>

definition commit_steps :: "'a log_state_scheme \<Rightarrow> ('a log_state_scheme \<Rightarrow> 'a log_state_scheme res) list" where
  "commit_steps s = (let n = nat (lh_n (log_lh s))
     in map write_log_one [0..<n] @ [write_head] @ map (install_one False) [0..<n] @ [clear_head])"

definition run_steps :: "('s \<Rightarrow> 's res) list \<Rightarrow> 's \<Rightarrow> 's res" where
  "run_steps fs s = foldR (\<lambda>f. f) fs s"

lemma run_steps_simps [simp]:
  "run_steps [] s = Ok s" "run_steps (f # fs) s = bindR (f s) (run_steps fs)"
  "run_steps (fs @ gs) s = bindR (run_steps fs s) (run_steps gs)"
  by (simp_all add: run_steps_def [abs_def] foldR_append)

lemma run_steps_map: "run_steps (map f xs) s = foldR f xs s"
  by (induction xs arbitrary: s) (auto simp: run_steps_def [symmetric] intro: arg_cong2 [of _ _ _ _ bindR])

lemma lh_of_more: "vdisk.more t = vdisk.more s \<Longrightarrow> log_lh t = log_lh (s :: 'a log_state_scheme)"
  by (cases s; cases t; simp)

lemma write_log_one_lh: "write_log_one i s = Ok t \<Longrightarrow> log_lh t = log_lh s"
  by (rule lh_of_more)
    (auto simp: write_log_one_def set_bdata_def split: prod.splits elim!: bindR_OkE dest!: buffer_more)

lemma write_log_lh: "write_log s = Ok t \<Longrightarrow> log_lh t = log_lh s"
  unfolding write_log_def by (rule foldR_inv [where P = "\<lambda>t. log_lh t = log_lh s"]) (auto dest: write_log_one_lh)

lemma write_head_lh: "write_head s = Ok t \<Longrightarrow> log_lh t = log_lh s"
proof -
  have put: "vdisk.more u = vdisk.more v" if "foldR (\<lambda>i s. bindR (arr_get (lh_block (log_lh s)) i) (\<lambda>bno.
      Ok (set_bdata b (put32 (4 + 4 * i) bno (bdata s b)) s))) is v = Ok u" for b "is" and u v :: "'a log_state_scheme"
    using that by (rule foldR_inv [where P = "\<lambda>u. vdisk.more u = vdisk.more v"]) (auto simp: set_bdata_def elim!: bindR_OkE)
  assume "write_head s = Ok t"
  then have "vdisk.more t = vdisk.more s"
    by (auto simp: write_head_def set_bdata_def Let_def split: prod.splits elim!: bindR_OkE dest!: buffer_more put [unfolded set_bdata_def])
  then show ?thesis by (rule lh_of_more)
qed

text \<open>In every state, whatever the disk does and whichever step fails, \<open>commit\<close> of a transaction is its steps in their order.\<close>

lemma commit_run_steps:
  fixes s :: "'a log_state_scheme"
  assumes "0 < lh_n (log_lh s)"
  shows "commit s = run_steps (commit_steps s) s"
proof -
  let ?n = "nat (lh_n (log_lh s))"
  have "bindR (write_log s) (\<lambda>s. bindR (write_head s) (\<lambda>s. bindR (install_trans False s) clear_head)) =
      bindR (write_log s) (\<lambda>s. bindR (write_head s) (\<lambda>s. bindR (foldR (install_one False) [0..<?n] s) clear_head))"
    by (cases "write_log s")
      (auto simp: install_trans_def log_indices_def dest!: write_log_lh write_head_lh intro!: bindR_cong)
  moreover have c: "run_steps [clear_head] = (clear_head :: 'a log_state_scheme \<Rightarrow> _)"
  proof
    fix u :: "'a log_state_scheme"
    show "run_steps [clear_head] u = clear_head u" by (cases "clear_head u") simp_all
  qed
  have "run_steps ([write_head] @ map (install_one False) [0..<?n] @ [clear_head]) =
      (\<lambda>s. bindR (write_head s) (\<lambda>s. bindR (foldR (install_one False) [0..<?n] s) (clear_head :: 'a log_state_scheme \<Rightarrow> _)))"
    by (rule ext) (auto simp: run_steps_map c intro!: bindR_cong)
  ultimately show ?thesis
    using assms by (simp add: commit_def commit_steps_def Let_def run_steps_map clear_head_def [abs_def, symmetric] write_log_def
        log_indices_def del: append.append_Cons append.append_Nil run_steps_simps(2))
qed

text \<open>A transaction that is ready to commit: its blocks are pinned in the cache, and the log on the disk is empty.\<close>

definition transaction :: "nat \<Rightarrow> nat \<Rightarrow> 'a log_state_scheme \<Rightarrow> bool" where
  "transaction p cap s \<longleftrightarrow> (let n = nat (lh_n (log_lh s)) in
     cache_ready p cap s \<and> log_geo cap s \<and> 0 < lh_n (log_lh s) \<and> fits cap n s \<and>
     (\<forall>i < n. refs s (home s i) \<noteq> 0) \<and> hdr_count (dblock s (head_block s)) = 0)"

text \<open>The disk after \<open>k\<close> steps.\<close>

definition new_head :: "'a log_state_scheme \<Rightarrow> u8 list" where
  "new_head s = hdr_put (log_lh s) (content s ROOTDEV (head_block s))"

definition logged :: "'a log_state_scheme \<Rightarrow> nat \<Rightarrow> u8 list" where
  "logged s i = content s ROOTDEV (home s i)"

definition disk_after :: "'a log_state_scheme \<Rightarrow> nat \<Rightarrow> u32 \<Rightarrow> u8 list" where
  "disk_after s k = (let n = nat (lh_n (log_lh s)); D = (upds (log_block s) (logged s) n (dblock s))(head_block s := new_head s)
     in if k \<le> n then upds (log_block s) (logged s) k (dblock s)
        else if k \<le> 2 * n + 1 then upds (home s) (logged s) (k - n - 1) D
        else (upds (home s) (logged s) n D)(head_block s := put32 0 0 (new_head s)))"

lemma install_phase:
  assumes tx: "transaction p cap s" and n: "n = nat (lh_n (log_lh s))" and j: "j \<le> n"
  obtains t1 t2 t where "foldR write_log_one [0..<n] s = Ok t1" "write_head t1 = Ok t2" "foldR (install_one False) [0..<j] t2 = Ok t"
    "cache_ready p cap t" "disk_frame s t2" "disk_frame s t" "dblock t = disk_after s (n + 1 + j)" "j = n \<Longrightarrow> content t ROOTDEV (head_block s) = new_head s"
proof -
  have r: "cache_ready p cap s" and g: "log_geo cap s" and f: "fits cap n s" and pin: "\<And>i. i < n \<Longrightarrow> refs s (home s i) \<noteq> 0"
    using tx by (simp_all add: transaction_def n Let_def)
  have cap: "cap \<le> 2 ^ 31" and sz: "int n < log_size s" using cache_readyD(5) [OF r] f by (simp_all add: fits_def)
  note lb = log_blocks [OF g cap sz]
  let ?C1 = "upds (log_block s) (logged s) n (content s ROOTDEV)" and ?D1 = "upds (log_block s) (logged s) n (dblock s)"
  obtain t1 where t1: "foldR write_log_one [0..<n] s = Ok t1" "becomes p cap Map.empty s t1 ?C1 ?D1 (refs s)"
    using write_log_loop [OF r g f pin order.refl] unfolding logged_def [abs_def] by blast
  note k1 = becomes_keep [OF t1(2)] and f1 = log_frame [OF becomes_keep(2) [OF t1(2)]] log_frame_geo [OF becomes_keep(2) [OF t1(2)]]
  have r1: "cache_ready p cap t1" by (rule cache_ready_becomes [OF r t1(2)]) simp
  have "head_block s \<notin> log_block s ` {..<n}" using lb(6) by force
  then have c1: "content t1 ROOTDEV (head_block s) = content s ROOTDEV (head_block s)" unfolding k1(3) by (rule upds_other)
  have "\<exists>t2. write_head t1 = Ok t2 \<and> becomes p cap Map.empty t1 t2
      ((content t1 ROOTDEV)(head_block t1 := hdr_put (log_lh t1) (content t1 ROOTDEV (head_block t1))))
      ((dblock t1)(head_block t1 := hdr_put (log_lh t1) (content t1 ROOTDEV (head_block t1)))) (refs t1)"
  proof (rule write_head_spec)
    show "log_dev t1 = ROOTDEV" "nat (lh_n (log_lh t1)) \<le> length (lh_block (log_lh t1))" "unat (head_block t1) < cap"
      using g f lb(1) unfolding f1 by (simp_all add: log_geo_def fits_def n)
  qed (rule cache_readyD [OF r1])+
  then obtain t2 where t2: "write_head t1 = Ok t2"
    and b2: "becomes p cap Map.empty t1 t2
      ((content t1 ROOTDEV)(head_block t1 := hdr_put (log_lh t1) (content t1 ROOTDEV (head_block t1))))
      ((dblock t1)(head_block t1 := hdr_put (log_lh t1) (content t1 ROOTDEV (head_block t1)))) (refs t1)" by blast
  from b2 have b2: "becomes p cap Map.empty t1 t2 (?C1(head_block s := new_head s)) (?D1(head_block s := new_head s)) (refs s)"
    unfolding f1(4,11) c1 new_head_def [symmetric] unfolding k1(3-5) .
  note k2 = becomes_keep [OF b2] and f2 = log_frame_geo [OF becomes_keep(2) [OF becomes_trans [OF t1(2) b2]]]
  have r2: "cache_ready p cap t2" by (rule cache_ready_becomes [OF r1 b2]) (simp add: k1(5))
  have c2: "content t2 ROOTDEV (log_block s i) = logged s i" if "i < n" for i
    using upds_at [OF lb(5) that] lb(6) [OF that] unfolding k2(3) by simp
  have "\<exists>t. foldR (install_one False) [0..<j] t2 = Ok t \<and> becomes p cap Map.empty t2 t
      (upds (home t2) (\<lambda>i. content t2 ROOTDEV (log_block t2 i)) j (content t2 ROOTDEV))
      (upds (home t2) (\<lambda>i. content t2 ROOTDEV (log_block t2 i)) j (dblock t2)) (unpinned False t2 j)"
    by (rule install_loop [OF r2 _ _ _ _ j]) (use g f pin k2(5) f2 in simp_all)
  moreover have "upds (home s) (\<lambda>i. content t2 ROOTDEV (log_block s i)) j X = upds (home s) (logged s) j X" for X
    by (rule upds_cong) (use c2 j in simp_all)
  ultimately obtain t where t: "foldR (install_one False) [0..<j] t2 = Ok t" "becomes p cap Map.empty t2 t
      (upds (home s) (logged s) j (?C1(head_block s := new_head s)))
      (upds (home s) (logged s) j (?D1(head_block s := new_head s))) (unpinned False t2 j)"
    unfolding f2 k2(3,4) by metis
  have r3: "cache_ready p cap t" by (rule cache_ready_becomes [OF r2 t(2)]) (simp add: unpinned_def)
  have "head_block s \<notin> home s ` {..<j}" using fits_home(2) [OF f] lb(2) j by fastforce
  then have "content t ROOTDEV (head_block s) = new_head s" using becomes_keep(3) [OF t(2)] by (simp add: upds_other)
  moreover have "dblock t = disk_after s (n + 1 + j)"
    using becomes_keep(4) [OF t(2)] j by (simp add: disk_after_def n Let_def)
  moreover have "disk_frame s t2" using becomes_keep(2) [OF becomes_trans [OF t1(2) b2]] .
  ultimately show thesis
    using that [OF t1(1) t2 t(1) r3] disk_frame_trans [OF _ becomes_keep(2) [OF t(2)]] by blast
qed

lemma transactionD:
  assumes "transaction p cap s" and "n = nat (lh_n (log_lh s))"
  shows "cache_ready p cap s" "log_geo cap s" "fits cap n s" "\<And>i. i < n \<Longrightarrow> refs s (home s i) \<noteq> 0" "0 < n"
    "hdr_count (dblock s (head_block s)) = 0" "int n < log_size s" "cap \<le> 2 ^ 31" "inj_on (home s) {..<n}" "n \<le> LOGSIZE"
  using assms cache_readyD(5) by (auto simp: transaction_def Let_def fits_def)

lemma prefix_run:
  assumes tx: "transaction p cap s" and n: "n = nat (lh_n (log_lh s))" and k: "k \<le> 2 * n + 2"
  shows "\<exists>t. run_steps (take k (commit_steps s)) s = Ok t \<and> dblock t = disk_after s k \<and>
    (k = 2 * n + 2 \<longrightarrow> commit s = Ok t \<and> lh_n (log_lh t) = 0 \<and> cache_ready p cap t \<and>
      outstanding t = outstanding s \<and> committing t = committing s)"
proof -
  note td = transactionD [OF tx n]
  have "k \<le> n \<or> (\<exists>j. k = n + 1 + j \<and> j \<le> n) \<or> k = 2 * n + 2" using k by presburger
  then consider "k \<le> n" | j where "k = n + 1 + j" "j \<le> n" | "k = 2 * n + 2" by blast
  then show ?thesis
  proof cases
    case 1
    then have "take k (commit_steps s) = map write_log_one [0..<k]"
      by (simp add: commit_steps_def n [symmetric] Let_def take_map)
    moreover obtain t where "foldR write_log_one [0..<k] s = Ok t" "dblock t = upds (log_block s) (logged s) k (dblock s)"
      using write_log_loop [OF td(1-4) 1] unfolding logged_def [abs_def] by (blast dest: becomes_keep(4))
    ultimately show ?thesis using 1 by (simp add: run_steps_map disk_after_def n [symmetric] Let_def)
  next
    case (2 j)
    then have "take k (commit_steps s) = map write_log_one [0..<n] @ [write_head] @ map (install_one False) [0..<j]"
      by (simp add: commit_steps_def n [symmetric] Let_def take_map)
    moreover obtain t1 t2 t where "foldR write_log_one [0..<n] s = Ok t1" "write_head t1 = Ok t2"
      "foldR (install_one False) [0..<j] t2 = Ok t" "dblock t = disk_after s k"
      by (rule install_phase [OF tx n 2(2)]) (simp add: 2)
    ultimately show ?thesis using 2 by (simp add: run_steps_map)
  next
    case 3
    then have st: "take k (commit_steps s) = map write_log_one [0..<n] @ [write_head] @ map (install_one False) [0..<n] @ [clear_head]"
      by (simp add: commit_steps_def n [symmetric] Let_def take_map)
    obtain t1 t2 t where t: "foldR write_log_one [0..<n] s = Ok t1" "write_head t1 = Ok t2" "foldR (install_one False) [0..<n] t2 = Ok t"
      "cache_ready p cap t" "disk_frame s t2" "disk_frame s t" "dblock t = disk_after s (n + 1 + n)"
      "content t ROOTDEV (head_block s) = new_head s"
      by (rule install_phase [OF tx n order.refl]) simp
    note fr = log_frame_geo [OF t(6)]
    obtain u where u: "clear_head t = Ok u" "dblock u = (dblock t)(head_block s := put32 0 0 (new_head s))" "lh_n (log_lh u) = 0"
      "cache_ready p cap u" "outstanding u = outstanding s" "committing u = committing s"
      using clear_head_spec [OF t(4)] td(2) fr t(8) log_frame(5,6) [OF t(6)] by auto
    have "log_indices t2 = [0..<n]" "log_indices s = [0..<n]" using log_frame_geo(7) [OF t(5)] by (simp_all add: log_indices_def n)
    then have "commit s = Ok u"
      using t(1-3) u(1) td(5) by (simp add: commit_def write_log_def install_trans_def clear_head_def n)
    then show ?thesis
      using st t u 3 td(5) by (simp add: run_steps_map disk_after_def n [symmetric] Let_def)
  qed
qed

text \<open>A machine that starts with a disk: an empty cache, and the place of the log from the superblock.\<close>

definition rebooted :: "nat \<Rightarrow> nat \<Rightarrow> 'a log_state_scheme \<Rightarrow> (u32 \<Rightarrow> u8 list) \<Rightarrow> 'a log_state_scheme \<Rightarrow> bool" where
  "rebooted p cap s D r \<longleftrightarrow> cache_ready p cap r \<and> refs r = (\<lambda>_. 0) \<and> log_geo cap r \<and> log_start r = log_start s \<and>
     log_size r = log_size s \<and> dblock r = D"

text \<open>The disk after the transaction, outside the log.\<close>

definition committed :: "'a log_state_scheme \<Rightarrow> u32 \<Rightarrow> u8 list" where
  "committed s x = (if x \<in> home s ` {..<nat (lh_n (log_lh s))} then content s ROOTDEV x else dblock s x)"

lemma upds_home:
  assumes "inj_on (home s) {..<n}" and "n = nat (lh_n (log_lh s))" and "X x = dblock s x"
  shows "upds (home s) (logged s) n X x = committed s x"
proof (cases "x \<in> home s ` {..<n}")
  case True
  then obtain i where i: "i < n" "x = home s i" by auto
  from upds_at [OF assms(1) i(1), of "logged s" X] show ?thesis using True i(2) assms(2) by (simp add: committed_def logged_def)
next
  case False
  from upds_other [OF this, of "logged s" X] show ?thesis using False assms(2,3) by (simp add: committed_def)
qed

lemma apart:
  assumes tx: "transaction p cap s" and n: "n = nat (lh_n (log_lh s))" and i: "i \<le> n"
  shows "head_block s \<notin> log_block s ` {..<i}" "head_block s \<notin> home s ` {..<i}"
    "\<And>j. j < n \<Longrightarrow> log_block s j \<notin> home s ` {..<i}"
    "\<And>x. x \<notin> log_area s \<Longrightarrow> x \<notin> log_block s ` {..<i}" "\<And>x. x \<notin> log_area s \<Longrightarrow> x \<noteq> head_block s"
proof -
  note td = transactionD [OF tx n]
  note lb = log_blocks [OF td(2,8,7)]
  have h: "home s j \<notin> log_area s" if "j < i" for j using fits_home(2) [OF td(3)] that i by simp
  have l: "log_block s j \<in> log_area s" "head_block s \<noteq> log_block s j" if "j < i" for j
    using lb(4) [of j] lb(6) [of j] that i by auto
  show "head_block s \<notin> log_block s ` {..<i}" using l(2) by blast
  have "y \<notin> home s ` {..<i}" if "y \<in> log_area s" for y using h that by auto
  then show "head_block s \<notin> home s ` {..<i}" "j < n \<Longrightarrow> log_block s j \<notin> home s ` {..<i}" for j
    using lb(2) lb(4) [of j] by simp_all
  show "x \<notin> log_area s \<Longrightarrow> x \<notin> log_block s ` {..<i}" for x using l(1) by auto
  show "x \<notin> log_area s \<Longrightarrow> x \<noteq> head_block s" for x using lb(2) by auto
qed

lemma new_head_facts:
  assumes tx: "transaction p cap s" and n: "n = nat (lh_n (log_lh s))"
  shows "hdr_count (new_head s) = int n" "\<And>i. i < n \<Longrightarrow> hdr_home (new_head s) i = home s i"
    "hdr_count (put32 0 0 (new_head s)) = 0"
proof -
  note td = transactionD [OF tx n]
  have len: "length (content s ROOTDEV (head_block s)) = BSIZE" by (rule content_length [OF cache_readyD(1) [OF td(1)]])
  have lh: "0 \<le> lh_n (log_lh s)" "lh_n (log_lh s) \<le> int LOGSIZE" "lh_n (log_lh s) = int n" using td(5,10) n by auto
  note nh = hdr_put_get [OF len lh(1,2), folded new_head_def hdr_count_def hdr_home_def n]
  show "hdr_count (new_head s) = int n" "\<And>i. i < n \<Longrightarrow> hdr_home (new_head s) i = home s i"
    using nh lh(3) by (simp_all add: home_def)
  show "hdr_count (put32 0 0 (new_head s)) = 0" using len by (simp add: hdr_count_def new_head_def)
qed

text \<open>Before the header is written the log on the disk is empty and the home blocks are old; after the header
  is cleared again they are new; in between the log holds the new contents.\<close>

lemma disk_before:
  assumes tx: "transaction p cap s" and n: "n = nat (lh_n (log_lh s))" and k: "k \<le> n"
  shows "hdr_count (disk_after s k (head_block s)) = 0" "\<And>x. x \<notin> log_area s \<Longrightarrow> disk_after s k x = dblock s x"
proof -
  have dk: "disk_after s k = upds (log_block s) (logged s) k (dblock s)" using k by (simp add: disk_after_def n [symmetric])
  note ap = apart [OF tx n k]
  show "hdr_count (disk_after s k (head_block s)) = 0" unfolding dk upds_other [OF ap(1)] by (rule transactionD(6) [OF tx n])
  show "disk_after s k x = dblock s x" if "x \<notin> log_area s" for x unfolding dk by (rule upds_other [OF ap(4) [OF that]])
qed

definition logged_disk :: "'a log_state_scheme \<Rightarrow> u32 \<Rightarrow> u8 list" where
  "logged_disk s = (upds (log_block s) (logged s) (nat (lh_n (log_lh s))) (dblock s))(head_block s := new_head s)"

lemma logged_disk_outside:
  assumes tx: "transaction p cap s" and "x \<notin> log_area s"
  shows "logged_disk s x = dblock s x"
  using upds_other [OF apart(4) [OF tx refl order.refl assms(2)], of "logged s" "dblock s"] apart(5) [OF tx refl order.refl assms(2)]
  by (simp add: logged_disk_def)

lemma disk_between:
  assumes tx: "transaction p cap s" and n: "n = nat (lh_n (log_lh s))" and k: "n < k" "k \<le> 2 * n + 1"
  shows "disk_after s k (head_block s) = new_head s" "\<And>i. i < n \<Longrightarrow> disk_after s k (log_block s i) = logged s i"
    "\<And>x. x \<notin> log_area s \<Longrightarrow> upds (home s) (logged s) n (disk_after s k) x = committed s x"
proof -
  note td = transactionD [OF tx n]
  note lb = log_blocks [OF td(2,8,7)]
  have dk: "disk_after s k = upds (home s) (logged s) (k - n - 1) (logged_disk s)"
    using k by (simp add: disk_after_def logged_disk_def n [symmetric] Let_def)
  have kn: "k - n - 1 \<le> n" using k by simp
  note ap = apart [OF tx n kn]
  show "disk_after s k (head_block s) = new_head s" unfolding dk upds_other [OF ap(2)] by (simp add: logged_disk_def)
  show "disk_after s k (log_block s i) = logged s i" if "i < n" for i
    unfolding dk upds_other [OF ap(3) [OF that]] using upds_at [OF lb(5) that, of "logged s" "dblock s"] lb(6) [OF that]
    by (simp add: logged_disk_def n)
  fix x assume x: "x \<notin> log_area s"
  show "upds (home s) (logged s) n (disk_after s k) x = committed s x"
  proof (cases "x \<in> home s ` {..<n}")
    case True
    then obtain i where i: "i < n" "x = home s i" by auto
    from upds_at [OF td(9) i(1), of "logged s" "disk_after s k"] show ?thesis
      using True i(2) by (simp add: committed_def logged_def n)
  next
    case False
    then have "x \<notin> home s ` {..<k - n - 1}" using kn by auto
    then show ?thesis
      using False logged_disk_outside [OF tx x] upds_other [OF False, of "logged s" "disk_after s k"]
      by (simp add: dk upds_other committed_def n)
  qed
qed

lemma disk_finished:
  assumes tx: "transaction p cap s" and n: "n = nat (lh_n (log_lh s))"
  shows "hdr_count (disk_after s (2 * n + 2) (head_block s)) = 0"
    "\<And>x. x \<notin> log_area s \<Longrightarrow> disk_after s (2 * n + 2) x = committed s x"
proof -
  have dk: "disk_after s (2 * n + 2) = (upds (home s) (logged s) n (logged_disk s))(head_block s := put32 0 0 (new_head s))"
    using transactionD(5) [OF tx n] by (simp add: disk_after_def logged_disk_def n [symmetric] Let_def)
  show "hdr_count (disk_after s (2 * n + 2) (head_block s)) = 0" unfolding dk by (simp add: new_head_facts(3) [OF tx n])
  show "disk_after s (2 * n + 2) x = committed s x" if x: "x \<notin> log_area s" for x
    using upds_home [OF transactionD(9) [OF tx n] n, of "logged_disk s" x, OF logged_disk_outside [OF tx x]] apart(5) [OF tx n order.refl x]
    unfolding dk by simp
qed

lemma recovery_of_disk:
  assumes tx: "transaction p cap s" and n: "n = nat (lh_n (log_lh s))" and k: "k \<le> 2 * n + 2"
    and b: "rebooted p cap s (disk_after s k) r"
  shows "\<exists>u. recover_from_log r = Ok u \<and> cache_ready p cap u \<and> lh_n (log_lh u) = 0 \<and>
    (\<forall>x. x \<notin> log_area s \<longrightarrow> dblock u x = (if k \<le> n then dblock s x else committed s x))"
proof -
  note td = transactionD [OF tx n]
  have r: "cache_ready p cap r" "refs r = (\<lambda>_. 0)" "log_geo cap r" and D: "dblock r = disk_after s k"
    and e: "head_block r = head_block s" "log_block r = log_block s" "log_area r = log_area s" "log_size r = log_size s"
    using b by (simp_all add: rebooted_def head_block_def log_block_def [abs_def] log_area_def)
  let ?d = "disk_after s k (head_block s)"
  have out: "x \<noteq> head_block s" if "x \<notin> log_area s" for x by (rule apart(5) [OF tx n order.refl that])
  have nop: "\<exists>u. recover_from_log r = Ok u \<and> cache_ready p cap u \<and> lh_n (log_lh u) = 0 \<and>
      (\<forall>x. x \<notin> log_area s \<longrightarrow> dblock u x = disk_after s k x)" if "hdr_count ?d = 0"
  proof -
    have "\<exists>u. recover_from_log r = Ok u \<and> cache_ready p cap u \<and> lh_n (log_lh u) = 0 \<and>
        dblock u = (disk_after s k)(head_block s := put32 0 0 ?d)"
      using recover_spec [OF r] td(7) that unfolding D e by simp
    then show ?thesis using out by auto
  qed
  consider "k \<le> n" | "n < k" "k \<le> 2 * n + 1" | "k = 2 * n + 2" using k by linarith
  then show ?thesis
  proof cases
    case 1
    then show ?thesis using nop disk_before [OF tx n 1] by auto
  next
    case 2
    note db = disk_between [OF tx n 2]
    have h: "hdr_home ?d i = home s i" if "i < n" for i unfolding db(1) by (rule new_head_facts(2) [OF tx n that])
    have c: "nat (hdr_count ?d) = n" unfolding db(1) new_head_facts(1) [OF tx n] by simp
    have "inj_on (hdr_home ?d) {..<n}" using td(9) h by (auto simp: inj_on_def)
    then have "\<exists>u. recover_from_log r = Ok u \<and> cache_ready p cap u \<and> lh_n (log_lh u) = 0 \<and>
        dblock u = (upds (hdr_home ?d) (\<lambda>i. disk_after s k (log_block s i)) n (disk_after s k))(head_block s := put32 0 0 ?d)"
      using recover_spec [OF r] td(7,10) fits_home [OF td(3)] h unfolding D e c by simp
    moreover have "upds (hdr_home ?d) (\<lambda>i. disk_after s k (log_block s i)) n (disk_after s k) = upds (home s) (logged s) n (disk_after s k)"
      by (rule upds_cong) (simp_all add: h db(2))
    ultimately show ?thesis using out db(3) 2(1) by auto
  next
    case 3
    then have "\<not> k \<le> n" by simp
    then show ?thesis using nop disk_finished [OF tx n, folded 3] by auto
  qed
qed

section \<open>Building a transaction\<close>

lemma log_mach_frame [simp]:
  "same_mach u (s\<lparr>log_lh := X\<rparr>) = same_mach u s" "at_mach u (s\<lparr>log_lh := X\<rparr>) = (at_mach u s)\<lparr>log_lh := X\<rparr>"
  "same_mach u (s\<lparr>outstanding := Y\<rparr>) = same_mach u s" "at_mach u (s\<lparr>outstanding := Y\<rparr>) = (at_mach u s)\<lparr>outstanding := Y\<rparr>"
  "cpu_ok (s\<lparr>log_lh := X\<rparr>) = cpu_ok s" "lock_free l (s\<lparr>log_lh := X\<rparr>) = lock_free l s"
  "settle (s\<lparr>log_lh := X\<rparr>) = (settle s)\<lparr>log_lh := X\<rparr>"
  by (simp_all add: same_mach_def at_mach_def settle_def cpu_ok_def lock_free_def mach_defs)

lemma log_grab [simp]:
  "log_lh (grab l s) = log_lh s" "outstanding (grab l s) = outstanding s" "log_size (grab l s) = log_size s"
  "committing (grab l s) = committing s" "log_indices (grab l s) = log_indices s"
  "log_lh (settle s) = log_lh s" "outstanding (settle s) = outstanding s"
  by (simp_all add: grab_def settle_def log_indices_def)

lemma log_lh_idem: "log_lh t = X \<Longrightarrow> t\<lparr>log_lh := X\<rparr> = t"
  by auto

lemma absorb_find:
  assumes "set is \<subseteq> {..<length (lh_block (log_lh s))}"
  shows "absorb bno is s = Ok (case List.find (\<lambda>i. lh_block (log_lh s) ! i = bno) is of Some i \<Rightarrow> i | None \<Rightarrow> nat (lh_n (log_lh s)))"
  using assms by (induction "is") (auto simp: arr_get_def)

lemma absorb_indices:
  assumes "nat (lh_n (log_lh s)) \<le> length (lh_block (log_lh s))"
  shows "bno \<in> home s ` {..<nat (lh_n (log_lh s))} \<Longrightarrow>
      \<exists>i < nat (lh_n (log_lh s)). absorb bno (log_indices s) s = Ok i \<and> lh_block (log_lh s) ! i = bno"
    and "bno \<notin> home s ` {..<nat (lh_n (log_lh s))} \<Longrightarrow> absorb bno (log_indices s) s = Ok (nat (lh_n (log_lh s)))"
proof -
  let ?f = "List.find (\<lambda>i. lh_block (log_lh s) ! i = bno) (log_indices s)"
  have a: "absorb bno (log_indices s) s = Ok (case ?f of Some i \<Rightarrow> i | None \<Rightarrow> nat (lh_n (log_lh s)))"
    by (rule absorb_find) (use assms in \<open>auto simp: log_indices_def\<close>)
  { assume h: "bno \<in> home s ` {..<nat (lh_n (log_lh s))}"
    then have "?f \<noteq> None" by (auto simp: find_None_iff log_indices_def home_def)
    then obtain i where "?f = Some i" by blast
    with find_SomeD [OF this] a show "\<exists>i < nat (lh_n (log_lh s)). absorb bno (log_indices s) s = Ok i \<and> lh_block (log_lh s) ! i = bno"
      by (auto simp: log_indices_def) }
  { assume "bno \<notin> home s ` {..<nat (lh_n (log_lh s))}"
    then have "?f = None" by (auto simp: find_None_iff log_indices_def home_def)
    then show "absorb bno (log_indices s) s = Ok (nat (lh_n (log_lh s)))" using a by simp }
qed

lemma log_write_eq:
  assumes q: "quiet p s" and n: "0 \<le> lh_n (log_lh s)" "length (lh_block (log_lh s)) = LOGSIZE"
  shows "log_write b s =
    (if lh_n (log_lh s) \<ge> int LOGSIZE \<or> lh_n (log_lh s) \<ge> log_size s - 1 then Panic ''too big a transaction''
     else if outstanding s < 1 then Panic ''log_write outside of trans''
     else if blockno (bufs s b) \<in> home s ` {..<nat (lh_n (log_lh s))} then Ok (settle s)
     else Ok ((settle s)\<lparr>bufs := (bufs s)(b := (bufs s b)\<lparr>refcnt := refcnt (bufs s b) + 1\<rparr>),
            log_lh := (log_lh s)\<lparr>lh_n := lh_n (log_lh s) + 1,
              lh_block := (lh_block (log_lh s))[nat (lh_n (log_lh s)) := blockno (bufs s b)]\<rparr>\<rparr>))"
proof -
  note fr = quietD(2) [OF q] and ok = quietD(3) [OF q]
  let ?g = "grab LLog s" and ?n = "nat (lh_n (log_lh s))" and ?bno = "blockno (bufs s b)"
  have acq: "acquire LLog s = Ok ?g" by (rule acquire_free [OF fr])
  consider "lh_n (log_lh s) \<ge> int LOGSIZE \<or> lh_n (log_lh s) \<ge> log_size s - 1"
    | "\<not> (lh_n (log_lh s) \<ge> int LOGSIZE \<or> lh_n (log_lh s) \<ge> log_size s - 1)" "outstanding s < 1"
    | "\<not> (lh_n (log_lh s) \<ge> int LOGSIZE \<or> lh_n (log_lh s) \<ge> log_size s - 1)" "\<not> outstanding s < 1" "?bno \<in> home s ` {..<?n}"
    | "\<not> (lh_n (log_lh s) \<ge> int LOGSIZE \<or> lh_n (log_lh s) \<ge> log_size s - 1)" "\<not> outstanding s < 1" "?bno \<notin> home s ` {..<?n}"
    by blast
  then show ?thesis
  proof cases
    case 3
    have "?n \<le> length (lh_block (log_lh ?g))" "home ?g = home s" using n 3(1) by (auto simp: home_def)
    then obtain i where i: "i < ?n" "absorb ?bno (log_indices ?g) ?g = Ok i" "lh_block (log_lh s) ! i = ?bno"
      using absorb_indices(1) [of ?g ?bno] 3(3) by auto
    have "(lh_block (log_lh s))[i := ?bno] = lh_block (log_lh s)" "i < LOGSIZE" "i \<noteq> ?n" using i(1,3) n 3(1) by (auto simp: list_update_same_conv)
    then show ?thesis
      using 3 i acq n release_section [OF ok fr, of LLog "grab LLog s"] at_mach_grab [of s LLog]
      by (simp add: log_write_def arr_set_def Let_def set_lh_def log_lh_idem)
  next
    case 4
    have "?n \<le> length (lh_block (log_lh ?g))" "home ?g = home s" using n 4(1) by (auto simp: home_def)
    then have a: "absorb ?bno (log_indices ?g) ?g = Ok ?n" using absorb_indices(2) [of ?g ?bno] 4(3) by simp
    have "?n < LOGSIZE" using n(1) 4(1) by auto
    moreover have "cpu_ok ?g" "lock_free LBcache ?g" "settle ?g = ?g" 
      using calmD(1) [OF calm_grab [OF quietD(1) [OF q], of LLog]] fr [of LBcache] settle_grab [OF ok] by (simp_all add: lock_free_def grab_def)
    ultimately show ?thesis
      using 4 a acq n
      by (simp add: log_write_def arr_set_def Let_def set_lh_def bpin_eq release_section [OF ok fr] at_mach_grab)
  qed (simp_all add: log_write_def acq)
qed

text \<open>How the file system changes a block: read it, change the buffer, log the write, release the buffer.\<close>

definition update_block :: "u32 \<Rightarrow> u8 list \<Rightarrow> 'a log_state_scheme \<Rightarrow> 'a log_state_scheme res" where
  "update_block n d s =
     bindR (bread (log_dev s) n s) (\<lambda>(b, s). bindR (log_write b (set_bdata b d s)) (brelse b))"

lemma update_block_spec:
  fixes s :: "'a log_state_scheme"
  assumes r: "cache_ready p cap s" and g: "log_geo cap s" and n: "unat n < cap" "refs s n + 2 < 2 ^ 32" "length d = BSIZE"
    and l: "0 \<le> lh_n (log_lh s)" "lh_n (log_lh s) < int LOGSIZE" "lh_n (log_lh s) < log_size s - 1" "1 \<le> outstanding s"
    and new: "n \<notin> home s ` {..<nat (lh_n (log_lh s))}"
  shows "\<exists>t. update_block n d s = Ok t \<and> view p cap Map.empty t \<and> settle t = t \<and> content t ROOTDEV = (content s ROOTDEV)(n := d) \<and>
    dblock t = dblock s \<and> refs t = (refs s)(n := refs s n + 1) \<and> log_start t = log_start s \<and> log_size t = log_size s \<and>
    log_dev t = log_dev s \<and> log_lh t = (log_lh s)\<lparr>lh_n := lh_n (log_lh s) + 1,
      lh_block := (lh_block (log_lh s))[nat (lh_n (log_lh s)) := n]\<rparr> \<and>
    outstanding t = outstanding s \<and> committing t = committing s"
proof -
  note rd = cache_readyD [OF r]
  have g1: "log_dev s = ROOTDEV" "length (lh_block (log_lh s)) = LOGSIZE" using g by (simp_all add: log_geo_def)
  obtain b t where br: "bread ROOTDEV n s = Ok (b, t)"
    and t: "becomes p cap (Map.empty(n := Some b)) s t (content s ROOTDEV) (dblock s) ((refs s)(n := refs s n + 1))"
    using bread_view [OF rd(1) n(1) _ rd(3)] rd(4) by (auto simp: room_def)
  define h where "h = Map.empty(n := Some b)"
  note t = t [folded h_def]
  have b: "h n = Some b" and h: "h(n := None) = Map.empty" by (simp_all add: h_def)
  let ?t = "set_bdata b d t" and ?C = "(content s ROOTDEV)(n := d)"
  note t1 = set_bdata_then [OF t b n(3)]
  note f1 = log_frame [OF becomes_keep(2) [OF t1]]
  note bt = becomesD [OF t1 b]
  have hm: "home ?t = home s" using f1 by (simp add: home_def [abs_def])
  let ?k = "refcnt (bufs ?t b) + 1"
  let ?u = "(settle ?t)\<lparr>bufs := (bufs ?t)(b := (bufs ?t b)\<lparr>refcnt := ?k\<rparr>)\<rparr>"
  let ?F = "\<lambda>lh. lh\<lparr>lh_n := lh_n lh + 1, lh_block := (lh_block lh)[nat (lh_n lh) := n]\<rparr>"
  have k: "unat ?k = refs s n + 2" using bt(5) n(2) by (simp add: unat_word_ariths(1))
  then have "?k \<noteq> 0" by auto
  from count_then [OF t1 b this] have u: "becomes p cap h s ?u ?C (dblock s) ((refs s)(n := refs s n + 2))" using k by simp
  have "log_write b ?t = Ok (set_lh ?F ?u)"
    using log_write_eq [OF bt(13), of b] bt(9) f1 g1 l new hm by (simp add: set_lh_def)
  moreover have u0: "becomes p cap h (set_lh ?F ?u) (set_lh ?F ?u) ?C (dblock s) ((refs s)(n := refs s n + 2))"
    using becomes_refl [of p cap h "set_lh ?F ?u"] becomes_keep [OF u] becomes_settled [OF u] by simp
  moreover obtain v where v: "brelse b (set_lh ?F ?u) = Ok v"
    "becomes p cap Map.empty (set_lh ?F ?u) v ?C (dblock s) ((refs s)(n := refs s n + 1))"
    using brelse_then [OF u0 b] by (auto simp: h)
  ultimately have "update_block n d s = Ok v" using br g1 by (simp add: update_block_def)
  moreover have "log_start ?u = log_start s" "log_size ?u = log_size s" "log_dev ?u = log_dev s" "log_lh ?u = log_lh s"
    "outstanding ?u = outstanding s" "committing ?u = committing s"
    using log_frame [OF becomes_keep(2) [OF u]] by simp_all
  ultimately show ?thesis
    using becomes_keep [OF v(2)] becomes_settled [OF v(2)] log_frame [OF becomes_keep(2) [OF v(2)]] by simp
qed

definition demo_log :: "(u64 \<Rightarrow> u8) \<Rightarrow> log_state" where
  "demo_log med = fresh_cache med (log_state.fields 2 30 1 False ROOTDEV \<lparr>lh_n = 0, lh_block = replicate LOGSIZE 0\<rparr>)"

lemma demo_log_fields: "log_start (demo_log med) = 2" "log_size (demo_log med) = 30" "outstanding (demo_log med) = 1"
  "log_dev (demo_log med) = ROOTDEV" "log_lh (demo_log med) = \<lparr>lh_n = 0, lh_block = replicate LOGSIZE 0\<rparr>" "\<not> committing (demo_log med)"
proof -
  have "vdisk.more (demo_log med) = log_state.fields 2 30 1 False ROOTDEV \<lparr>lh_n = 0, lh_block = replicate LOGSIZE 0\<rparr>"
    by (simp add: demo_log_def fresh_cache_more)
  then show "log_start (demo_log med) = 2" "log_size (demo_log med) = 30" "outstanding (demo_log med) = 1"
    "log_dev (demo_log med) = ROOTDEV" "log_lh (demo_log med) = \<lparr>lh_n = 0, lh_block = replicate LOGSIZE 0\<rparr>" "\<not> committing (demo_log med)"
    by (cases "demo_log med"; simp add: log_state.defs)+
qed

lemma fresh_view: "view 3 1000 Map.empty (fresh_cache med x)" "refs (fresh_cache med x) = (\<lambda>_. 0)"
  "cache_ready 3 1000 (fresh_cache med x)"
proof -
  show v: "view 3 1000 Map.empty (fresh_cache med x)"
    by (rule viewI [OF fresh_cache_ok(2,1)]) (simp_all add: fresh_cache_simps vdev_ok_def)
  show z: "refs (fresh_cache med x) = (\<lambda>_. 0)"
    by (rule ext, rule refs_none) (simp add: fresh_cache_holds)
  show "cache_ready 3 1000 (fresh_cache med x)"
    using v by (simp add: cache_ready_def z room_def fresh_cache_more)
qed

lemma demo_log_ready: "cache_ready 3 1000 (demo_log med)" "refs (demo_log med) = (\<lambda>_. 0)" "log_geo 1000 (demo_log med)"
  "dblock (demo_log med) = disk_block med"
  using fresh_view by (simp_all add: demo_log_def [symmetric] demo_log_fields log_geo_def)
     (simp_all add: demo_log_def fresh_view dblock_def fresh_cache_simps fun_eq_iff)

text \<open>A transaction of one block.\<close>

definition demo_tx :: log_state where
  "demo_tx = (case update_block 100 (replicate BSIZE 9) (demo_log (\<lambda>_. 0)) of Ok t \<Rightarrow> t | _ \<Rightarrow> demo_log (\<lambda>_. 0))"

lemma demo_tx_facts:
  "transaction 3 1000 demo_tx" "content demo_tx ROOTDEV 100 = replicate BSIZE 9" "log_start demo_tx = 2" "log_size demo_tx = 30"
  "lh_n (log_lh demo_tx) = 1" "home demo_tx 0 = 100" "100 \<notin> log_area demo_tx" "dblock demo_tx = disk_block (\<lambda>_. 0)"
  "update_block 100 (replicate BSIZE 9) (demo_log (\<lambda>_. 0)) = Ok demo_tx" "outstanding demo_tx = 1" "\<not> committing demo_tx"
proof -
  let ?s = "demo_log (\<lambda>_. 0)"
  note d = demo_log_fields demo_log_ready
  have "\<exists>t. update_block 100 (replicate BSIZE 9) ?s = Ok t \<and> view 3 1000 Map.empty t \<and> settle t = t \<and>
    content t ROOTDEV = (content ?s ROOTDEV)(100 := replicate BSIZE 9) \<and>
    dblock t = dblock ?s \<and> refs t = (refs ?s)(100 := refs ?s 100 + 1) \<and> log_start t = log_start ?s \<and> log_size t = log_size ?s \<and>
    log_dev t = log_dev ?s \<and> log_lh t = (log_lh ?s)\<lparr>lh_n := lh_n (log_lh ?s) + 1,
      lh_block := (lh_block (log_lh ?s))[nat (lh_n (log_lh ?s)) := 100]\<rparr> \<and>
    outstanding t = outstanding ?s \<and> committing t = committing ?s"
    by (rule update_block_spec) (simp_all add: d)
  then obtain t where t: "update_block 100 (replicate BSIZE 9) ?s = Ok t" "view 3 1000 Map.empty t" "settle t = t"
    "content t ROOTDEV 100 = replicate BSIZE 9" "dblock t = disk_block (\<lambda>_. 0)" "refs t = (\<lambda>_. 0)(100 := 1)" "log_start t = 2"
    "log_size t = 30" "log_dev t = ROOTDEV" "log_lh t = \<lparr>lh_n = 1, lh_block = (replicate LOGSIZE 0)[0 := 100]\<rparr>"
    "outstanding t = 1" "\<not> committing t"
    unfolding d by (auto simp: demo_log_fields(6))
  have e: "demo_tx = t" by (simp add: demo_tx_def t(1))
  have hm: "home t 0 = 100" by (simp add: home_def t(10))
  have "{n. refs t n \<noteq> 0} = {100}" by (auto simp: t(6))
  then have r: "cache_ready 3 1000 t" using t(2,3,6) by (simp add: cache_ready_def room_def)
  have g: "log_geo 1000 t" using t by (simp add: log_geo_def)
  have a: "x \<in> log_area t \<Longrightarrow> unat x < 32" for x :: u32
  proof -
    assume "x \<in> log_area t"
    then obtain j where j: "x = word_of_int (log_start t + int j)" "int j < log_size t" by (auto simp: log_area_def)
    from log_word(1) [OF g _ j(2)] show ?thesis using j t(7,8) by simp
  qed
  show "100 \<notin> log_area demo_tx" using a [of 100] unfolding e by auto
  then have "fits 1000 1 t" using hm t(8) unfolding e by (simp add: fits_def inj_on_def)
  moreover have "hdr_count (dblock t (head_block t)) = 0"
    by (simp add: t(5) hdr_count_def disk_block_def load_bytes_def get32_def)
  ultimately show "transaction 3 1000 demo_tx"
    using r g hm t(6,10) unfolding e by (simp add: transaction_def Let_def)
  show "content demo_tx ROOTDEV 100 = replicate BSIZE 9" "log_start demo_tx = 2" "log_size demo_tx = 30"
    "lh_n (log_lh demo_tx) = 1" "home demo_tx 0 = 100" "dblock demo_tx = disk_block (\<lambda>_. 0)"
    "update_block 100 (replicate BSIZE 9) (demo_log (\<lambda>_. 0)) = Ok demo_tx" "outstanding demo_tx = 1" "\<not> committing demo_tx"
    unfolding e using hm t by simp_all
qed

lemma begin_op_eq:
  assumes "quiet p s"
  shows "begin_op s = (if committing s \<or> lh_n (log_lh s) + (outstanding s + 1) * MAXOPBLOCKS > int LOGSIZE then Spin
    else Ok ((settle s)\<lparr>outstanding := outstanding s + 1\<rparr>))"
  using acquire_free [OF quietD(2) [OF assms], of LLog]
  by (simp add: begin_op_def release_section [OF quietD(3,2) [OF assms]] at_mach_grab)

section \<open>The last operation ends\<close>

lemma ops_simps [simp]:
  "quiet p (s\<lparr>outstanding := Y\<rparr>) = quiet p s" "quiet p (s\<lparr>committing := X\<rparr>) = quiet p s"
  "bdata (s\<lparr>outstanding := Y\<rparr>) = bdata s" "bdata (s\<lparr>committing := X\<rparr>) = bdata s"
  "holds_block (s\<lparr>outstanding := Y\<rparr>) = holds_block s" "holds_block (s\<lparr>committing := X\<rparr>) = holds_block s"
  "settle (s\<lparr>outstanding := Y\<rparr>) = (settle s)\<lparr>outstanding := Y\<rparr>" "settle (s\<lparr>committing := X\<rparr>) = (settle s)\<lparr>committing := X\<rparr>"
  "same_mach u (s\<lparr>committing := X\<rparr>) = same_mach u s" "at_mach u (s\<lparr>committing := X\<rparr>) = (at_mach u s)\<lparr>committing := X\<rparr>"
  "calm p (s\<lparr>committing := X\<rparr>) = calm p s"
  by (simp_all add: quiet_def calm_def cpu_ok_def lock_free_def mach_defs settle_def bdata_def holds_block_def
      same_mach_def at_mach_def fun_eq_iff)

lemma cache_ok_ops [simp]:
  "cache_ok xs (s\<lparr>outstanding := Y\<rparr>) = cache_ok xs s" "cache_ok xs (s\<lparr>committing := X\<rparr>) = cache_ok xs s"
  by (simp_all add: cache_ok_def lru_def disk_idle_def)

lemma cache_ops [simp]:
  "content (s\<lparr>outstanding := Y\<rparr>) = content s" "content (s\<lparr>committing := X\<rparr>) = content s"
  "dblock (s\<lparr>outstanding := Y\<rparr>) = dblock s" "dblock (s\<lparr>committing := X\<rparr>) = dblock s"
  "refs (s\<lparr>outstanding := Y\<rparr>) = refs s" "refs (s\<lparr>committing := X\<rparr>) = refs s"
  by (simp_all add: content_def dblock_def refs_def fun_eq_iff cong: option.case_cong)

lemma view_ops [simp]:
  "view p cap h (s\<lparr>outstanding := Y\<rparr>) = view p cap h s" "view p cap h (s\<lparr>committing := X\<rparr>) = view p cap h s"
  by (simp_all add: view_def held_def)

lemma cache_ready_ops [simp]:
  "cache_ready p cap s \<Longrightarrow> cache_ready p cap (s\<lparr>outstanding := Y\<rparr>)" "cache_ready p cap s \<Longrightarrow> cache_ready p cap (s\<lparr>committing := X\<rparr>)"
  by (simp_all add: cache_ready_def)

text \<open>The state in which \<open>end_op\<close> calls \<open>commit\<close>.\<close>

definition commit_state :: "'a log_state_scheme \<Rightarrow> 'a log_state_scheme" where
  "commit_state s = s\<lparr>outstanding := 0, committing := True\<rparr>"

lemma commit_state_log [simp]:
  "log_lh (commit_state s) = log_lh s" "log_block (commit_state s) = log_block s" "home (commit_state s) = home s"
  "head_block (commit_state s) = head_block s" "log_area (commit_state s) = log_area s" "new_head (commit_state s) = new_head s"
  "logged (commit_state s) = logged s" "dblock (commit_state s) = dblock s" "outstanding (commit_state s) = 0"
  by (simp_all add: commit_state_def log_block_def [abs_def] home_def [abs_def] head_block_def log_area_def new_head_def
      logged_def [abs_def])

lemma disk_after_commit_state [simp]: "disk_after (commit_state s) k = disk_after s k"
  by (simp add: disk_after_def Let_def)

lemma transaction_commit_state: "transaction p cap s \<Longrightarrow> transaction p cap (commit_state s)"
  unfolding transaction_def Let_def log_geo_def fits_def commit_state_log
  by (auto simp: commit_state_def split: if_splits)

definition end_commit :: "'a log_state_scheme \<Rightarrow> 'a log_state_scheme res" where
  "end_commit s = bindR (acquire LLog s) (\<lambda>s. bindR (wakeup ChLog (s\<lparr>committing := False\<rparr>)) (release LLog))"

lemma end_op_last:
  assumes "quiet p s" and "settle s = s" and "outstanding s = 1" and "\<not> committing s"
  shows "end_op s = bindR (commit (commit_state s)) end_commit"
  using acquire_free [OF quietD(2) [OF assms(1)], of LLog] at_mach_grab [of s LLog] assms(2-4)
  by (simp add: end_op_def end_commit_def [abs_def] commit_state_def release_section [OF quietD(3,2) [OF assms(1)]])

lemma end_commit_eq:
  assumes "quiet p s"
  shows "end_commit s = Ok ((settle s)\<lparr>committing := False, procs := woken p ChLog (procs s)\<rparr>)"
proof -
  note ok = quietD(3) [OF assms] and fr = quietD(2) [OF assms]
  have "wakeup ChLog ((grab LLog s)\<lparr>committing := False\<rparr>)
      = Ok ((grab LLog s)\<lparr>committing := False, procs := woken p ChLog (procs s)\<rparr>)"
    using wakeup_calm [of p "(grab LLog s)\<lparr>committing := False\<rparr>" ChLog] calm_grab [OF quietD(1) [OF assms], of LLog] settle_grab [OF ok]
    by simp
  then show ?thesis
    using acquire_free [OF fr, of LLog]
    by (simp add: end_commit_def release_section [OF ok fr] at_mach_grab)
qed

text \<open>The writes of a commit, in their order: the blocks of the log, the header, the home blocks, and the header
  again, without blocks.\<close>

definition commit_writes :: "'a log_state_scheme \<Rightarrow> (u32 \<times> u8 list) list" where
  "commit_writes s = (let n = nat (lh_n (log_lh s)) in
     map (\<lambda>i. (log_block s i, logged s i)) [0..<n] @ [(head_block s, new_head s)] @
     map (\<lambda>i. (home s i, logged s i)) [0..<n] @ [(head_block s, put32 0 0 (new_head s))])"

definition put_blocks_on :: "(u32 \<times> u8 list) list \<Rightarrow> (u32 \<Rightarrow> u8 list) \<Rightarrow> u32 \<Rightarrow> u8 list" where
  "put_blocks_on ws D = fold (\<lambda>(x, d) D. D(x := d)) ws D"

lemma put_blocks_on_simps:
  "put_blocks_on [] D = D" "put_blocks_on ((x, d) # ws) D = put_blocks_on ws (D(x := d))"
  "put_blocks_on (vs @ ws) D = put_blocks_on ws (put_blocks_on vs D)"
  "put_blocks_on (map (\<lambda>i. (f i, c i)) [0..<n]) D = upds f c n D"
  by (simp_all add: put_blocks_on_def upds_def fold_map o_def)

lemma disk_after_writes:
  assumes n: "n = nat (lh_n (log_lh s))" and k: "k \<le> 2 * n + 2"
  shows "put_blocks_on (take k (commit_writes s)) (dblock s) = disk_after s k"
proof -
  have "k \<le> n \<or> (\<exists>j. k = n + 1 + j \<and> j \<le> n) \<or> k = 2 * n + 2" using k by presburger
  then consider "k \<le> n" | j where "k = n + 1 + j" "j \<le> n" | "k = 2 * n + 2" by blast
  then show ?thesis
  proof cases
    case 1
    then show ?thesis
      by (simp add: commit_writes_def disk_after_def Let_def n [symmetric] take_map put_blocks_on_simps)
  next
    case (2 j)
    then have "take k (commit_writes s) = map (\<lambda>i. (log_block s i, logged s i)) [0..<n] @ [(head_block s, new_head s)] @
        map (\<lambda>i. (home s i, logged s i)) [0..<j]"
      by (simp add: commit_writes_def Let_def n [symmetric] take_map)
    then show ?thesis using 2 by (simp add: disk_after_def Let_def n [symmetric] put_blocks_on_simps)
  next
    case 3
    then have "take k (commit_writes s) = commit_writes s" by (simp add: commit_writes_def Let_def n)
    then show ?thesis using 3 by (simp add: commit_writes_def disk_after_def Let_def n [symmetric] put_blocks_on_simps)
  qed
qed

lemma dblock_procs: "dblock (s\<lparr>procs := P\<rparr>) = dblock s"
  by (simp add: dblock_def fun_eq_iff)

section \<open>Properties of the log\<close>

text \<open>C3. A commit is atomic.  Stop the machine after any number of the steps of \<open>commit\<close>, start it again with the
  disk as it is then and an empty cache, and \<open>recover_from_log\<close> succeeds: outside the log every block of the disk is as
  before the transaction if at most the copies in the log had been written, and is as the transaction left it
  from the write of the header on; the log is empty again.  All the steps together are \<open>commit\<close>, and it returns.\<close>

theorem commit_crash_atomic:
  assumes "transaction p cap s" and "k \<le> length (commit_steps s)"
  shows "\<exists>t. run_steps (take k (commit_steps s)) s = Ok t \<and>
    (k = length (commit_steps s) \<longrightarrow> commit s = Ok t) \<and>
    (\<forall>r. rebooted p cap s (dblock t) r \<longrightarrow>
      (\<exists>u. recover_from_log r = Ok u \<and> lh_n (log_lh u) = 0 \<and>
        (\<forall>x. x \<notin> log_area s \<longrightarrow> dblock u x = (if k \<le> nat (lh_n (log_lh s)) then dblock s x else committed s x))))"
proof -
  have l: "length (commit_steps s) = 2 * nat (lh_n (log_lh s)) + 2" by (simp add: commit_steps_def Let_def)
  then have k: "k \<le> 2 * nat (lh_n (log_lh s)) + 2" using assms(2) by simp
  obtain t where "run_steps (take k (commit_steps s)) s = Ok t" "dblock t = disk_after s k"
    "k = length (commit_steps s) \<longrightarrow> commit s = Ok t"
    using prefix_run [OF assms(1) refl k] l by auto
  then show ?thesis using recovery_of_disk [OF assms(1) refl k] by metis
qed

theorem commit_crash_atomic_witness:
  "\<exists>t u. run_steps (take 2 (commit_steps demo_tx)) demo_tx = Ok t \<and>
     recover_from_log (demo_log (medium (vqueue t))) = Ok u \<and> dblock u 100 = replicate BSIZE 9"
proof -
  note d = demo_tx_facts
  have "2 \<le> length (commit_steps demo_tx)" by (simp add: commit_steps_def Let_def)
  from commit_crash_atomic [OF d(1) this] obtain t where t: "run_steps (take 2 (commit_steps demo_tx)) demo_tx = Ok t"
    "\<And>r. rebooted 3 1000 demo_tx (dblock t) r \<Longrightarrow> \<exists>u. recover_from_log r = Ok u \<and>
      (\<forall>x. x \<notin> log_area demo_tx \<longrightarrow> dblock u x = (if 2 \<le> nat (lh_n (log_lh demo_tx)) then dblock demo_tx x else committed demo_tx x))"
    by metis
  have "rebooted 3 1000 demo_tx (dblock t) (demo_log (medium (vqueue t)))"
    by (simp add: rebooted_def demo_log_ready demo_log_fields d dblock_def fun_eq_iff)
  moreover have "committed demo_tx 100 = replicate BSIZE 9"
    using d(2,5,6) by (simp add: committed_def)
  ultimately show ?thesis using t d(5,7) by fastforce
qed

text \<open>C20. The order of the writes.  In every state, also where a step fails, \<open>commit\<close> of at least one block is the
  list of steps \<open>commit_steps\<close>.  When the last operation of a transaction ends, \<open>end_op\<close> runs these steps and returns, and
  each of them makes the next write of the list \<open>commit_writes\<close>: first a copy of every logged block into the log, then the
  header with the number and the places of the blocks, then every block at its home, and at last the header with the number 0.
  Afterwards the log is empty and idle.\<close>

theorem end_op_writes_in_order:
  fixes s :: "'a log_state_scheme"
  assumes "transaction p cap s" and "outstanding s = 1" and "\<not> committing s"
  shows "(\<forall>c :: 'a log_state_scheme. 0 < lh_n (log_lh c) \<longrightarrow> commit c = run_steps (commit_steps c) c) \<and>
    end_op s = bindR (run_steps (commit_steps (commit_state s)) (commit_state s)) end_commit \<and>
    length (commit_steps (commit_state s)) = length (commit_writes s) \<and>
    (\<forall>k \<le> length (commit_writes s). \<exists>t. run_steps (take k (commit_steps (commit_state s))) (commit_state s) = Ok t \<and>
       dblock t = put_blocks_on (take k (commit_writes s)) (dblock s)) \<and>
    hdr_count (new_head s) = lh_n (log_lh s) \<and> (\<forall>i < nat (lh_n (log_lh s)). hdr_home (new_head s) i = home s i) \<and>
    (\<exists>u. end_op s = Ok u \<and> dblock u = put_blocks_on (commit_writes s) (dblock s) \<and> lh_n (log_lh u) = 0 \<and>
       outstanding u = 0 \<and> \<not> committing u)"
proof -
  let ?c = "commit_state s" and ?n = "nat (lh_n (log_lh s))"
  note tx = transaction_commit_state [OF assms(1)] and td = transactionD [OF assms(1) refl]
  have l: "length (commit_steps ?c) = 2 * ?n + 2" "length (commit_writes s) = 2 * ?n + 2"
    by (simp_all add: commit_steps_def commit_writes_def Let_def)
  have pre: "\<exists>t. run_steps (take k (commit_steps ?c)) ?c = Ok t \<and> dblock t = put_blocks_on (take k (commit_writes s)) (dblock s)"
    if "k \<le> length (commit_writes s)" for k
    using prefix_run [OF tx refl, of k] disk_after_writes [of ?n s k] that l(2) by auto
  obtain t where t: "run_steps (commit_steps ?c) ?c = Ok t" "commit ?c = Ok t" "lh_n (log_lh t) = 0" "cache_ready p cap t"
    "outstanding t = 0" "dblock t = put_blocks_on (commit_writes s) (dblock s)"
    using prefix_run [OF tx refl order.refl] disk_after_writes [OF refl, of "2 * ?n + 2" s] l by auto
  let ?u = "(settle t)\<lparr>committing := False, procs := woken p ChLog (procs t)\<rparr>"
  have q: "quiet p s" "settle s = s" "quiet p t" "settle t = t"
    using viewD(1) [OF cache_readyD(1) [OF td(1)]] viewD(1) [OF cache_readyD(1) [OF t(4)]] cache_readyD(2) [OF td(1)] cache_readyD(2) [OF t(4)]
    by simp_all
  have eo: "end_op s = Ok ?u"
    using end_op_last [OF q(1,2) assms(2,3)] end_commit_eq [OF q(3)] t(2) by simp
  have "dblock ?u = dblock t" unfolding q(4) dblock_procs by simp
  moreover have "lh_n (log_lh ?u) = 0 \<and> outstanding ?u = 0 \<and> \<not> committing ?u" using t(3,5) q(4) by simp
  moreover have "int ?n = lh_n (log_lh s)" using td(5) by simp
  ultimately show ?thesis
    using pre l t(1,2,6) eo end_op_last [OF q(1,2) assms(2,3)] commit_run_steps new_head_facts(1,2) [OF assms(1) refl] by auto
qed

theorem end_op_writes_in_order_witness:
  "\<exists>t u. bindR (begin_op ((demo_log (\<lambda>_. 0))\<lparr>outstanding := 0\<rparr>)) (update_block 100 (replicate BSIZE 9)) = Ok t \<and>
     map fst (commit_writes t) = [3, 2, 100, 2] \<and> snd (commit_writes t ! 0) = replicate BSIZE 9 \<and>
     snd (commit_writes t ! 2) = replicate BSIZE 9 \<and> hdr_count (snd (commit_writes t ! 1)) = 1 \<and>
     end_op t = Ok u \<and> dblock u 100 = replicate BSIZE 9 \<and> lh_n (log_lh u) = 0"
proof -
  let ?s = "(demo_log (\<lambda>_. 0))\<lparr>outstanding := 0\<rparr>"
  note d = demo_tx_facts
  have "quiet 3 ?s" "settle (demo_log (\<lambda>_. 0)) = demo_log (\<lambda>_. 0)"
    using viewD(1) [OF cache_readyD(1) [OF demo_log_ready(1)]] cache_readyD(2) [OF demo_log_ready(1)] by simp_all
  then have b: "begin_op ?s = Ok (demo_log (\<lambda>_. 0))"
    using begin_op_eq [of 3 ?s] demo_log_fields [of "\<lambda>_. 0"] by simp
  have w: "commit_writes demo_tx = [(3, replicate BSIZE 9), (2, new_head demo_tx), (100, replicate BSIZE 9), (2, put32 0 0 (new_head demo_tx))]"
    using d by (simp add: commit_writes_def logged_def log_block_def head_block_def)
  from end_op_writes_in_order [OF d(1,10,11)] obtain u where u: "end_op demo_tx = Ok u"
    "dblock u = put_blocks_on (commit_writes demo_tx) (dblock demo_tx)" "lh_n (log_lh u) = 0" "hdr_count (new_head demo_tx) = 1"
    unfolding d(5) by blast
  then have "dblock u 100 = replicate BSIZE 9" by (simp add: w put_blocks_on_def)
  then show ?thesis using b d(9) u(1,3,4) by (simp add: w)
qed

text \<open>C21. What \<open>log_write\<close> does to a buffer of a transaction, on every branch.  It panics when the header or the log is
  full and outside a transaction.  A block that is already logged is absorbed: nothing changes.  Otherwise the block takes the
  next slot of the header and its buffer is pinned by one more reference.\<close>

theorem log_write_branches:
  assumes "quiet p s" and "0 \<le> lh_n (log_lh s)" and "length (lh_block (log_lh s)) = LOGSIZE"
  shows "log_write b s =
    (if lh_n (log_lh s) \<ge> int LOGSIZE \<or> lh_n (log_lh s) \<ge> log_size s - 1 then Panic ''too big a transaction''
     else if outstanding s < 1 then Panic ''log_write outside of trans''
     else if blockno (bufs s b) \<in> home s ` {..<nat (lh_n (log_lh s))} then Ok (settle s)
     else Ok ((settle s)\<lparr>bufs := (bufs s)(b := (bufs s b)\<lparr>refcnt := refcnt (bufs s b) + 1\<rparr>),
            log_lh := (log_lh s)\<lparr>lh_n := lh_n (log_lh s) + 1,
              lh_block := (lh_block (log_lh s))[nat (lh_n (log_lh s)) := blockno (bufs s b)]\<rparr>\<rparr>))"
  by (rule log_write_eq [OF assms])

theorem log_write_branches_witness:
  "\<exists>t. log_write 4 (demo_log (\<lambda>_. 0)) = Ok t \<and> lh_n (log_lh t) = 1 \<and> refcnt (bufs t 4) = 1"
  using log_write_branches [OF cache_readyD(1) [OF demo_log_ready(1), THEN viewD(1)], of "\<lambda>_. 0" 4]
  by (simp add: demo_log_fields) (simp add: demo_log_def fresh_cache_simps)

section \<open>Filling the log\<close>

lemma begin_ops:
  assumes "quiet p s" "settle s = s" "\<not> committing s" "lh_n (log_lh s) = 0" "outstanding s = 0"
  shows "run_steps [begin_op, begin_op, begin_op] s = Ok (s\<lparr>outstanding := 3\<rparr>)"
  using assms by (simp add: begin_op_eq [of p])

text \<open>The updates of \<open>j\<close> blocks that are not logged yet, from an empty log.\<close>

lemma update_blocks_run:
  fixes s :: "'a log_state_scheme"
  assumes r: "cache_ready p cap s" "refs s = (\<lambda>_. 0)" and g: "log_geo cap s" "log_size s = int LOGSIZE"
    and l: "lh_n (log_lh s) = 0" "1 \<le> outstanding s"
    and B: "inj_on B {..<LOGSIZE}" "\<And>i. i < LOGSIZE \<Longrightarrow> unat (B i) < cap \<and> length (d i) = BSIZE"
    and j: "j < LOGSIZE"
  shows "\<exists>t. run_steps (map (\<lambda>i. update_block (B i) (d i)) [0..<j]) s = Ok t \<and> cache_ready p cap t \<and> log_geo cap t \<and>
    log_size t = log_size s \<and> outstanding t = outstanding s \<and> lh_n (log_lh t) = int j \<and> (\<forall>i < j. home t i = B i) \<and>
    refs t = (\<lambda>x. if x \<in> B ` {..<j} then 1 else 0)"
  using j
proof (induction j)
  case 0
  then show ?case using r g l by simp
next
  case (Suc j)
  then obtain t where t: "run_steps (map (\<lambda>i. update_block (B i) (d i)) [0..<j]) s = Ok t" "cache_ready p cap t" "log_geo cap t"
    "log_size t = log_size s" "outstanding t = outstanding s" "lh_n (log_lh t) = int j" "\<And>i. i < j \<Longrightarrow> home t i = B i"
    "refs t = (\<lambda>x. if x \<in> B ` {..<j} then 1 else 0)" by auto
  have ij: "inj_on B {..<Suc j}" using inj_on_subset [OF B(1), of "{..<Suc j}"] Suc.prems by force
  have new: "B j \<notin> B ` {..<j}" by (auto dest: inj_onD [OF ij])
  moreover have "home t ` {..<nat (lh_n (log_lh t))} = B ` {..<j}" using t(6,7) by simp
  moreover note B(2) [of j] Suc.prems t(8) g(2) l(2) t(4-6)
  ultimately obtain u where u: "update_block (B j) (d j) t = Ok u" "view p cap Map.empty u" "settle u = u"
    "refs u = (refs t)(B j := 1)" "log_start u = log_start t" "log_size u = log_size t" "log_dev u = log_dev t"
    "log_lh u = (log_lh t)\<lparr>lh_n := int j + 1, lh_block := (lh_block (log_lh t))[j := B j]\<rparr>" "outstanding u = outstanding t"
    using update_block_spec [OF t(2,3), of "B j" "d j"] by auto
  have R: "refs u = (\<lambda>x. if x \<in> B ` {..<Suc j} then 1 else 0)"
    unfolding u(4) t(8) lessThan_Suc by (auto simp: fun_eq_iff)
  have "{x. refs u x \<noteq> 0} = B ` {..<Suc j}" unfolding R by auto
  then have "room (refs u) = Suc j" unfolding room_def by (simp add: card_image [OF ij])
  then have "cache_ready p cap u" using u(2,3) Suc.prems unfolding cache_ready_def by (simp add: R)
  moreover have "log_geo cap u" using t(3) u(5-8) by (simp add: log_geo_def)
  moreover have "home u i = B i" if "i < Suc j" for i
    using that t(3,7) Suc.prems u(8) by (cases "i = j") (auto simp: home_def log_geo_def)
  ultimately show ?case using t u(1,6,8,9) R by auto
qed

text \<open>C22. The reservation is one block too generous.  Start with an idle, empty log of the size that the file system is
  made with.  Three operations begin; a fourth one would wait, since each of the three may write \<open>MAXOPBLOCKS\<close> blocks.
  They now update 30 different blocks between them, by reading, changing, logging and releasing each.  The first 29 updates
  succeed, and the last one, still within the limit of the operations, panics.\<close>

theorem log_reservation_gap:
  fixes s :: "'a log_state_scheme"
  assumes "cache_ready p cap s" and "refs s = (\<lambda>_. 0)" and "log_geo cap s" and "log_size s = int LOGSIZE"
    and "\<not> committing s" and "outstanding s = 0" and "lh_n (log_lh s) = 0"
    and "inj_on B {..<LOGSIZE}" and "\<forall>i < LOGSIZE. unat (B i) < cap \<and> length (d i) = BSIZE"
  shows "\<exists>t u. run_steps [begin_op, begin_op, begin_op] s = Ok t \<and> outstanding t = 3 \<and> begin_op t = Spin \<and>
    run_steps (map (\<lambda>i. update_block (B i) (d i)) [0..<29]) t = Ok u \<and> lh_n (log_lh u) < outstanding u * MAXOPBLOCKS \<and>
    update_block (B 29) (d 29) u = Panic ''too big a transaction''"
proof -
  let ?t = "s\<lparr>outstanding := 3\<rparr>"
  have q: "quiet p s" "settle s = s" using viewD(1) [OF cache_readyD(1) [OF assms(1)]] cache_readyD(2) [OF assms(1)] by simp_all
  have bt: "run_steps [begin_op, begin_op, begin_op] s = Ok ?t" by (rule begin_ops [OF q assms(5,7,6)])
  have sp: "begin_op ?t = Spin" using begin_op_eq [of p ?t] q assms(5,7) by simp
  have tr: "cache_ready p cap ?t" "refs ?t = (\<lambda>_. 0)" "log_geo cap ?t" "log_size ?t = int LOGSIZE" "lh_n (log_lh ?t) = 0" "1 \<le> outstanding ?t"
    using assms(1-4,7) by (simp_all add: log_geo_def)
  obtain u where u: "run_steps (map (\<lambda>i. update_block (B i) (d i)) [0..<29]) ?t = Ok u" "cache_ready p cap u" "log_geo cap u"
    "log_size u = int LOGSIZE" "outstanding u = 3" "lh_n (log_lh u) = 29" "refs u = (\<lambda>x. if x \<in> B ` {..<29} then 1 else 0)"
    using update_blocks_run [OF tr assms(8), of d 29] assms(9) tr(4) by auto
  note rd = cache_readyD [OF u(2)]
  have "unat (B 29) < cap" using assms(9) by simp
  then have "\<exists>b v. bread ROOTDEV (B 29) u = Ok (b, v) \<and> becomes p cap (Map.empty(B 29 := Some b)) u v (content u ROOTDEV) (dblock u)
      ((refs u)(B 29 := refs u (B 29) + 1))"
    by (rule bread_view [OF rd(1) _ _ rd(3)]) (use rd(4) in \<open>simp_all add: room_def\<close>)
  then obtain b v where v: "bread ROOTDEV (B 29) u = Ok (b, v)" "becomes p cap (Map.empty(B 29 := Some b)) u v (content u ROOTDEV) (dblock u)
      ((refs u)(B 29 := refs u (B 29) + 1))"
    by blast
  note f = log_frame [OF becomes_keep(2) [OF v(2)]]
  have "quiet p (set_bdata b (d 29) v)" using viewD(1) [OF becomes_keep(1) [OF v(2)]]
    by (simp add: set_bdata_def quiet_def calm_def cpu_ok_def lock_free_def mach_defs)
  from log_write_eq [OF this, of b] have "log_write b (set_bdata b (d 29) v) = Panic ''too big a transaction''"
    using f u(3,4,6) by (simp add: log_geo_def)
  then have "update_block (B 29) (d 29) u = Panic ''too big a transaction''"
    using v(1) u(3) by (simp add: update_block_def log_geo_def)
  then show ?thesis using bt sp u(1,5,6) by auto
qed

theorem log_reservation_gap_witness:
  "\<exists>t u. run_steps [begin_op, begin_op, begin_op] ((demo_log (\<lambda>_. 0))\<lparr>outstanding := 0\<rparr>) = Ok t \<and>
     run_steps (map (\<lambda>i. update_block (word_of_nat (100 + i)) (replicate BSIZE 9)) [0..<29]) t = Ok u \<and>
     update_block 129 (replicate BSIZE 9) u = Panic ''too big a transaction''"
proof -
  let ?s = "(demo_log (\<lambda>_. 0))\<lparr>outstanding := 0\<rparr>" and ?B = "\<lambda>i. word_of_nat (100 + i) :: u32"
  note d = demo_log_fields [of "\<lambda>_. 0"] demo_log_ready [of "\<lambda>_. 0"]
  have un: "unat (?B i) = 100 + i" if "i < LOGSIZE" for i
    using that by (simp only: unat_of_nat) (simp add: take_bit_nat_eq_self)
  have inj: "inj_on ?B {..<LOGSIZE}"
  proof (rule inj_onI)
    fix i j assume "i \<in> {..<LOGSIZE}" "j \<in> {..<LOGSIZE}" "?B i = ?B j"
    then show "i = j" using un [of i] un [of j] by simp
  qed
  have len: "\<forall>i < LOGSIZE. unat (?B i) < 1000 \<and> length (replicate BSIZE (9 :: u8)) = BSIZE" using un by simp
  have "?B 29 = 129" by simp
  then show ?thesis
    using log_reservation_gap [of 3 1000 ?s ?B "\<lambda>_. replicate BSIZE 9", OF _ _ _ _ _ _ _ inj len] d
    by (simp add: log_geo_def) blast
qed

end
