(* ===== verification/Asm.thy ===== *)
theory Asm
  imports Memory
begin

text \<open>
  The assembly routines: \<open>uservec\<close> and \<open>userret\<close> of \<open>kernel/trampoline.S\<close>, \<open>kernel/swtch.S\<close>,
  \<open>kernel/kernelvec.S\<close> and \<open>kernel/entry.S\<close>.  Each is the list of its instructions, run by a small
  interpreter for the part of RISC-V that they use.  Address translation belongs to the hardware: it
  is a parameter \<open>mmu\<close> that gives the physical address for a value of \<open>satp\<close> and a virtual address.
\<close>

section \<open>Instructions\<close>

datatype reg = RA | SP | GP | TP | T0 | T1 | T2 | S0 | S1 | A0 | A1 | A2 | A3 | A4 | A5 | A6 | A7
  | S2 | S3 | S4 | S5 | S6 | S7 | S8 | S9 | S10 | S11 | T3 | T4 | T5 | T6

datatype csr = Sscratch | Satp | Sepc | Mhartid

datatype instr = Sd reg u64 reg | Ld reg u64 reg | Li reg u64 | Addi reg reg u64 | Add reg reg reg | Mul reg reg reg
  | Csrw csr reg | Csrr reg csr | Sfence_vma | Jr reg | Sret

record hart =
  regs :: "reg \<Rightarrow> u64"
  csrs :: "csr \<Rightarrow> u64"
  hmem :: mem
  hpc :: u64

abbreviation (input) paddr :: "(u64 \<Rightarrow> u64 \<Rightarrow> u64) \<Rightarrow> hart \<Rightarrow> u64 \<Rightarrow> u64" where
  "paddr mmu h va \<equiv> mmu (csrs h Satp) va"

text \<open>The program counter is only followed across the jumps that end a routine.\<close>

fun step :: "(u64 \<Rightarrow> u64 \<Rightarrow> u64) \<Rightarrow> instr \<Rightarrow> hart \<Rightarrow> hart" where
  "step mmu (Sd r k b) h = h\<lparr>hmem := store64 (paddr mmu h (regs h b + k)) (regs h r) (hmem h)\<rparr>"
| "step mmu (Ld r k b) h = h\<lparr>regs := (regs h)(r := load64 (hmem h) (paddr mmu h (regs h b + k)))\<rparr>"
| "step mmu (Li r v) h = h\<lparr>regs := (regs h)(r := v)\<rparr>"
| "step mmu (Addi r a v) h = h\<lparr>regs := (regs h)(r := regs h a + v)\<rparr>"
| "step mmu (Add r a b) h = h\<lparr>regs := (regs h)(r := regs h a + regs h b)\<rparr>"
| "step mmu (Mul r a b) h = h\<lparr>regs := (regs h)(r := regs h a * regs h b)\<rparr>"
| "step mmu (Csrw c r) h = h\<lparr>csrs := (csrs h)(c := regs h r)\<rparr>"
| "step mmu (Csrr r c) h = h\<lparr>regs := (regs h)(r := csrs h c)\<rparr>"
| "step mmu Sfence_vma h = h"
| "step mmu (Jr r) h = h\<lparr>hpc := regs h r\<rparr>"
| "step mmu Sret h = h\<lparr>hpc := csrs h Sepc\<rparr>"

definition run :: "(u64 \<Rightarrow> u64 \<Rightarrow> u64) \<Rightarrow> instr list \<Rightarrow> hart \<Rightarrow> hart" where
  "run mmu is h = fold (step mmu) is h"

section \<open>The routines\<close>

definition uservec :: "instr list" where
  "uservec = [Csrw Sscratch A0, Li A0 TRAPFRAME,
     Sd RA 40 A0, Sd SP 48 A0, Sd GP 56 A0, Sd TP 64 A0, Sd T0 72 A0, Sd T1 80 A0, Sd T2 88 A0,
     Sd S0 96 A0, Sd S1 104 A0, Sd A1 120 A0, Sd A2 128 A0, Sd A3 136 A0, Sd A4 144 A0,
     Sd A5 152 A0, Sd A6 160 A0, Sd A7 168 A0, Sd S2 176 A0, Sd S3 184 A0, Sd S4 192 A0,
     Sd S5 200 A0, Sd S6 208 A0, Sd S7 216 A0, Sd S8 224 A0, Sd S9 232 A0, Sd S10 240 A0,
     Sd S11 248 A0, Sd T3 256 A0, Sd T4 264 A0, Sd T5 272 A0, Sd T6 280 A0,
     Csrr T0 Sscratch, Sd T0 112 A0,
     Ld SP 8 A0, Ld TP 32 A0, Ld T0 16 A0, Ld T1 0 A0,
     Sfence_vma, Csrw Satp T1, Sfence_vma, Jr T0]"

definition userret :: "instr list" where
  "userret = [Sfence_vma, Csrw Satp A0, Sfence_vma, Li A0 TRAPFRAME,
     Ld RA 40 A0, Ld SP 48 A0, Ld GP 56 A0, Ld TP 64 A0, Ld T0 72 A0, Ld T1 80 A0, Ld T2 88 A0,
     Ld S0 96 A0, Ld S1 104 A0, Ld A1 120 A0, Ld A2 128 A0, Ld A3 136 A0, Ld A4 144 A0,
     Ld A5 152 A0, Ld A6 160 A0, Ld A7 168 A0, Ld S2 176 A0, Ld S3 184 A0, Ld S4 192 A0,
     Ld S5 200 A0, Ld S6 208 A0, Ld S7 216 A0, Ld S8 224 A0, Ld S9 232 A0, Ld S10 240 A0,
     Ld S11 248 A0, Ld T3 256 A0, Ld T4 264 A0, Ld T5 272 A0, Ld T6 280 A0,
     Ld A0 112 A0, Sret]"

definition swtch :: "instr list" where
  "swtch = [Sd RA 0 A0, Sd SP 8 A0, Sd S0 16 A0, Sd S1 24 A0, Sd S2 32 A0, Sd S3 40 A0, Sd S4 48 A0,
     Sd S5 56 A0, Sd S6 64 A0, Sd S7 72 A0, Sd S8 80 A0, Sd S9 88 A0, Sd S10 96 A0, Sd S11 104 A0,
     Ld RA 0 A1, Ld SP 8 A1, Ld S0 16 A1, Ld S1 24 A1, Ld S2 32 A1, Ld S3 40 A1, Ld S4 48 A1,
     Ld S5 56 A1, Ld S6 64 A1, Ld S7 72 A1, Ld S8 80 A1, Ld S9 88 A1, Ld S10 96 A1, Ld S11 104 A1,
     Jr RA]"

text \<open>\<open>kernelvec\<close> up to and after its call of \<open>kerneltrap\<close>.\<close>

definition kernelvec_enter :: "instr list" where
  "kernelvec_enter = [Addi SP SP (- 256),
     Sd RA 0 SP, Sd SP 8 SP, Sd GP 16 SP, Sd TP 24 SP, Sd T0 32 SP, Sd T1 40 SP, Sd T2 48 SP, Sd A0 72 SP,
     Sd A1 80 SP, Sd A2 88 SP, Sd A3 96 SP, Sd A4 104 SP, Sd A5 112 SP, Sd A6 120 SP, Sd A7 128 SP,
     Sd T3 216 SP, Sd T4 224 SP, Sd T5 232 SP, Sd T6 240 SP]"

definition kernelvec_leave :: "instr list" where
  "kernelvec_leave = [Ld RA 0 SP, Ld SP 8 SP, Ld GP 16 SP, Ld T0 32 SP, Ld T1 40 SP, Ld T2 48 SP, Ld A0 72 SP,
     Ld A1 80 SP, Ld A2 88 SP, Ld A3 96 SP, Ld A4 104 SP, Ld A5 112 SP, Ld A6 120 SP, Ld A7 128 SP,
     Ld T3 216 SP, Ld T4 224 SP, Ld T5 232 SP, Ld T6 240 SP, Addi SP SP 256, Sret]"

text \<open>\<open>_entry\<close> up to its call of \<open>start\<close>; the address of \<open>stack0\<close> is set by the linker.\<close>

definition entry :: "u64 \<Rightarrow> instr list" where
  "entry stack0 = [Li SP stack0, Li A0 (1024 * 4), Csrr A1 Mhartid, Addi A1 A1 1, Mul A0 A0 A1, Add SP SP A0]"

section \<open>Saving and restoring\<close>

lemma run_simps [simp]: "run mmu [] h = h" "run mmu (i # is) h = run mmu is (step mmu i h)"
  "run mmu (is @ js) h = run mmu js (run mmu is h)"
  by (simp_all add: run_def)

definition saves :: "reg \<Rightarrow> (reg \<times> u64) list \<Rightarrow> instr list" where
  "saves b rs = map (\<lambda>(r, k). Sd r k b) rs"

definition loads :: "reg \<Rightarrow> (reg \<times> u64) list \<Rightarrow> instr list" where
  "loads b rs = map (\<lambda>(r, k). Ld r k b) rs"

definition save_mem :: "u64 \<Rightarrow> (reg \<times> u64) list \<Rightarrow> (reg \<Rightarrow> u64) \<Rightarrow> mem \<Rightarrow> mem" where
  "save_mem a rs f m = fold (\<lambda>(r, k). store64 (a + k) (f r)) rs m"

lemma run_saves:
  assumes "\<And>k. k \<in> snd ` set rs \<Longrightarrow> mmu (csrs h Satp) (regs h b + k) = pa + k"
  shows "run mmu (saves b rs) h = h\<lparr>hmem := save_mem pa rs (regs h) (hmem h)\<rparr>"
  using assms
proof (induction rs arbitrary: h)
  case (Cons x rs)
  obtain r k where x: "x = (r, k)" by (cases x)
  let ?h = "h\<lparr>hmem := store64 (pa + k) (regs h r) (hmem h)\<rparr>"
  have "mmu (csrs h Satp) (regs h b + k) = pa + k" using Cons(2) [of k] x by simp
  moreover have "run mmu (saves b rs) ?h = ?h\<lparr>hmem := save_mem pa rs (regs ?h) (hmem ?h)\<rparr>"
    by (rule Cons(1)) (simp add: Cons(2))
  ultimately show ?case using x by (simp add: saves_def save_mem_def)
qed (simp add: saves_def save_mem_def)

lemma save_mem_other:
  assumes "aligned8 a" and "\<And>k. k \<in> snd ` set rs \<Longrightarrow> aligned8 (pa + k) \<and> pa + k \<noteq> a"
  shows "load64 (save_mem pa rs f m) a = load64 m a"
  using assms(2)
proof (induction rs arbitrary: m)
  case (Cons x rs)
  obtain r k where x: "x = (r, k)" by (cases x)
  have "load64 (save_mem pa rs f (store64 (pa + k) (f r) m)) a = load64 (store64 (pa + k) (f r) m) a"
    by (rule Cons(1)) (simp add: Cons(2))
  moreover have "load64 (store64 (pa + k) (f r) m) a = load64 m a"
    by (rule load_store64_other) (use Cons(2) [of k] x assms(1) in simp_all)
  ultimately show ?case using x by (simp add: save_mem_def)
qed (simp add: save_mem_def)

lemma save_mem_same:
  assumes "distinct (map snd rs)" and "\<And>k. k \<in> snd ` set rs \<Longrightarrow> aligned8 (pa + k)" and "(r, k) \<in> set rs"
  shows "load64 (save_mem pa rs f m) (pa + k) = f r"
  using assms
proof (induction rs arbitrary: m)
  case (Cons x rs)
  obtain r' k' where x: "x = (r', k')" by (cases x)
  show ?case
  proof (cases "(r, k) = x")
    case True
    have "load64 (save_mem pa rs f (store64 (pa + k) (f r) m)) (pa + k) = load64 (store64 (pa + k) (f r) m) (pa + k)"
    proof (rule save_mem_other)
      have nk: "k \<notin> snd ` set rs" using Cons(2) unfolding True [symmetric] by simp
      show "aligned8 (pa + k)" using Cons(3) [of k] True by force
      show "aligned8 (pa + k') \<and> pa + k' \<noteq> pa + k" if "k' \<in> snd ` set rs" for k' using that nk Cons(3) [of k'] by auto
    qed
    then show ?thesis using True x by (simp add: save_mem_def)
  next
    case False
    have "load64 (save_mem pa rs f (store64 (pa + k') (f r') m)) (pa + k) = f r"
      by (rule Cons(1)) (use Cons(2-4) False in auto)
    then show ?thesis using x by (simp add: save_mem_def)
  qed
qed simp

text \<open>Loading from the frame.  The base register is not among those that are loaded.\<close>

lemma run_loads:
  assumes "\<And>k. k \<in> snd ` set rs \<Longrightarrow> mmu (csrs h Satp) (regs h b + k) = pa + k" and "b \<notin> fst ` set rs" and "distinct (map fst rs)"
  shows "run mmu (loads b rs) h =
    h\<lparr>regs := (\<lambda>r. case map_of rs r of Some k \<Rightarrow> load64 (hmem h) (pa + k) | None \<Rightarrow> regs h r)\<rparr>"
  using assms
proof (induction rs arbitrary: h)
  case (Cons x rs)
  obtain r k where x: "x = (r, k)" by (cases x)
  let ?h = "h\<lparr>regs := (regs h)(r := load64 (hmem h) (pa + k))\<rparr>"
  have "mmu (csrs h Satp) (regs h b + k) = pa + k" using Cons(2) [of k] x by simp
  moreover have "run mmu (loads b rs) ?h =
      ?h\<lparr>regs := (\<lambda>r. case map_of rs r of Some k \<Rightarrow> load64 (hmem ?h) (pa + k) | None \<Rightarrow> regs ?h r)\<rparr>"
    by (rule Cons(1)) (use Cons(2-4) x in auto)
  moreover have "map_of rs r = None" using Cons(4) x by (simp add: map_of_eq_None_iff)
  ultimately show ?case using x by (auto simp: loads_def fun_eq_iff split: option.split)
qed (simp add: loads_def)

section \<open>Traps from user space\<close>

text \<open>Where \<open>struct trapframe\<close> keeps the registers of the user; a0 is saved last.\<close>

definition user_regs :: "(reg \<times> u64) list" where
  "user_regs = [(RA, 40), (SP, 48), (GP, 56), (TP, 64), (T0, 72), (T1, 80), (T2, 88), (S0, 96), (S1, 104),
     (A1, 120), (A2, 128), (A3, 136), (A4, 144), (A5, 152), (A6, 160), (A7, 168), (S2, 176), (S3, 184), (S4, 192),
     (S5, 200), (S6, 208), (S7, 216), (S8, 224), (S9, 232), (S10, 240), (S11, 248), (T3, 256), (T4, 264), (T5, 272), (T6, 280)]"

lemma uservec_eq: "uservec = [Csrw Sscratch A0, Li A0 TRAPFRAME] @ saves A0 user_regs @ [Csrr T0 Sscratch, Sd T0 112 A0,
     Ld SP 8 A0, Ld TP 32 A0, Ld T0 16 A0, Ld T1 0 A0, Sfence_vma, Csrw Satp T1, Sfence_vma, Jr T0]"
  by (simp add: uservec_def user_regs_def saves_def)

lemma userret_eq: "userret = [Sfence_vma, Csrw Satp A0, Sfence_vma, Li A0 TRAPFRAME] @ loads A0 user_regs @ [Ld A0 112 A0, Sret]"
  by (simp add: userret_def user_regs_def loads_def)

lemma user_regs_ok: "distinct (map fst user_regs)" "distinct (map snd user_regs)" "A0 \<notin> fst ` set user_regs"
  by (simp_all add: user_regs_def)

lemma user_regs_off: "k \<in> snd ` set user_regs \<Longrightarrow> k < 288 \<and> 8 dvd unat k \<and> k \<notin> {0, 8, 16, 32, 112}"
  by (auto simp: user_regs_def)

lemma user_regs_all: "r \<noteq> A0 \<Longrightarrow> \<exists>k. map_of user_regs r = Some k"
  by (cases r) (simp_all add: user_regs_def)

text \<open>Offset of a register in the trapframe.\<close>

definition tf_off :: "reg \<Rightarrow> u64" where
  "tf_off r = (case map_of user_regs r of Some k \<Rightarrow> k | None \<Rightarrow> 112)"

lemma tf_off_A0: "tf_off A0 = 112"
  by (simp add: tf_off_def user_regs_def)

lemma tf_aligned: "page_aligned tf \<Longrightarrow> 8 dvd unat k \<Longrightarrow> aligned8 (tf + k)"
  using page_aligned8 [of tf] by (simp add: aligned8_def unat_word_ariths(1) dvd_mod)

text \<open>A user page table maps the trapframe page at its fixed virtual address.\<close>

definition maps_frame :: "(u64 \<Rightarrow> u64 \<Rightarrow> u64) \<Rightarrow> u64 \<Rightarrow> u64 \<Rightarrow> bool" where
  "maps_frame mmu us tf \<longleftrightarrow> page_aligned tf \<and> (\<forall>k < 288. mmu us (TRAPFRAME + k) = tf + k)"

lemma uservec_run:
  assumes "maps_frame mmu us tf" and "csrs h Satp = us"
  defines "m \<equiv> store64 (tf + 112) (regs h A0) (save_mem tf user_regs (regs h) (hmem h))"
  shows "run mmu uservec h = h\<lparr>regs := (regs h)(A0 := TRAPFRAME, SP := load64 m (tf + 8), TP := load64 m (tf + 32),
      T0 := load64 m (tf + 16), T1 := load64 m tf), csrs := (csrs h)(Sscratch := regs h A0, Satp := load64 m tf), hmem := m,
      hpc := load64 m (tf + 16)\<rparr>"
proof -
  let ?h = "h\<lparr>csrs := (csrs h)(Sscratch := regs h A0), regs := (regs h)(A0 := TRAPFRAME)\<rparr>"
  have tr: "mmu us (274877898752 + k) = tf + k" if "k < 288" for k using assms(1) that by (simp add: maps_frame_def)
  have "run mmu (saves A0 user_regs) ?h = ?h\<lparr>hmem := save_mem tf user_regs (regs ?h) (hmem ?h)\<rparr>"
    by (rule run_saves) (use user_regs_off tr assms(2) in auto)
  moreover have "save_mem tf user_regs (regs ?h) (hmem h) = save_mem tf user_regs (regs h) (hmem h)"
    unfolding save_mem_def by (rule fold_cong) (use user_regs_ok(3) in force)+
  ultimately have "run mmu (saves A0 user_regs) ?h = ?h\<lparr>hmem := save_mem tf user_regs (regs h) (hmem h)\<rparr>" by simp
  then show ?thesis
    unfolding uservec_eq using tr [of 112] tr [of 8] tr [of 32] tr [of 16] tr [of 0] assms(2)
    by (intro hart.equality) (simp_all add: m_def fun_eq_iff)
qed

lemma uservec_mem:
  assumes "maps_frame mmu us tf" and "csrs h Satp = us"
  shows "load64 (hmem (run mmu uservec h)) (tf + tf_off r) = regs h r"
    "k \<in> {0, 8, 16, 32} \<Longrightarrow> load64 (hmem (run mmu uservec h)) (tf + k) = load64 (hmem h) (tf + k)"
proof -
  let ?m = "save_mem tf user_regs (regs h) (hmem h)"
  have m: "hmem (run mmu uservec h) = store64 (tf + 112) (regs h A0) ?m" using uservec_run [OF assms] by simp
  have al: "aligned8 (tf + k)" if "k \<in> snd ` set user_regs \<union> {0, 8, 16, 32, 112}" for k
    using that user_regs_off [of k] tf_aligned [of tf k] assms(1) by (auto simp: maps_frame_def)
  have other: "load64 (hmem (run mmu uservec h)) (tf + k) = load64 ?m (tf + k)" if "k \<noteq> 112" "aligned8 (tf + k)" for k
    unfolding m by (rule load_store64_other) (use that al in simp_all)
  show "load64 (hmem (run mmu uservec h)) (tf + tf_off r) = regs h r"
  proof (cases "r = A0")
    case False
    then obtain k where k: "map_of user_regs r = Some k" using user_regs_all by blast
    then have i: "(r, k) \<in> set user_regs" by (rule map_of_SomeD)
    then have "k \<in> snd ` set user_regs" by force
    then have "load64 (hmem (run mmu uservec h)) (tf + k) = load64 ?m (tf + k)"
      using user_regs_off [of k] al by (intro other) auto
    also have "\<dots> = regs h r" by (rule save_mem_same) (use user_regs_ok(2) al i in auto)
    finally show ?thesis using k by (simp add: tf_off_def)
  qed (simp add: m tf_off_A0)
  assume k: "k \<in> {0, 8, 16, 32}"
  have ka: "aligned8 (tf + k)" by (rule al) (use k in blast)
  have "load64 (hmem (run mmu uservec h)) (tf + k) = load64 ?m (tf + k)" by (rule other [OF _ ka]) (use k in auto)
  also have "\<dots> = load64 (hmem h) (tf + k)"
  proof (rule save_mem_other)
    show "aligned8 (tf + k)" by (rule ka)
    fix k' assume "k' \<in> snd ` set user_regs"
    then show "aligned8 (tf + k') \<and> tf + k' \<noteq> tf + k" using al [of k'] user_regs_off [of k'] k by auto
  qed
  finally show "load64 (hmem (run mmu uservec h)) (tf + k) = load64 (hmem h) (tf + k)" .
qed

lemma userret_run:
  assumes "maps_frame mmu us tf" and "regs h A0 = us"
  shows "run mmu userret h = h\<lparr>regs := (\<lambda>r. load64 (hmem h) (tf + tf_off r)), csrs := (csrs h)(Satp := us), hpc := csrs h Sepc\<rparr>"
proof -
  let ?h = "h\<lparr>csrs := (csrs h)(Satp := us), regs := (regs h)(A0 := TRAPFRAME)\<rparr>"
  have tr: "mmu us (274877898752 + k) = tf + k" if "k < 288" for k using assms(1) that by (simp add: maps_frame_def)
  have "run mmu (loads A0 user_regs) ?h =
      ?h\<lparr>regs := (\<lambda>r. case map_of user_regs r of Some k \<Rightarrow> load64 (hmem ?h) (tf + k) | None \<Rightarrow> regs ?h r)\<rparr>"
    by (rule run_loads) (use user_regs_off user_regs_ok tr in auto)
  moreover have "(\<lambda>r. case map_of user_regs r of Some k \<Rightarrow> load64 (hmem ?h) (tf + k) | None \<Rightarrow> regs ?h r) =
      (\<lambda>r. if r = A0 then TRAPFRAME else load64 (hmem h) (tf + tf_off r))"
  proof
    fix r
    have "map_of user_regs A0 = None" using user_regs_ok(3) by (simp add: map_of_eq_None_iff)
    then show "(case map_of user_regs r of Some k \<Rightarrow> load64 (hmem ?h) (tf + k) | None \<Rightarrow> regs ?h r) =
        (if r = A0 then TRAPFRAME else load64 (hmem h) (tf + tf_off r))"
      using user_regs_all [of r] by (cases "r = A0") (auto simp: tf_off_def)
  qed
  ultimately have "run mmu (loads A0 user_regs) ?h = ?h\<lparr>regs := (\<lambda>r. if r = A0 then TRAPFRAME else load64 (hmem h) (tf + tf_off r))\<rparr>"
    by metis
  then show ?thesis
    unfolding userret_eq using tr [of 112] assms(2) by (intro hart.equality) (simp_all add: fun_eq_iff tf_off_A0)
qed

text \<open>C28. A trap from user space loses nothing.  When the user page table maps the trapframe page, \<open>uservec\<close> stores all 31
  registers of the user at their places in \<open>struct trapframe\<close>, takes the stack, the hart number and the page table of
  the kernel from the frame and jumps to the handler named there; \<open>userret\<close>, called with the user page table, gives
  every register the value that the frame holds for it and returns to \<open>sepc\<close>.  So a user whose frame the kernel left alone
  goes on with the registers it had.\<close>

theorem trap_roundtrip:
  assumes "maps_frame mmu us tf" and "csrs h Satp = us" and "regs h' A0 = us"
  shows "let u = run mmu uservec h; v = run mmu userret h'
    in (\<forall>r. load64 (hmem u) (tf + tf_off r) = regs h r) \<and>
       regs u SP = load64 (hmem h) (tf + 8) \<and> regs u TP = load64 (hmem h) (tf + 32) \<and>
       csrs u Satp = load64 (hmem h) tf \<and> hpc u = load64 (hmem h) (tf + 16) \<and>
       (\<forall>r. regs v r = load64 (hmem h') (tf + tf_off r)) \<and> hmem v = hmem h' \<and> csrs v Satp = us \<and> hpc v = csrs h' Sepc \<and>
       ((\<forall>r. load64 (hmem h') (tf + tf_off r) = load64 (hmem u) (tf + tf_off r)) \<longrightarrow> regs v = regs h)"
proof -
  note u = uservec_run [OF assms(1,2)] and m = uservec_mem [OF assms(1,2)]
  have "hmem (run mmu uservec h) = store64 (tf + 112) (regs h A0) (save_mem tf user_regs (regs h) (hmem h))" using u by simp
  note k = m(2) [of 0, unfolded this] m(2) [of 8, unfolded this] m(2) [of 16, unfolded this] m(2) [of 32, unfolded this]
  have "regs (run mmu uservec h) SP = load64 (hmem h) (tf + 8) \<and> regs (run mmu uservec h) TP = load64 (hmem h) (tf + 32) \<and>
      csrs (run mmu uservec h) Satp = load64 (hmem h) tf \<and> hpc (run mmu uservec h) = load64 (hmem h) (tf + 16)"
    unfolding u using k by simp
  then show ?thesis using m(1) userret_run [OF assms(1,3)] by (simp add: Let_def fun_eq_iff)
qed

text \<open>A page table that maps the frame to one page and everything else to itself.\<close>

theorem trap_roundtrip_witness:
  "\<exists>mmu. mmu 1 0x3FFFFFE000 = 0x80001000 \<and> (\<forall>m. hpc (run mmu uservec \<lparr>regs = (\<lambda>_. 7), csrs = (\<lambda>_. 1), hmem = m, hpc = 0\<rparr>)
     = load64 m 0x80001010)"
proof -
  let ?mmu = "\<lambda>t va :: u64. if t = 1 then 0x80001000 + (va - TRAPFRAME) else va"
  have "maps_frame ?mmu 1 0x80001000" by (simp add: maps_frame_def page_aligned_def)
  from trap_roundtrip [OF this, of "\<lparr>regs = (\<lambda>_. 7), csrs = (\<lambda>_. 1), hmem = _, hpc = 0\<rparr>" "\<lparr>regs = (\<lambda>_. 1), csrs = (\<lambda>_. 1), hmem = (\<lambda>_. 0), hpc = 0\<rparr>"]
  show ?thesis by (intro exI [of _ ?mmu]) (simp add: Let_def)
qed

section \<open>Context switches\<close>

text \<open>Where \<open>struct context\<close> keeps the registers.\<close>

definition ctx_regs :: "(reg \<times> u64) list" where
  "ctx_regs = [(RA, 0), (SP, 8), (S0, 16), (S1, 24), (S2, 32), (S3, 40), (S4, 48), (S5, 56), (S6, 64), (S7, 72),
     (S8, 80), (S9, 88), (S10, 96), (S11, 104)]"

lemma swtch_eq: "swtch = saves A0 ctx_regs @ loads A1 ctx_regs @ [Jr RA]"
  by (simp add: swtch_def ctx_regs_def saves_def loads_def)

lemma ctx_regs_ok: "distinct (map fst ctx_regs)" "distinct (map snd ctx_regs)" "A1 \<notin> fst ` set ctx_regs" "A0 \<notin> fst ` set ctx_regs"
  "map_of ctx_regs RA = Some 0"
  by (simp_all add: ctx_regs_def)

lemma ctx_regs_off: "k \<in> snd ` set ctx_regs \<Longrightarrow> k < 112 \<and> 8 dvd unat k"
  by (auto simp: ctx_regs_def)

text \<open>Two aligned contexts of the kernel that do not overlap; the kernel maps its own memory to itself.\<close>

definition contexts :: "(u64 \<Rightarrow> u64) \<Rightarrow> u64 \<Rightarrow> u64 \<Rightarrow> bool" where
  "contexts tr old new \<longleftrightarrow> aligned8 old \<and> aligned8 new \<and>
     (\<forall>k < 112. tr (old + k) = old + k \<and> tr (new + k) = new + k \<and> (\<forall>j < 112. old + k \<noteq> new + j))"

lemma aligned8_add: "aligned8 a \<Longrightarrow> 8 dvd unat k \<Longrightarrow> aligned8 (a + k)"
  by (simp add: aligned8_def unat_word_ariths(1) dvd_mod)

lemma swtch_run:
  assumes "contexts (mmu (csrs h Satp)) old new" and "regs h A0 = old" and "regs h A1 = new"
  defines "m \<equiv> save_mem old ctx_regs (regs h) (hmem h)"
  shows "run mmu swtch h = h\<lparr>regs := (\<lambda>r. case map_of ctx_regs r of Some k \<Rightarrow> load64 (hmem h) (new + k) | None \<Rightarrow> regs h r),
      hmem := m, hpc := load64 (hmem h) new\<rparr>"
    "(r, k) \<in> set ctx_regs \<Longrightarrow> load64 m (old + k) = regs h r"
proof -
  have al: "aligned8 (old + k)" "aligned8 (new + k)" if "k \<in> snd ` set ctx_regs" for k
    using that ctx_regs_off [of k] assms(1) aligned8_add [of old k] aligned8_add [of new k] by (simp_all add: contexts_def)
  have tr: "mmu (csrs h Satp) (old + k) = old + k" "mmu (csrs h Satp) (new + k) = new + k" if "k \<in> snd ` set ctx_regs" for k
    using that ctx_regs_off [of k] assms(1) by (simp_all add: contexts_def)
  have ld: "load64 m (new + k) = load64 (hmem h) (new + k)" if k: "k \<in> snd ` set ctx_regs" for k
    unfolding m_def
  proof (rule save_mem_other [OF al(2) [OF k]])
    fix j assume j: "j \<in> snd ` set ctx_regs"
    then show "aligned8 (old + j) \<and> old + j \<noteq> new + k"
      using al(1) [OF j] ctx_regs_off [OF j] ctx_regs_off [OF k] assms(1) by (simp add: contexts_def)
  qed
  have s: "run mmu (saves A0 ctx_regs) h = h\<lparr>hmem := m\<rparr>" unfolding m_def by (rule run_saves) (simp add: assms(2) tr(1))
  have l: "run mmu (loads A1 ctx_regs) (h\<lparr>hmem := m\<rparr>) =
      (h\<lparr>hmem := m\<rparr>)\<lparr>regs := (\<lambda>r. case map_of ctx_regs r of Some k \<Rightarrow> load64 (hmem (h\<lparr>hmem := m\<rparr>)) (new + k) | None \<Rightarrow> regs (h\<lparr>hmem := m\<rparr>) r)\<rparr>"
    by (rule run_loads) (simp_all add: assms(3) tr(2) ctx_regs_ok)
  have q: "hmem (h\<lparr>hmem := m\<rparr>) = m" "regs (h\<lparr>hmem := m\<rparr>) = regs h" by simp_all
  have e: "(\<lambda>r. case map_of ctx_regs r of Some k \<Rightarrow> load64 m (new + k) | None \<Rightarrow> regs h r) =
      (\<lambda>r. case map_of ctx_regs r of Some k \<Rightarrow> load64 (hmem h) (new + k) | None \<Rightarrow> regs h r)"
  proof
    fix r
    show "(case map_of ctx_regs r of Some k \<Rightarrow> load64 m (new + k) | None \<Rightarrow> regs h r) =
        (case map_of ctx_regs r of Some k \<Rightarrow> load64 (hmem h) (new + k) | None \<Rightarrow> regs h r)"
    proof (cases "map_of ctx_regs r")
      case (Some k)
      then have "k \<in> snd ` set ctx_regs" by (force dest: map_of_SomeD)
      then show ?thesis using Some ld by simp
    qed simp
  qed
  show "run mmu swtch h = h\<lparr>regs := (\<lambda>r. case map_of ctx_regs r of Some k \<Rightarrow> load64 (hmem h) (new + k) | None \<Rightarrow> regs h r),
      hmem := m, hpc := load64 (hmem h) new\<rparr>"
    unfolding swtch_eq run_simps s l [unfolded q e] using ctx_regs_ok(5) by simp
  show "(r, k) \<in> set ctx_regs \<Longrightarrow> load64 m (old + k) = regs h r"
    unfolding m_def by (rule save_mem_same) (simp_all add: ctx_regs_ok al)
qed

text \<open>C29. A context switch.  \<open>swtch(old, new)\<close> stores the return address, the stack pointer and the callee-saved
  registers in \<open>old\<close>, takes them from \<open>new\<close> and goes on at the return address of \<open>new\<close>; the other registers stay.  When the
  other side later switches back with the same two contexts in exchanged roles, the first one finds its own
  registers again and goes on where it called \<open>swtch\<close>.\<close>

theorem swtch_roundtrip:
  assumes "contexts (mmu (csrs h Satp)) old new" and "regs h A0 = old" and "regs h A1 = new"
  shows "let v = run mmu swtch h; w = run mmu swtch (v\<lparr>regs := (regs v)(A0 := new, A1 := old)\<rparr>)
    in hpc v = load64 (hmem h) new \<and>
       (\<forall>r. regs v r = (case map_of ctx_regs r of Some k \<Rightarrow> load64 (hmem h) (new + k) | None \<Rightarrow> regs h r)) \<and>
       hpc w = regs h RA \<and> (\<forall>r \<in> fst ` set ctx_regs. regs w r = regs h r)"
proof -
  let ?v = "run mmu swtch h"
  let ?h = "?v\<lparr>regs := (regs ?v)(A0 := new, A1 := old)\<rparr>"
  note v = swtch_run [where mmu = mmu and h = h, OF assms]
  have c: "contexts (mmu (csrs ?h Satp)) new old" using assms(1) v(1) by (simp add: contexts_def) metis
  note w = swtch_run [where mmu = mmu and h = ?h, OF c]
  have m: "hmem ?h = save_mem old ctx_regs (regs h) (hmem h)" using v(1) by simp
  have wr: "regs (run mmu swtch ?h) r = regs h r" if r: "r \<in> fst ` set ctx_regs" for r
  proof -
    obtain k where k: "map_of ctx_regs r = Some k" using r by (metis map_of_eq_None_iff not_None_eq)
    then have "regs (run mmu swtch ?h) r = load64 (hmem ?h) (old + k)" using w(1) by simp
    then show ?thesis using v(2) [OF map_of_SomeD [OF k]] m by simp
  qed
  have "hpc (run mmu swtch ?h) = load64 (hmem ?h) old" using w(1) by simp
  then have "hpc (run mmu swtch ?h) = regs h RA" using v(2) [of RA 0] m by (simp add: ctx_regs_def)
  then show ?thesis using wr v(1) by (simp add: Let_def)
qed

theorem swtch_roundtrip_witness:
  "\<exists>h. regs h S3 = 5 \<and> regs (run (\<lambda>_ va. va) swtch ((run (\<lambda>_ va. va) swtch h)\<lparr>regs := (regs (run (\<lambda>_ va. va) swtch h))(A0 := 0x80002000, A1 := 0x80001000)\<rparr>)) S3 = 5"
proof -
  let ?h = "\<lparr>regs = (\<lambda>_. 5)(A0 := 0x80001000, A1 := 0x80002000), csrs = (\<lambda>_. 0), hmem = (\<lambda>_. 0), hpc = 0\<rparr>"
  have "(0x80001000 :: u64) + k \<noteq> 0x80002000 + j" if "k < 112" "j < 112" for k j
  proof -
    have "unat (0x80001000 + k) = 0x80001000 + unat k" "unat (0x80002000 + j) = 0x80002000 + unat j"
      using that by (simp_all add: unat_add_no_wrap word_less_nat_alt)
    then show ?thesis using that by (auto simp: word_less_nat_alt)
  qed
  then have "contexts (\<lambda>va. va) 0x80001000 0x80002000" by (simp add: contexts_def aligned8_def)
  then have "contexts ((\<lambda>_ va. va) (csrs ?h Satp)) 0x80001000 0x80002000" .
  from swtch_roundtrip [where mmu = "\<lambda>_ va. va" and h = ?h, OF this] show ?thesis by (intro exI [of _ ?h]) (simp add: Let_def ctx_regs_def)
qed

section \<open>Traps in the kernel\<close>

definition vec_regs :: "(reg \<times> u64) list" where
  "vec_regs = [(GP, 16), (T0, 32), (T1, 40), (T2, 48), (A0, 72), (A1, 80), (A2, 88), (A3, 96), (A4, 104), (A5, 112),
     (A6, 120), (A7, 128), (T3, 216), (T4, 224), (T5, 232), (T6, 240)]"

definition vec_saved :: "(reg \<times> u64) list" where
  "vec_saved = [(RA, 0), (SP, 8), (GP, 16), (TP, 24), (T0, 32), (T1, 40), (T2, 48), (A0, 72), (A1, 80), (A2, 88), (A3, 96),
     (A4, 104), (A5, 112), (A6, 120), (A7, 128), (T3, 216), (T4, 224), (T5, 232), (T6, 240)]"

lemma kernelvec_eq: "kernelvec_enter = Addi SP SP (- 256) # saves SP vec_saved"
  "kernelvec_leave = [Ld RA 0 SP, Ld SP 8 SP] @ loads SP vec_regs @ [Addi SP SP 256, Sret]"
  by (simp_all add: kernelvec_enter_def kernelvec_leave_def vec_saved_def vec_regs_def saves_def loads_def)

lemma vec_ok: "distinct (map snd vec_saved)" "distinct (map fst vec_regs)" "SP \<notin> fst ` set vec_regs"
  "set vec_regs \<subseteq> set vec_saved" "(RA, 0) \<in> set vec_saved" "(SP, 8) \<in> set vec_saved"
  by (simp_all add: vec_saved_def vec_regs_def)

lemma vec_off: "k \<in> snd ` set vec_saved \<Longrightarrow> k \<le> 240 \<and> 8 dvd unat k"
  by (auto simp: vec_saved_def)

lemma vec_callee: "r \<notin> {RA, SP, TP} \<Longrightarrow> map_of vec_regs r = None \<Longrightarrow> r \<in> {S0, S1, S2, S3, S4, S5, S6, S7, S8, S9, S10, S11}"
  by (cases r) (simp_all add: vec_regs_def)

text \<open>What the calling convention asks of a C function called from \<open>kernelvec\<close>: it gives back the stack pointer, the
  callee-saved registers and the frame of its caller, and the kernel does not change its page table.\<close>

definition c_call :: "u64 \<Rightarrow> hart \<Rightarrow> hart \<Rightarrow> bool" where
  "c_call pa h h' \<longleftrightarrow> csrs h' Satp = csrs h Satp \<and> regs h' SP = regs h SP \<and>
     (\<forall>r \<in> {S0, S1, S2, S3, S4, S5, S6, S7, S8, S9, S10, S11}. regs h' r = regs h r) \<and>
     (\<forall>k < 256. hmem h' (pa + k) = hmem h (pa + k))"

text \<open>The frame of \<open>kernelvec\<close> on the kernel stack is at physical address \<open>pa\<close>.\<close>

definition stack_frame :: "(u64 \<Rightarrow> u64) \<Rightarrow> u64 \<Rightarrow> u64 \<Rightarrow> bool" where
  "stack_frame tr sp pa \<longleftrightarrow> aligned8 pa \<and> (\<forall>k < 256. tr (sp - 256 + k) = pa + k)"

lemma kernelvec_enter_run:
  assumes "stack_frame (mmu (csrs h Satp)) (regs h SP) pa"
  defines "g \<equiv> (regs h)(SP := regs h SP - 256)"
  shows "run mmu kernelvec_enter h = h\<lparr>regs := g, hmem := save_mem pa vec_saved g (hmem h)\<rparr>"
proof -
  let ?h = "h\<lparr>regs := g\<rparr>"
  have "run mmu (saves SP vec_saved) ?h = ?h\<lparr>hmem := save_mem pa vec_saved (regs ?h) (hmem ?h)\<rparr>"
  proof (rule run_saves)
    fix k assume "k \<in> snd ` set vec_saved"
    then have "k < 256" using vec_off [of k] by (auto simp: word_le_nat_alt word_less_nat_alt)
    then show "mmu (csrs ?h Satp) (regs ?h SP + k) = pa + k" using assms(1) by (simp add: stack_frame_def g_def)
  qed
  then show ?thesis by (simp add: kernelvec_eq g_def)
qed

lemma frame_word:
  assumes "c_call pa h h'" and "k \<in> snd ` set vec_saved"
  shows "load64 (hmem h') (pa + k) = load64 (hmem h) (pa + k)"
proof (rule load64_cong)
  fix i :: nat assume i: "i < 8"
  have "unat k \<le> 240" using vec_off [OF assms(2)] by (simp add: word_le_nat_alt)
  then have "unat (k + of_nat i) = unat k + i" using i unat_add_no_wrap [of k "of_nat i"] by (simp add: unat_of_nat_u64)
  then have "k + of_nat i < 256" using \<open>unat k \<le> 240\<close> i by (simp add: word_less_nat_alt)
  then show "hmem h' (pa + k + of_nat i) = hmem h (pa + k + of_nat i)" using assms(1) by (simp add: c_call_def add.assoc)
qed

text \<open>C30. An interrupt in the kernel is invisible to the code it interrupts.  \<open>kernelvec\<close> saves the caller-saved registers in a
  frame below the stack pointer, calls the C handler and restores them: when the handler respects the calling
  convention, every register has its value from before the interrupt except \<open>tp\<close>, which keeps what the handler
  left there, because the thread may have moved to another hart; execution goes on at \<open>sepc\<close>.\<close>

theorem kernelvec_transparent:
  assumes "stack_frame (mmu (csrs h Satp)) (regs h SP) pa"
    and "c_call pa (run mmu kernelvec_enter h) (kerneltrap (run mmu kernelvec_enter h))"
  shows "let h' = kerneltrap (run mmu kernelvec_enter h); v = run mmu kernelvec_leave h'
    in (\<forall>r. r \<noteq> TP \<longrightarrow> regs v r = regs h r) \<and> regs v TP = regs h' TP \<and> hpc v = csrs h' Sepc \<and> hmem v = hmem h'"
proof -
  define g where "g = (regs h)(SP := regs h SP - 256)"
  define h1 where "h1 = run mmu kernelvec_enter h"
  define h' where "h' = kerneltrap h1"
  have h1: "h1 = h\<lparr>regs := g, hmem := save_mem pa vec_saved g (hmem h)\<rparr>"
    unfolding h1_def g_def by (rule kernelvec_enter_run [where mmu = mmu and h = h, OF assms(1)])
  have c: "c_call pa h1 h'" using assms(2) by (simp add: h1_def h'_def)
  have sp: "regs h' SP = regs h SP - 256" "csrs h' Satp = csrs h Satp" using c h1 by (simp_all add: c_call_def g_def)
  have al: "aligned8 (pa + k)" if "k \<in> snd ` set vec_saved" for k
    using that vec_off [of k] assms(1) aligned8_add [of pa k] by (simp add: stack_frame_def)
  have ld: "load64 (hmem h') (pa + k) = g r" if k: "(r, k) \<in> set vec_saved" for r k
  proof -
    have "k \<in> snd ` set vec_saved" using k by force
    then have "load64 (hmem h') (pa + k) = load64 (hmem h1) (pa + k)" by (rule frame_word [OF c])
    also have "\<dots> = g r" unfolding h1 using save_mem_same [OF vec_ok(1) al k] by simp
    finally show ?thesis .
  qed
  have tr: "mmu (csrs h Satp) (regs h SP - 256 + k) = pa + k" if "k \<in> snd ` set vec_saved" for k
  proof -
    have "k < 256" using that vec_off [of k] by (auto simp: word_le_nat_alt word_less_nat_alt)
    then show ?thesis using assms(1) by (simp add: stack_frame_def)
  qed
  have tr0: "mmu (csrs h Satp) (regs h SP - 256) = pa" "mmu (csrs h Satp) (regs h SP - 256 + 8) = pa + 8"
    using tr [of 0] tr [of 8] by (simp_all add: vec_saved_def)
  have w: "load64 (hmem h') pa = regs h RA" "load64 (hmem h') (pa + 8) = regs h SP - 256"
    using ld [OF vec_ok(5)] ld [OF vec_ok(6)] by (simp_all add: g_def)
  let ?k = "h'\<lparr>regs := (regs h')(RA := regs h RA, SP := regs h SP - 256)\<rparr>"
  have "run mmu (loads SP vec_regs) ?k =
      ?k\<lparr>regs := (\<lambda>r. case map_of vec_regs r of Some k \<Rightarrow> load64 (hmem ?k) (pa + k) | None \<Rightarrow> regs ?k r)\<rparr>"
  proof (rule run_loads [OF _ vec_ok(3) vec_ok(2)])
    fix k assume "k \<in> snd ` set vec_regs"
    then have "k \<in> snd ` set vec_saved" using vec_ok(4) by blast
    then show "mmu (csrs ?k Satp) (regs ?k SP + k) = pa + k" using tr sp(2) by simp
  qed
  moreover have "step mmu (Ld SP 8 SP) (step mmu (Ld RA 0 SP) h') = ?k" using sp tr0 w by simp
  ultimately have v: "run mmu kernelvec_leave h' = step mmu Sret (step mmu (Addi SP SP 256)
      (?k\<lparr>regs := (\<lambda>r. case map_of vec_regs r of Some k \<Rightarrow> load64 (hmem ?k) (pa + k) | None \<Rightarrow> regs ?k r)\<rparr>))"
    unfolding kernelvec_eq by (simp only: run_simps append.simps)
  have mo: "map_of vec_regs SP = None" "map_of vec_regs TP = None" "map_of vec_regs RA = None" by (simp_all add: vec_regs_def)
  have "regs (run mmu kernelvec_leave h') r = regs h r" if r: "r \<noteq> TP" for r
  proof (cases "map_of vec_regs r")
    case (Some k)
    then have "r \<noteq> SP" using mo by auto
    moreover have "load64 (hmem h') (pa + k) = g r" using ld map_of_SomeD [OF Some] vec_ok(4) by blast
    ultimately show ?thesis using Some by (simp add: v g_def)
  next
    case None
    show ?thesis
    proof (cases "r \<in> {RA, SP}")
      case False
      then have "r \<in> {S0, S1, S2, S3, S4, S5, S6, S7, S8, S9, S10, S11}" using vec_callee [OF _ None] r by blast
      then have "regs h' r = regs h1 r" using c unfolding c_call_def by blast
      then show ?thesis using False None by (simp add: v h1 g_def)
    qed (use None mo in \<open>auto simp: v\<close>)
  qed
  moreover have "regs (run mmu kernelvec_leave h') TP = regs h' TP" "hpc (run mmu kernelvec_leave h') = csrs h' Sepc"
    "hmem (run mmu kernelvec_leave h') = hmem h'" using mo by (simp_all add: v)
  ultimately show ?thesis by (simp add: Let_def h1_def [symmetric] h'_def [symmetric])
qed

theorem kernelvec_transparent_witness:
  "let h = \<lparr>regs = (\<lambda>_. 0x80005000), csrs = (\<lambda>_. 0), hmem = (\<lambda>_. 0), hpc = 0\<rparr>;
       handler = (\<lambda>h. h\<lparr>regs := (regs h)(A0 := 1, T3 := 2, TP := 3)\<rparr>);
       v = run (\<lambda>_ va. va) kernelvec_leave (handler (run (\<lambda>_ va. va) kernelvec_enter h))
   in regs v A0 = 0x80005000 \<and> regs v T3 = 0x80005000 \<and> regs v SP = 0x80005000 \<and> regs v TP = 3"
proof -
  let ?h = "\<lparr>regs = (\<lambda>_. 0x80005000), csrs = (\<lambda>_. 0), hmem = (\<lambda>_. 0), hpc = 0\<rparr> :: hart"
  let ?f = "\<lambda>h :: hart. h\<lparr>regs := (regs h)(A0 := 1, T3 := 2, TP := 3)\<rparr>"
  have "stack_frame ((\<lambda>_ va. va) (csrs ?h Satp)) (regs ?h SP) 0x80004F00" by (simp add: stack_frame_def aligned8_def)
  moreover have "c_call 0x80004F00 h (?f h)" for h by (simp add: c_call_def)
  ultimately show ?thesis
    using kernelvec_transparent [where mmu = "\<lambda>_ va. va" and h = ?h and kerneltrap = ?f and pa = "0x80004F00"] by (simp add: Let_def)
qed

text \<open>Each hart starts with its own stack.\<close>

lemma entry_stack: "regs (run mmu (entry stack0) h) SP = stack0 + 4096 * (csrs h Mhartid + 1)"
  by (simp add: entry_def)

end
