(* ===== verification/Ulib.thy ===== *)
theory Ulib
  imports Printf Cstring
begin

text \<open>
  The library of the user programs: \<open>user/ulib.c\<close> and \<open>user/printf.c\<close>.  A program runs against the
  system calls declared in \<open>user/user.h\<close>.  They are a parameter: a record of functions on a state \<open>'w\<close>
  of everything outside the program.  A C string is the list of its bytes before the NUL; arrays that
  a routine fills are lists of their size, as in \<open>Cstring\<close>.
\<close>

section \<open>System calls\<close>

text \<open>\<open>read\<close> yields its return value and the bytes stored at the pointer.\<close>

record ustat =
  st_dev :: i32
  st_ino :: u32
  st_type :: u16
  st_nlink :: u16
  st_size :: u64

record 'w sys =
  sys_read :: "i32 \<Rightarrow> nat \<Rightarrow> 'w \<Rightarrow> i32 \<times> u8 list \<times> 'w"
  sys_write :: "i32 \<Rightarrow> u8 list \<Rightarrow> 'w \<Rightarrow> i32 \<times> 'w"
  sys_open :: "u8 list \<Rightarrow> nat \<Rightarrow> 'w \<Rightarrow> i32 \<times> 'w"
  sys_close :: "i32 \<Rightarrow> 'w \<Rightarrow> i32 \<times> 'w"
  sys_fstat :: "i32 \<Rightarrow> 'w \<Rightarrow> i32 \<times> ustat \<times> 'w"
  sys_unlink :: "u8 list \<Rightarrow> 'w \<Rightarrow> i32 \<times> 'w"
  sys_mkdir :: "u8 list \<Rightarrow> 'w \<Rightarrow> i32 \<times> 'w"
  sys_link :: "u8 list \<Rightarrow> u8 list \<Rightarrow> 'w \<Rightarrow> i32 \<times> 'w"
  sys_kill :: "i32 \<Rightarrow> 'w \<Rightarrow> i32 \<times> 'w"

section \<open>Strings and memory\<close>

fun ustrcpy_loop :: "nat \<Rightarrow> u8 list \<Rightarrow> u8 list \<Rightarrow> u8 list res" where
  "ustrcpy_loop i s [] = arr_set s i 0"
| "ustrcpy_loop i s (c # t) = bindR (arr_set s i c) (\<lambda>s. ustrcpy_loop (Suc i) s t)"

definition ustrcpy :: "u8 list \<Rightarrow> u8 list \<Rightarrow> u8 list res" where
  "ustrcpy s t = ustrcpy_loop 0 s t"

definition hd0 :: "u8 list \<Rightarrow> u8" where
  "hd0 s = (case s of [] \<Rightarrow> 0 | c # _ \<Rightarrow> c)"

fun strcmp :: "u8 list \<Rightarrow> u8 list \<Rightarrow> int" where
  "strcmp (c # p) q = (if c = hd0 q then strcmp p (tl q) else uint c - uint (hd0 q))"
| "strcmp [] q = 0 - uint (hd0 q)"

definition ustrlen :: "u8 list \<Rightarrow> u32" where
  "ustrlen s = of_nat (length s)"

text \<open>As in the kernel, for less than \<open>2 ^ 31\<close> bytes.\<close>

definition umemset :: "u64 \<Rightarrow> i32 \<Rightarrow> u32 \<Rightarrow> mem \<Rightarrow> mem" where
  "umemset dst c n m = fold (\<lambda>i m. m(dst + of_nat i := ucast c)) [0..<unat n] m"

text \<open>The index of the first \<open>c\<close>.\<close>

fun strchr :: "u8 list \<Rightarrow> u8 \<Rightarrow> nat option" where
  "strchr [] c = None"
| "strchr (x # s) c = (if x = 0 then None else if x = c then Some 0 else map_option Suc (strchr s c))"

text \<open>\<open>gets\<close>: the bytes read so far are \<open>bs\<close>, at most \<open>n\<close> more fit.\<close>

fun gets_loop :: "'w sys \<Rightarrow> nat \<Rightarrow> u8 list \<Rightarrow> 'w \<Rightarrow> u8 list \<times> 'w" where
  "gets_loop S 0 bs w = (bs, w)"
| "gets_loop S (Suc n) bs w =
     (let (cc, cs, w) = sys_read S 0 1 w
      in if ilt cc 1 then (bs, w)
         else let c = hd0 cs
              in if c = 10 \<or> c = 13 then (bs @ [c], w) else gets_loop S n (bs @ [c]) w)"

definition gets :: "'w sys \<Rightarrow> u8 list \<Rightarrow> i32 \<Rightarrow> 'w \<Rightarrow> (u8 list \<times> 'w) res" where
  "gets S buf mx w =
     (let (bs, w) = gets_loop S (nat (sint mx - 1)) [] w
      in bindR (ustrcpy buf bs) (\<lambda>buf. Ok (buf, w)))"

definition stat :: "'w sys \<Rightarrow> u8 list \<Rightarrow> 'w \<Rightarrow> i32 \<times> ustat option \<times> 'w" where
  "stat S n w =
     (let (fd, w) = sys_open S n 0 w
      in if ilt fd 0 then (- 1, None, w)
         else let (r, st, w) = sys_fstat S fd w; (_, w) = sys_close S fd w in (r, Some st, w))"

text \<open>The sum \<open>n * 10 + c\<close> is one of \<open>int\<close>s and is taken before \<open>'0'\<close> is subtracted; where it leaves the range of
  \<open>int\<close> the C program has no meaning.\<close>

fun atoi_loop :: "i32 \<Rightarrow> u8 list \<Rightarrow> i32 res" where
  "atoi_loop n [] = Ok n"
| "atoi_loop n (c # s) =
     (if 48 \<le> c \<and> c \<le> 57
      then if - (2 ^ 31) \<le> sint n * 10 \<and> sint n * 10 + uint c < 2 ^ 31 then atoi_loop (n * 10 + ucast c - 48) s else Undef
      else Ok n)"

definition atoi :: "u8 list \<Rightarrow> i32 res" where
  "atoi s = atoi_loop 0 s"

definition umemmove :: "u64 \<Rightarrow> u64 \<Rightarrow> i32 \<Rightarrow> mem \<Rightarrow> mem" where
  "umemmove dst src n m =
     (let k = nat (sint n)
      in if src > dst then copy_up k dst src m else copy_down k (dst + scast n) (src + scast n) m)"

definition umemcmp :: "u64 \<Rightarrow> u64 \<Rightarrow> u32 \<Rightarrow> mem \<Rightarrow> int" where
  "umemcmp s1 s2 n m = memcmp_loop (unat n) s1 s2 m"

definition umemcpy :: "u64 \<Rightarrow> u64 \<Rightarrow> u32 \<Rightarrow> mem \<Rightarrow> mem" where
  "umemcpy dst src n m = umemmove dst src n m"

section \<open>Formatted output\<close>

definition putc :: "'w sys \<Rightarrow> i32 \<Rightarrow> u8 \<Rightarrow> 'w \<Rightarrow> 'w" where
  "putc S fd c w = snd (sys_write S fd [c] w)"

definition puts :: "'w sys \<Rightarrow> i32 \<Rightarrow> u8 list \<Rightarrow> 'w \<Rightarrow> 'w" where
  "puts S fd = fold (putc S fd)"

text \<open>The array \<open>digits\<close>, with its terminating 0 as the element 16.\<close>

definition udigit :: "nat \<Rightarrow> u8" where
  "udigit d = (bytes ''0123456789ABCDEF'' @ [0]) ! d"

text \<open>The bytes that \<open>printint\<close> prints.  The program has no meaning where it divides by 0 or for ever by 1, reads
  behind the array \<open>digits\<close>, stores a 17th byte into \<open>buf[16]\<close>, or negates the smallest \<open>int\<close>.\<close>

definition uprintint :: "i32 \<Rightarrow> nat \<Rightarrow> bool \<Rightarrow> u8 list res" where
  "uprintint xx base sg =
     (let neg = sg \<and> ilt xx 0;
          x = (if neg then - xx else xx);
          ds = digits_lsb base (unat x);
          buf = map udigit ds @ (if neg then bytes ''-'' else [])
      in if base < 2 \<or> neg \<and> xx = 0x80000000 \<or> list_ex (\<lambda>d. 16 < d) ds \<or> length buf > 16 then Undef else Ok (rev buf))"

definition uprintptr :: "u64 \<Rightarrow> u8 list" where
  "uprintptr x = bytes ''0x'' @ map (\<lambda>i. udigit (unat (drop_bit 60 (push_bit (4 * i) x)))) [0..<16]"

text \<open>A 64-bit argument of an integer conversion is truncated by the parameter of \<open>printint\<close>.\<close>

fun uconvert :: "conv \<Rightarrow> va list \<Rightarrow> (u8 list \<times> va list) res" where
  "uconvert (ConvInt base sg) (VInt n # ap) = bindR (uprintint n base sg) (\<lambda>bs. Ok (bs, ap))"
| "uconvert (ConvLong base sg) (VU64 n # ap) = bindR (uprintint (ucast n) base sg) (\<lambda>bs. Ok (bs, ap))"
| "uconvert ConvPtr (VU64 n # ap) = Ok (uprintptr n, ap)"
| "uconvert ConvStr (VStr None # ap) = Ok (bytes ''(null)'', ap)"
| "uconvert ConvStr (VStr (Some bs) # ap) = Ok (bs, ap)"
| "uconvert ConvPercent ap = Ok (bytes ''%'', ap)"
| "uconvert (ConvOther c) ap = Ok (bytes [CHR ''%'', c], ap)"
| "uconvert _ _ = Undef"

function vprintf :: "'w sys \<Rightarrow> i32 \<Rightarrow> string \<Rightarrow> va list \<Rightarrow> 'w \<Rightarrow> 'w res" where
  "vprintf S fd fmt ap w =
     (case fmt of
        [] \<Rightarrow> Ok w
      | cx # fmt1 \<Rightarrow>
          if cx \<noteq> CHR ''%'' then vprintf S fd fmt1 ap (putc S fd (of_char cx) w)
          else (case fmt1 of
                  [] \<Rightarrow> Ok w
                | c0 # fmt2 \<Rightarrow>
                    let (cv, k) = conversion c0 (nth_opt fmt2 0) (nth_opt fmt2 1)
                    in bindR (uconvert cv ap) (\<lambda>(bs, ap). vprintf S fd (drop k fmt2) ap (puts S fd bs w))))"
  by pat_completeness auto
termination
  by (relation "measure (\<lambda>(S, fd, fmt, ap, w). length fmt)") auto

declare vprintf.simps [simp del]

definition fprintf :: "'w sys \<Rightarrow> i32 \<Rightarrow> string \<Rightarrow> va list \<Rightarrow> 'w \<Rightarrow> 'w res" where
  "fprintf S fd fmt ap w = vprintf S fd fmt ap w"

definition uprintf :: "'w sys \<Rightarrow> string \<Rightarrow> va list \<Rightarrow> 'w \<Rightarrow> 'w res" where
  "uprintf S fmt ap w = vprintf S 1 fmt ap w"

text \<open>A format that ends in a newline, and a step after some output.\<close>

definition ln :: "string \<Rightarrow> string" where
  "ln s = s @ [CHR 0x0A]"

definition thenP :: "'w res \<Rightarrow> ('w \<Rightarrow> 'b option) \<Rightarrow> 'b option" where
  "thenP r f = (case r of Ok w \<Rightarrow> f w | _ \<Rightarrow> None)"

section \<open>Numbers printed and read back\<close>

lemma digits_lsb_less: "2 \<le> base \<Longrightarrow> d \<in> set (digits_lsb base x) \<Longrightarrow> d < base"
proof (induction base x rule: digits_lsb.induct)
  case (1 base x)
  then show ?case by (subst (asm) (2) digits_lsb.simps) (auto split: if_splits)
qed

lemma udigit_values:
  "udigit 0 = 48" "udigit 1 = 49" "udigit 2 = 50" "udigit 3 = 51" "udigit 4 = 52" "udigit 5 = 53" "udigit 6 = 54" "udigit 7 = 55"
  "udigit 8 = 56" "udigit 9 = 57"
  by (simp_all add: udigit_def bytes_def)

lemma udigit_dec:
  assumes "d < 10"
  shows "48 \<le> udigit d" "udigit d \<le> 57" "uint (udigit d) = int d + 48" "(ucast (udigit d) :: i32) = of_nat d + 48"
proof -
  have "d = 0 \<or> d = 1 \<or> d = 2 \<or> d = 3 \<or> d = 4 \<or> d = 5 \<or> d = 6 \<or> d = 7 \<or> d = 8 \<or> d = 9" using assms by presburger
  then show "48 \<le> udigit d" "udigit d \<le> 57" "uint (udigit d) = int d + 48" "(ucast (udigit d) :: i32) = of_nat d + 48"
    by (elim disjE; simp add: udigit_values udigit_values(2) [simplified])+
qed

lemma sint_of_nat: "v < 2 ^ 31 \<Longrightarrow> sint (of_nat v :: i32) = int v"
  using sint_int_range [of "int v"] by simp

lemma atoi_digit:
  assumes "d < 10" and "v < 2 ^ 31"
  shows "atoi_loop (of_nat v) (udigit d # s) = (if v * 10 + d + 48 < 2 ^ 31 then atoi_loop (of_nat (v * 10 + d)) s else Undef)"
proof -
  have "int v * 10 + (int d + 48) < 2147483648 \<longleftrightarrow> v * 10 + d + 48 < 2147483648" by presburger
  then show ?thesis using udigit_dec [OF assms(1)] by (simp add: sint_of_nat [OF assms(2)] mult.commute)
qed

definition horner :: "nat \<Rightarrow> nat list \<Rightarrow> nat" where
  "horner v ds = foldl (\<lambda>v d. v * 10 + d) v ds"

lemma horner_mono: "v \<le> horner v ds"
proof (induction ds arbitrary: v)
  case (Cons d ds)
  have "v \<le> v * 10 + d" by simp
  also have "\<dots> \<le> horner (v * 10 + d) ds" by (rule Cons)
  finally show ?case by (simp add: horner_def)
qed (simp add: horner_def)

lemma atoi_digits:
  "(\<And>d. d \<in> set ds \<Longrightarrow> d < 10) \<Longrightarrow> v + 48 < 2 ^ 31 \<Longrightarrow>
    atoi_loop (of_nat v) (map udigit ds @ s) = (if horner v ds + 48 < 2 ^ 31 then atoi_loop (of_nat (horner v ds)) s else Undef)"
proof (induction ds arbitrary: v)
  case (Cons d ds)
  have d: "d < 10" "v < 2 ^ 31" using Cons.prems by simp_all
  have h: "horner v (d # ds) = horner (v * 10 + d) ds" by (simp add: horner_def)
  show ?case
  proof (cases "v * 10 + d + 48 < 2 ^ 31")
    case True
    then show ?thesis using Cons.IH [of "v * 10 + d"] Cons.prems(1) atoi_digit [OF d] h by simp
  next
    case False
    then have "\<not> horner (v * 10 + d) ds + 48 < 2 ^ 31" using horner_mono [of "v * 10 + d" ds] by linarith
    then show ?thesis using False atoi_digit [OF d] h by simp
  qed
qed (simp add: horner_def)

lemma atoi_number:
  "atoi_loop 0 (map udigit (rev (digits_lsb 10 (unat x))) @ s) = (if unat (x :: i32) + 48 < 2 ^ 31 then atoi_loop x s else Undef)"
proof -
  have "foldl (\<lambda>v d. v * 10 + d) 0 (rev ds) = foldr (\<lambda>d v. d + 10 * v) ds 0" for ds :: "nat list"
    by (induction ds) (simp_all add: algebra_simps)
  then have "horner 0 (rev (digits_lsb 10 (unat x))) = unat x"
    using digits_lsb_value [of 10 "unat x"] by (simp add: horner_def)
  then show ?thesis using atoi_digits [of "rev (digits_lsb 10 (unat x))" 0 s] digits_lsb_less [of 10 _ "unat x"] by simp
qed

lemma uprintint_defined:
  assumes "10 \<le> base" and "base \<le> 16" and "\<not> (sg \<and> xx = 0x80000000)"
  shows "uprintint xx base sg =
    Ok ((if sg \<and> ilt xx 0 then bytes ''-'' else []) @ map udigit (rev (digits_lsb base (unat (if sg \<and> ilt xx 0 then - xx else xx)))))"
    "length (digits_lsb base (unat xx)) \<le> 10"
proof -
  have "unat x < base ^ 10" for x :: i32
  proof -
    have "unat x < 4294967296" by simp
    also have "\<dots> \<le> 10 ^ 10" by simp
    also have "\<dots> \<le> base ^ 10" using assms(1) by (rule power_mono) simp
    finally show ?thesis .
  qed
  then have l: "length (digits_lsb base (unat x)) \<le> 10" for x :: i32 using assms by (intro digits_lsb_length) simp_all
  then show "length (digits_lsb base (unat xx)) \<le> 10" .
  from l have "length (digits_lsb base (unat x)) \<le> 15" "length (digits_lsb base (unat x)) \<le> 16" for x :: i32
    by (rule order_trans; simp)+
  moreover have "\<not> list_ex (\<lambda>d. 16 < d) (digits_lsb base n)" for n
    using digits_lsb_less [of base _ n] assms(1,2) by (fastforce simp: list_ex_iff)
  ultimately show "uprintint xx base sg =
    Ok ((if sg \<and> ilt xx 0 then bytes ''-'' else []) @ map udigit (rev (digits_lsb base (unat (if sg \<and> ilt xx 0 then - xx else xx)))))"
    using assms by (auto simp: uprintint_def Let_def bytes_def rev_map not_less le_Suc_eq)
qed

text \<open>C34. Printing a number and reading it back.  In the bases 10 to 16, \<open>printint\<close> never leaves its two arrays and prints
  at most 11 bytes, for every value but the smallest \<open>int\<close> as a signed number.  What it prints in decimal, followed by anything
  but a digit, is read by \<open>atoi\<close> as the same value if that is not negative and at most \<open>2 ^ 31 - 49\<close>.  From there on
  the sum in \<open>atoi\<close> overflows, so the last 48 positive \<open>int\<close>s are not read back.  A minus sign is not understood:
  the result is 0.\<close>

theorem printint_atoi:
  assumes "10 \<le> base" and "base \<le> 16" and "\<not> (48 \<le> hd0 r \<and> hd0 r \<le> 57)" and "\<not> (sg \<and> n = 0x80000000)"
  shows "(\<exists>bs. uprintint n base sg = Ok bs \<and> length bs \<le> 11) \<and>
    (\<exists>bs. uprintint n 10 sg = Ok bs \<and>
       atoi (bs @ r) = (if sg \<and> ilt n 0 then Ok 0 else if unat n + 48 < 2 ^ 31 then Ok n else Undef))"
proof
  have stop: "atoi_loop x r = Ok x" for x using assms(3) by (cases r) (auto simp: hd0_def)
  have "length (digits_lsb base (unat x)) \<le> 10" for x :: i32
    using uprintint_defined(2) [OF assms(1,2), of False x] by simp
  then have "length (digits_lsb base (unat x)) \<le> 10" "length (digits_lsb base (unat x)) \<le> 11" for x :: i32
    by (rule order_trans; simp)+
  then show "\<exists>bs. uprintint n base sg = Ok bs \<and> length bs \<le> 11"
    using uprintint_defined(1) [OF assms(1,2,4)] by (simp add: bytes_def)
  have "atoi ((if sg \<and> ilt n 0 then bytes ''-'' else []) @
      map udigit (rev (digits_lsb 10 (unat (if sg \<and> ilt n 0 then - n else n)))) @ r)
    = (if sg \<and> ilt n 0 then Ok 0 else if unat n + 48 < 2 ^ 31 then Ok n else Undef)"
    by (simp add: atoi_def atoi_number stop bytes_def)
  then show "\<exists>bs. uprintint n 10 sg = Ok bs \<and>
      atoi (bs @ r) = (if sg \<and> ilt n 0 then Ok 0 else if unat n + 48 < 2 ^ 31 then Ok n else Undef)"
    using uprintint_defined(1) [OF _ _ assms(4), of 10] by simp
qed

theorem printint_atoi_witness:
  "(\<exists>bs. uprintint 2147483599 10 True = Ok bs \<and> atoi (bs @ bytes '' '') = Ok 2147483599) \<and>
   (\<exists>bs. uprintint 2147483600 10 True = Ok bs \<and> atoi (bs @ bytes '' '') = Undef) \<and>
   (\<exists>bs. uprintint (- 1) 16 False = Ok bs \<and> length bs \<le> 11)"
proof -
  have r: "\<not> (48 \<le> hd0 (bytes '' '') \<and> hd0 (bytes '' '') \<le> 57)" by (simp add: hd0_def bytes_def)
  have b: "(10 :: nat) \<le> 10" "(10 :: nat) \<le> 16" "(16 :: nat) \<le> 16" by simp_all
  have n: "\<not> (True \<and> (2147483599 :: i32) = 0x80000000)" "\<not> (True \<and> (2147483600 :: i32) = 0x80000000)"
    "\<not> (False \<and> (- 1 :: i32) = 0x80000000)" by simp_all
  have i: "ilt 2147483599 0 = False" "ilt 2147483600 0 = False" "(unat (2147483599 :: i32) + 48 < 2 ^ 31) = True"
    "(unat (2147483600 :: i32) + 48 < 2 ^ 31) = False"
    by (simp_all add: ilt_def)
  show ?thesis
    using printint_atoi [OF b(1,2) r n(1), THEN conjunct2] printint_atoi [OF b(1,2) r n(2), THEN conjunct2]
      printint_atoi [OF b(2,3) r n(3), THEN conjunct1]
    unfolding i by (simp only: simp_thms if_False if_True)
qed

end
