(* ===== verification/Grep.thy ===== *)
theory Grep
  imports Ulib
begin

text \<open>
  \<open>user/grep.c\<close>: the matcher for patterns with \<open>^ . * $\<close> and the loop that reads a file in pieces and
  prints the lines that match.  The matcher is shown to decide a language that is defined without
  reference to it, and the program to print exactly the matching lines of its input.
\<close>

section \<open>The program\<close>

function (sequential) matchhere :: "u8 list \<Rightarrow> u8 list \<Rightarrow> bool"
  and matchstar :: "u8 \<Rightarrow> u8 list \<Rightarrow> u8 list \<Rightarrow> bool" where
  "matchhere [] text = True"
| "matchhere (c # re) text =
     (if hd0 re = 42 then matchstar c (tl re) text
      else if c = 36 \<and> re = [] then text = []
      else if text \<noteq> [] \<and> (c = 46 \<or> c = hd text) then matchhere re (tl text)
      else False)"
| "matchstar c re text =
     (if matchhere re text then True
      else if text \<noteq> [] \<and> (hd text = c \<or> c = 46) then matchstar c re (tl text)
      else False)"
  by pat_completeness auto
termination
  by (relation "measure (\<lambda>x. case x of Inl (re, t) \<Rightarrow> 2 * (length re + length t) | Inr (c, re, t) \<Rightarrow> 2 * (length re + length t) + 1)")
     auto

declare matchhere.simps(2) [simp del] matchstar.simps [simp del]

text \<open>The loop of \<open>match\<close> over the suffixes of the text, the empty one included.\<close>

fun match_from :: "u8 list \<Rightarrow> u8 list \<Rightarrow> bool" where
  "match_from re [] = matchhere re []"
| "match_from re (c # text) = (if matchhere re (c # text) then True else match_from re text)"

definition match :: "u8 list \<Rightarrow> u8 list \<Rightarrow> bool" where
  "match re text = (if hd0 re = 94 then matchhere (tl re) text else match_from re text)"

text \<open>The inner loop of \<open>grep\<close>: \<open>p\<close> is what is left of the buffer.\<close>

lemma strchr_less: "strchr p c = Some q \<Longrightarrow> q < length p"
  by (induction p arbitrary: q) (auto split: if_splits)

function grep_lines :: "'w sys \<Rightarrow> u8 list \<Rightarrow> u8 list \<Rightarrow> 'w \<Rightarrow> u8 list \<times> 'w" where
  "grep_lines S pattern p w =
     (case strchr p 10 of
        None \<Rightarrow> (p, w)
      | Some q \<Rightarrow>
          let w = (if match pattern (take q p) then snd (sys_write S 1 (take (Suc q) p) w) else w)
          in grep_lines S pattern (drop (Suc q) p) w)"
  by pat_completeness auto
termination
  by (relation "measure (\<lambda>(S, pattern, p, w). length p)") (auto dest: strchr_less)

declare grep_lines.simps [simp del]

text \<open>The outer loop: \<open>buf\<close> holds the \<open>m\<close> bytes that are kept from the last round.  It ends with the input.  The
  list \<open>bs\<close> is the \<open>n\<close> bytes that \<open>read\<close> has stored behind them, so that \<open>m += n\<close> is the length of
  \<open>buf @ bs\<close>, and the \<open>memmove\<close> of the rest to the front of the array is passing it on.\<close>

partial_function (option) grep_loop :: "'w sys \<Rightarrow> u8 list \<Rightarrow> i32 \<Rightarrow> u8 list \<Rightarrow> 'w \<Rightarrow> 'w option" where
  "grep_loop S pattern fd buf w =
     (case sys_read S fd (1024 - length buf - 1) w of (n, bs, w1) \<Rightarrow>
        if \<not> ilt 0 n then Some w1
        else (case grep_lines S pattern (buf @ bs) w1 of (rest, w2) \<Rightarrow> grep_loop S pattern fd rest w2))"

definition grep :: "'w sys \<Rightarrow> u8 list \<Rightarrow> i32 \<Rightarrow> 'w \<Rightarrow> 'w option" where
  "grep S pattern fd w = grep_loop S pattern fd [] w"

text \<open>The files named on the command line; the result has the exit status.\<close>

fun grep_files :: "'w sys \<Rightarrow> u8 list \<Rightarrow> u8 list list \<Rightarrow> 'w \<Rightarrow> (i32 \<times> 'w) option" where
  "grep_files S pattern [] w = Some (0, w)"
| "grep_files S pattern (a # as) w =
     (case sys_open S a 0 w of (fd, w) \<Rightarrow>
        if ilt fd 0
        then thenP (uprintf S (ln ''grep: cannot open %s'') [VStr (Some a)] w) (\<lambda>w. Some (1, w))
        else (case grep S pattern fd w of
                None \<Rightarrow> None
              | Some w \<Rightarrow> grep_files S pattern as (snd (sys_close S fd w))))"

definition grep_main :: "'w sys \<Rightarrow> u8 list list \<Rightarrow> 'w \<Rightarrow> (i32 \<times> 'w) option" where
  "grep_main S argv w =
     (if length argv \<le> 1
      then thenP (fprintf S 2 (ln ''usage: grep pattern [file ...]'') [] w) (\<lambda>w. Some (1, w))
      else if length argv \<le> 2 then map_option (\<lambda>w. (0, w)) (grep S (argv ! 1) 0 w)
      else grep_files S (argv ! 1) (drop 2 argv) w)"

section \<open>The language of a pattern\<close>

text \<open>A pattern is a list of items; \<open>$\<close> is an anchor only at the end, and whatever precedes \<open>*\<close> is repeated.\<close>

datatype item = One u8 | Many u8 | End

fun items :: "u8 list \<Rightarrow> item list" where
  "items [] = []"
| "items [c] = (if c = 36 then [End] else [One c])"
| "items (c # d # re) = (if d = 42 then Many c # items re else One c # items (d # re))"

definition accepts :: "u8 \<Rightarrow> u8 \<Rightarrow> bool" where
  "accepts c x \<longleftrightarrow> c = 46 \<or> x = c"

text \<open>The words that an item stands for, and those that the items of a pattern stand for in sequence.\<close>

fun item_lang :: "item \<Rightarrow> u8 list set" where
  "item_lang (One c) = {[x] | x. accepts c x}"
| "item_lang (Many c) = {w. \<forall>x \<in> set w. accepts c x}"
| "item_lang End = {[]}"

fun lang :: "item list \<Rightarrow> u8 list set" where
  "lang [] = {[]}"
| "lang (i # is) = {u @ v | u v. u \<in> item_lang i \<and> v \<in> lang is}"

text \<open>A prefix of the text is in the language; with the anchor it is the whole text.\<close>

definition here :: "item list \<Rightarrow> u8 list \<Rightarrow> bool" where
  "here is text \<longleftrightarrow> (\<exists>u v. text = u @ v \<and> u \<in> lang is \<and> (End \<in> set is \<longrightarrow> v = []))"

definition matches :: "u8 list \<Rightarrow> u8 list \<Rightarrow> bool" where
  "matches re text \<longleftrightarrow>
     (if re \<noteq> [] \<and> hd re = 94 then here (items (tl re)) text else \<exists>u v. text = u @ v \<and> here (items re) v)"

lemma here_Nil: "here [] text"
  by (simp add: here_def)

lemma hereI: "u \<in> lang is \<Longrightarrow> (End \<in> set is \<Longrightarrow> v = []) \<Longrightarrow> here is (u @ v)"
  by (auto simp: here_def)

lemma hereE:
  assumes "here is text"
  obtains u v where "text = u @ v" and "u \<in> lang is" and "End \<in> set is \<longrightarrow> v = []"
  using assms by (auto simp: here_def)

lemma lang_One: "accepts c x \<Longrightarrow> u \<in> lang is \<Longrightarrow> x # u \<in> lang (One c # is)"
  by (simp, rule exI [of _ "[x]"], rule exI [of _ u]) simp

lemma lang_Many: "\<forall>y \<in> set a. accepts c y \<Longrightarrow> b \<in> lang is \<Longrightarrow> a @ b \<in> lang (Many c # is)"
  by auto

lemma here_One: "here (One c # is) text \<longleftrightarrow> (\<exists>x t. text = x # t \<and> accepts c x \<and> here is t)"
proof
  assume "here (One c # is) text"
  then obtain w v where w: "text = w @ v" "w \<in> lang (One c # is)" "End \<in> set (One c # is) \<longrightarrow> v = []" by (rule hereE)
  then obtain x u where x: "w = x # u" "accepts c x" "u \<in> lang is" by auto
  then have "here is (u @ v)" using w(3) by (intro hereI) simp_all
  then show "\<exists>x t. text = x # t \<and> accepts c x \<and> here is t" using w(1) x by simp
next
  assume "\<exists>x t. text = x # t \<and> accepts c x \<and> here is t"
  then obtain x t where t: "text = x # t" "accepts c x" "here is t" by blast
  from t(3) obtain u v where u: "t = u @ v" "u \<in> lang is" "End \<in> set is \<longrightarrow> v = []" by (rule hereE)
  then have "here (One c # is) ((x # u) @ v)" using t(2) by (intro hereI lang_One) auto
  then show "here (One c # is) text" using t(1) u(1) by simp
qed

lemma here_End: "here [End] text \<longleftrightarrow> text = []"
  by (auto simp: here_def)

lemma here_Many: "here (Many c # is) text \<longleftrightarrow> here is text \<or> (\<exists>x t. text = x # t \<and> accepts c x \<and> here (Many c # is) t)"
proof
  assume "here (Many c # is) text"
  then obtain w v where w: "text = w @ v" "w \<in> lang (Many c # is)" "End \<in> set (Many c # is) \<longrightarrow> v = []" by (rule hereE)
  then obtain a b where a: "w = a @ b" "\<forall>x \<in> set a. accepts c x" "b \<in> lang is" by auto
  show "here is text \<or> (\<exists>x t. text = x # t \<and> accepts c x \<and> here (Many c # is) t)"
  proof (cases a)
    case Nil
    then show ?thesis using w a hereI [of b "is" v] by simp
  next
    case (Cons x a')
    have "here (Many c # is) ((a' @ b) @ v)" using w(3) a(2,3) Cons by (intro hereI lang_Many) auto
    then show ?thesis using w(1) a Cons by simp
  qed
next
  assume "here is text \<or> (\<exists>x t. text = x # t \<and> accepts c x \<and> here (Many c # is) t)"
  then show "here (Many c # is) text"
  proof
    assume "here is text"
    then obtain u v where u: "text = u @ v" "u \<in> lang is" "End \<in> set is \<longrightarrow> v = []" by (rule hereE)
    then have "here (Many c # is) (([] @ u) @ v)" by (intro hereI lang_Many) auto
    then show ?thesis using u(1) by simp
  next
    assume "\<exists>x t. text = x # t \<and> accepts c x \<and> here (Many c # is) t"
    then obtain x t where t: "text = x # t" "accepts c x" "here (Many c # is) t" by blast
    from t(3) obtain w v where w: "t = w @ v" "w \<in> lang (Many c # is)" "End \<in> set (Many c # is) \<longrightarrow> v = []" by (rule hereE)
    then obtain a b where a: "w = a @ b" "\<forall>x \<in> set a. accepts c x" "b \<in> lang is" by auto
    have "here (Many c # is) (((x # a) @ b) @ v)" using w(3) a t(2) by (intro hereI lang_Many) auto
    then show ?thesis using t(1) w(1) a(1) by simp
  qed
qed

lemma items_star: "hd0 re = 42 \<Longrightarrow> items (c # re) = Many c # items (tl re)"
  by (cases re) (simp_all add: hd0_def)

lemma items_end: "items [36] = [End]"
  by simp

lemma items_one: "hd0 re \<noteq> 42 \<Longrightarrow> \<not> (c = 36 \<and> re = []) \<Longrightarrow> items (c # re) = One c # items re"
  by (cases re) (auto simp: hd0_def)

lemma matchhere_here: "matchhere re t \<longleftrightarrow> here (items re) t"
  and matchstar_here: "matchstar c re t \<longleftrightarrow> here (Many c # items re) t"
proof (induction re t and c re t rule: matchhere_matchstar.induct)
  case (1 t)
  then show ?case by (simp add: here_Nil)
next
  case (2 c re t)
  show ?case
  proof (cases "hd0 re = 42 \<or> (c = 36 \<and> re = [])")
    case True
    then show ?thesis using 2 items_star [of re c]
      by (auto simp: matchhere.simps(2) here_End)
  next
    case False
    then have "items (c # re) = One c # items re" by (intro items_one) auto
    then show ?thesis using 2(2) False
      by (cases t) (auto simp: matchhere.simps(2) here_One accepts_def)
  qed
next
  case (3 c re t)
  show ?case
    using 3 by (subst here_Many, cases t) (auto simp: matchstar.simps [of c re] accepts_def)
qed

lemma match_from_here: "match_from re t \<longleftrightarrow> (\<exists>u v. t = u @ v \<and> here (items re) v)"
proof (induction t)
  case (Cons c t)
  have "(\<exists>u v. c # t = u @ v \<and> here (items re) v) \<longleftrightarrow> here (items re) (c # t) \<or> (\<exists>u v. t = u @ v \<and> here (items re) v)"
    by (auto simp: Cons_eq_append_conv)
  then show ?case using Cons by (simp add: matchhere_here)
qed (simp add: matchhere_here)

lemma match_matches: "match re text \<longleftrightarrow> matches re text"
  by (cases re) (simp_all add: match_def matches_def hd0_def matchhere_here match_from_here)

text \<open>C32. The matcher of \<open>grep\<close> is right.  For every pattern and text, \<open>match\<close> returns 1 exactly if the text has a part that is
  in the language of the pattern: at the start for a pattern with \<open>^\<close>, up to the end for one with \<open>$\<close>, anywhere
  otherwise.  The language is defined from the items of the pattern: a character stands for itself, \<open>.\<close> for any
  character and an item followed by \<open>*\<close> for any number of repetitions.\<close>

theorem grep_match: "match re s \<longleftrightarrow> matches re s"
  by (rule match_matches)

section \<open>Lines\<close>

text \<open>The lines of a text that end in a newline, without it, and what follows the last newline.\<close>

fun split_lines :: "u8 list \<Rightarrow> u8 list list \<times> u8 list" where
  "split_lines [] = ([], [])"
| "split_lines (c # s) =
     (case split_lines s of (ls, r) \<Rightarrow>
        if c = 10 then ([] # ls, r) else (case ls of [] \<Rightarrow> ([], c # r) | l # ls \<Rightarrow> ((c # l) # ls, r)))"

lemma split_lines_prefix:
  "10 \<notin> set u \<Longrightarrow> split_lines (u @ s) = (case split_lines s of ([], r) \<Rightarrow> ([], u @ r) | (l # ls, r) \<Rightarrow> ((u @ l) # ls, r))"
  by (induction u) (auto split: prod.splits list.splits)

lemma split_lines_first: "10 \<notin> set u \<Longrightarrow> split_lines (u @ 10 # s) = (u # fst (split_lines s), snd (split_lines s))"
  by (simp add: split_lines_prefix split: prod.split)

lemma split_lines_none: "10 \<notin> set u \<Longrightarrow> split_lines u = ([], u)"
  using split_lines_prefix [of u "[]"] by simp

lemma split_lines_rest: "10 \<notin> set (snd (split_lines s))"
  by (induction s) (auto split: prod.splits list.splits)

lemma split_lines_sub: "set (snd (split_lines s)) \<subseteq> set s"
  by (induction s) (auto split: prod.splits list.splits)

lemma split_lines_append:
  "split_lines (s @ t) = (fst (split_lines s) @ fst (split_lines (snd (split_lines s) @ t)), snd (split_lines (snd (split_lines s) @ t)))"
proof (induction s)
  case (Cons c s)
  obtain ls r where s: "split_lines s = (ls, r)" by fastforce
  obtain ms q where m: "split_lines (r @ t) = (ms, q)" by fastforce
  have st: "split_lines (s @ t) = (ls @ ms, q)" using Cons s m by simp
  show ?case
  proof (cases "c = 10")
    case True
    then show ?thesis using s m st by simp
  next
    case False
    then show ?thesis using s m st by (cases ls; cases ms) simp_all
  qed
qed simp

lemma strchr_None: "0 \<notin> set p \<Longrightarrow> strchr p c = None \<longleftrightarrow> c \<notin> set p"
  by (induction p) auto

lemma strchr_Some: "strchr p c = Some q \<Longrightarrow> p = take q p @ c # drop (Suc q) p \<and> c \<notin> set (take q p)"
  by (induction p arbitrary: q) (auto split: if_splits)

section \<open>What the program prints\<close>

text \<open>
  What the documentation of \<open>read\<close> and \<open>write\<close> promises for a file: \<open>rest\<close> is what is left of the input and
  \<open>out\<close> what was written to the standard output.  A read returns some bytes, at most as many as asked for, and 0
  at the end of the file; a write appends.
\<close>

definition file_io :: "'w sys \<Rightarrow> i32 \<Rightarrow> ('w \<Rightarrow> u8 list) \<Rightarrow> ('w \<Rightarrow> u8 list) \<Rightarrow> bool" where
  "file_io S fd rest out \<longleftrightarrow>
     (\<forall>k w. case sys_read S fd k w of (n, bs, w') \<Rightarrow>
        out w' = out w \<and>
        (if k = 0 \<or> rest w = [] then \<not> ilt 0 n \<and> rest w' = rest w
         else ilt 0 n \<and> bs \<noteq> [] \<and> length bs \<le> k \<and> rest w = bs @ rest w')) \<and>
     (\<forall>bs w. out (snd (sys_write S 1 bs w)) = out w @ bs \<and> rest (snd (sys_write S 1 bs w)) = rest w)"

definition printed :: "u8 list \<Rightarrow> u8 list list \<Rightarrow> u8 list" where
  "printed pattern ls = concat (map (\<lambda>l. l @ [10]) (filter (matches pattern) ls))"

lemma grep_lines_out:
  assumes "file_io S fd rest out" and "0 \<notin> set p"
  shows "\<exists>w'. grep_lines S pattern p w = (snd (split_lines p), w') \<and> rest w' = rest w \<and>
    out w' = out w @ printed pattern (fst (split_lines p))"
  using assms
proof (induction S pattern p w rule: grep_lines.induct)
  case (1 S pattern p w)
  show ?case
  proof (cases "strchr p 10")
    case None
    then have "10 \<notin> set p" using strchr_None [OF 1(3)] by simp
    then show ?thesis using None by (simp add: grep_lines.simps [of S pattern p w] split_lines_none printed_def)
  next
    case (Some q)
    let ?l = "take q p" and ?p = "drop (Suc q) p"
    let ?w = "if match pattern ?l then snd (sys_write S 1 (take (Suc q) p) w) else w"
    have p: "p = ?l @ 10 # ?p" "10 \<notin> set ?l" using strchr_Some [OF Some] by simp_all
    have t: "take (Suc q) p = ?l @ [10]" using strchr_less [OF Some] p(1)
      by (metis append_Cons append_Nil append_eq_conv_conj append_assoc length_append_singleton length_take less_imp_le min.absorb2)
    have sp: "split_lines p = (?l # fst (split_lines ?p), snd (split_lines ?p))" using split_lines_first [OF p(2), of ?p] p(1) by simp
    have "0 \<notin> set ?p" using 1(3) by (meson in_set_dropD)
    then obtain w' where w': "grep_lines S pattern ?p ?w = (snd (split_lines ?p), w')" "rest w' = rest ?w"
      "out w' = out ?w @ printed pattern (fst (split_lines ?p))"
      using 1(1) [OF Some refl 1(2)] by blast
    have "out ?w = out w @ printed pattern [?l]" "rest ?w = rest w"
      using 1(2) t by (auto simp: file_io_def printed_def match_matches)
    then show ?thesis using w' Some sp by (auto simp: grep_lines.simps [of S pattern p w] Let_def printed_def)
  qed
qed

text \<open>Lines that fit into the buffer.\<close>

definition short_lines :: "u8 list \<Rightarrow> bool" where
  "short_lines s \<longleftrightarrow> (\<forall>l \<in> set (fst (split_lines s)). length l \<le> 1022) \<and> length (snd (split_lines s)) \<le> 1022"

lemma short_lines_prefix:
  assumes "10 \<notin> set u" and "short_lines (u @ s)"
  shows "length u \<le> 1022"
  using assms split_lines_prefix [OF assms(1), of s] by (auto simp: short_lines_def split: list.splits prod.splits)

lemma short_lines_append: "short_lines (s @ t) \<Longrightarrow> short_lines (snd (split_lines s) @ t)"
  by (auto simp: short_lines_def split_lines_append [of s t])

lemma grep_loop_out:
  assumes io: "file_io S fd rest out" and "0 \<notin> set (buf @ rest w)" and "10 \<notin> set buf" and "short_lines (buf @ rest w)"
  shows "\<exists>w'. grep_loop S pattern fd buf w = Some w' \<and> out w' = out w @ printed pattern (fst (split_lines (buf @ rest w)))"
  using assms(2-)
proof (induction "length (rest w)" arbitrary: buf w rule: less_induct)
  case less
  define k where "k = 1024 - length buf - 1"
  have k: "0 < k" using short_lines_prefix [OF less(3,4)] by (simp add: k_def)
  obtain n bs w1 where r: "sys_read S fd k w = (n, bs, w1)" by (metis prod_cases3)
  have io1: "out w1 = out w \<and> (if k = 0 \<or> rest w = [] then \<not> ilt 0 n \<and> rest w1 = rest w
      else ilt 0 n \<and> bs \<noteq> [] \<and> length bs \<le> k \<and> rest w = bs @ rest w1)"
    using io r unfolding file_io_def by (metis (mono_tags, lifting) case_prod_conv)
  show ?case
  proof (cases "rest w = []")
    case True
    then have "grep_loop S pattern fd buf w = Some w1" using io1 r by (simp add: grep_loop.simps [of S pattern fd buf w] k_def)
    then show ?thesis using io1 True split_lines_none [OF less(3)] by (simp add: printed_def)
  next
    case False
    then have n: "ilt 0 n" "bs \<noteq> []" "rest w = bs @ rest w1" "out w1 = out w" using io1 k by auto
    have "0 \<notin> set (buf @ bs)" using less(2) n(3) by auto
    then obtain w2 where w2: "grep_lines S pattern (buf @ bs) w1 = (snd (split_lines (buf @ bs)), w2)" "rest w2 = rest w1"
      "out w2 = out w1 @ printed pattern (fst (split_lines (buf @ bs)))"
      using grep_lines_out [OF io] by metis
    define r where "r = snd (split_lines (buf @ bs))"
    have g: "grep_loop S pattern fd buf w = grep_loop S pattern fd r w2"
      using n(1) w2(1) \<open>sys_read S fd k w = (n, bs, w1)\<close> by (simp add: grep_loop.simps [of S pattern fd buf w] k_def r_def)
    have sub: "set r \<subseteq> set (buf @ bs)" unfolding r_def by (rule split_lines_sub)
    have "\<exists>w'. grep_loop S pattern fd r w2 = Some w' \<and> out w' = out w2 @ printed pattern (fst (split_lines (r @ rest w2)))"
    proof (rule less(1))
      show "length (rest w2) < length (rest w)" using n(2,3) w2(2) by (cases bs) simp_all
      show "0 \<notin> set (r @ rest w2)" using less(2) n(3) sub w2(2) by auto
      show "10 \<notin> set r" unfolding r_def by (rule split_lines_rest)
      show "short_lines (r @ rest w2)" unfolding r_def using short_lines_append [of "buf @ bs" "rest w1"] less(4) n(3) w2(2) by simp
    qed
    moreover have "fst (split_lines (buf @ rest w)) = fst (split_lines (buf @ bs)) @ fst (split_lines (r @ rest w2))"
      using split_lines_append [of "buf @ bs" "rest w1"] n(3) w2(2) by (simp add: r_def)
    ultimately show ?thesis using g w2(3) n(4) by (auto simp: printed_def)
  qed
qed

text \<open>C33. \<open>grep\<close> terminates and prints the right lines.  On an input without NUL bytes whose lines have at most 1022 characters,
  however the input is divided into pieces by \<open>read\<close>, the program returns, and it has written exactly the lines that
  match the pattern, each with its newline and in their order.  What follows the last newline of the input is ignored.\<close>

theorem grep_prints:
  assumes "file_io S fd rest out" and "0 \<notin> set (rest w)" and "short_lines (rest w)"
  shows "\<exists>w'. grep S pattern fd w = Some w' \<and> out w' = out w @ printed pattern (fst (split_lines (rest w)))"
  using grep_loop_out [OF assms(1), of "[]" w pattern] assms(2,3) by (simp add: grep_def)

text \<open>A world with one input that is read two bytes at a time and one output.\<close>

definition demo_sys :: "(u8 list \<times> u8 list) sys" where
  "demo_sys = \<lparr>sys_read = (\<lambda>fd k (i, o1). (of_nat (length (take (min k 2) i)), take (min k 2) i, (drop (min k 2) i, o1))),
     sys_write = (\<lambda>fd bs (i, o1). (of_nat (length bs), (i, o1 @ bs))), sys_open = (\<lambda>_ _ w. (3, w)), sys_close = (\<lambda>_ w. (0, w)),
     sys_fstat = (\<lambda>_ w. (0, \<lparr>st_dev = 0, st_ino = 0, st_type = 0, st_nlink = 0, st_size = 0\<rparr>, w)), sys_unlink = (\<lambda>_ w. (0, w)),
     sys_mkdir = (\<lambda>_ w. (0, w)), sys_link = (\<lambda>_ _ w. (0, w)), sys_kill = (\<lambda>_ w. (0, w))\<rparr>"

lemma demo_sys_io: "file_io demo_sys 0 fst snd"
proof -
  have "case sys_read demo_sys 0 k w of (n, bs, w') \<Rightarrow>
      snd w' = snd w \<and> (if k = 0 \<or> fst w = [] then \<not> ilt 0 n \<and> fst w' = fst w
       else ilt 0 n \<and> bs \<noteq> [] \<and> length bs \<le> k \<and> fst w = bs @ fst w')" for k w
  proof -
    obtain i o1 where w: "w = (i, o1)" by (cases w)
    let ?c = "min k 2"
    have l: "length (take ?c i) \<le> 2" by simp
    have "ilt 0 (of_nat m) \<longleftrightarrow> m \<noteq> 0" if "m \<le> 2" for m
      using that by (auto simp: ilt_def le_Suc_eq numeral_2_eq_2)
    from this [OF l] have "ilt 0 (of_nat (length (take ?c i))) \<longleftrightarrow> take ?c i \<noteq> []" by (simp only: length_0_conv)
    then show ?thesis using w by (auto simp: demo_sys_def)
  qed
  then show ?thesis unfolding file_io_def by (auto simp: demo_sys_def split: prod.split)
qed

theorem grep_prints_witness:
  "\<exists>w'. grep demo_sys (bytes ''^a'') 0 (bytes ''ab'' @ [10] @ bytes ''ba'' @ [10], []) = Some w' \<and> snd w' = bytes ''ab'' @ [10]"
proof -
  let ?w = "(bytes ''ab'' @ [10] @ bytes ''ba'' @ [10], [] :: u8 list)"
  have s: "split_lines (fst ?w) = ([bytes ''ab'', bytes ''ba''], [])" by (simp add: bytes_def)
  have m: "matches (bytes ''^a'') (bytes ''ab'')" "\<not> matches (bytes ''^a'') (bytes ''ba'')"
    unfolding match_matches [symmetric] by (simp_all add: match_def hd0_def bytes_def matchhere.simps(2))
  have "short_lines (fst ?w)" "0 \<notin> set (fst ?w)" using s by (simp_all add: short_lines_def bytes_def)
  then show ?thesis
    using grep_prints [OF demo_sys_io, of ?w "bytes ''^a''"] m unfolding s by (simp add: printed_def)
qed

end
