(* ===== verification/Utils.thy ===== *)
theory Utils
  imports Ulib
begin

text \<open>
  The small user programs: \<open>cat.c\<close>, \<open>wc.c\<close>, \<open>echo.c\<close>, \<open>rm.c\<close>, \<open>mkdir.c\<close>, \<open>ln.c\<close>, \<open>kill.c\<close> and \<open>ls.c\<close>.  The
  result of \<open>main\<close> is the exit status and the state after it; \<open>None\<close> means that the program does not
  end.  A function that may call \<open>exit\<close> yields the status if it did.
\<close>

section \<open>cat\<close>

partial_function (option) cat :: "'w sys \<Rightarrow> i32 \<Rightarrow> 'w \<Rightarrow> (i32 option \<times> 'w) option" where
  "cat S fd w =
     (case sys_read S fd 512 w of (n, bs, w) \<Rightarrow>
        if ilt 0 n
        then (case sys_write S 1 bs w of (r, w) \<Rightarrow>
                if r \<noteq> n then (case fprintf S 2 (ln ''cat: write error'') [] w of Ok w \<Rightarrow> Some (Some 1, w) | _ \<Rightarrow> None)
                else cat S fd w)
        else if ilt n 0 then (case fprintf S 2 (ln ''cat: read error'') [] w of Ok w \<Rightarrow> Some (Some 1, w) | _ \<Rightarrow> None)
        else Some (None, w))"

fun cat_files :: "'w sys \<Rightarrow> u8 list list \<Rightarrow> 'w \<Rightarrow> (i32 \<times> 'w) option" where
  "cat_files S [] w = Some (0, w)"
| "cat_files S (a # as) w =
     (case sys_open S a 0 w of (fd, w) \<Rightarrow>
        if ilt fd 0 then thenP (fprintf S 2 (ln ''cat: cannot open %s'') [VStr (Some a)] w) (\<lambda>w. Some (1, w))
        else (case cat S fd w of
                None \<Rightarrow> None
              | Some (Some st, w) \<Rightarrow> Some (st, w)
              | Some (None, w) \<Rightarrow> cat_files S as (snd (sys_close S fd w))))"

definition cat_main :: "'w sys \<Rightarrow> u8 list list \<Rightarrow> 'w \<Rightarrow> (i32 \<times> 'w) option" where
  "cat_main S argv w =
     (if length argv \<le> 1
      then (case cat S 0 w of None \<Rightarrow> None | Some (Some st, w) \<Rightarrow> Some (st, w) | Some (None, w) \<Rightarrow> Some (0, w))
      else cat_files S (tl argv) w)"

section \<open>wc\<close>

record counts =
  wl :: i32
  ww :: i32
  wch :: i32
  inword :: bool

definition wc_byte :: "u8 \<Rightarrow> counts \<Rightarrow> counts" where
  "wc_byte b k =
     (let k = k\<lparr>wch := wch k + 1\<rparr>;
          k = (if b = 10 then k\<lparr>wl := wl k + 1\<rparr> else k)
      in if strchr [32, 13, 9, 10, 11] b \<noteq> None then k\<lparr>inword := False\<rparr>
         else if \<not> inword k then k\<lparr>ww := ww k + 1, inword := True\<rparr> else k)"

partial_function (option) wc_loop :: "'w sys \<Rightarrow> i32 \<Rightarrow> counts \<Rightarrow> 'w \<Rightarrow> (i32 \<times> counts \<times> 'w) option" where
  "wc_loop S fd k w =
     (case sys_read S fd 512 w of (n, bs, w) \<Rightarrow> if ilt 0 n then wc_loop S fd (fold wc_byte bs k) w else Some (n, k, w))"

definition wc :: "'w sys \<Rightarrow> i32 \<Rightarrow> u8 list \<Rightarrow> 'w \<Rightarrow> (i32 option \<times> 'w) option" where
  "wc S fd name w =
     (case wc_loop S fd \<lparr>wl = 0, ww = 0, wch = 0, inword = False\<rparr> w of
        None \<Rightarrow> None
      | Some (n, k, w) \<Rightarrow>
          if ilt n 0 then thenP (uprintf S (ln ''wc: read error'') [] w) (\<lambda>w. Some (Some 1, w))
          else thenP (uprintf S (ln ''%d %d %d %s'') [VInt (wl k), VInt (ww k), VInt (wch k), VStr (Some name)] w)
                 (\<lambda>w. Some (None, w)))"

fun wc_files :: "'w sys \<Rightarrow> u8 list list \<Rightarrow> 'w \<Rightarrow> (i32 \<times> 'w) option" where
  "wc_files S [] w = Some (0, w)"
| "wc_files S (a # as) w =
     (case sys_open S a 0 w of (fd, w) \<Rightarrow>
        if ilt fd 0 then thenP (uprintf S (ln ''wc: cannot open %s'') [VStr (Some a)] w) (\<lambda>w. Some (1, w))
        else (case wc S fd a w of
                None \<Rightarrow> None
              | Some (Some st, w) \<Rightarrow> Some (st, w)
              | Some (None, w) \<Rightarrow> wc_files S as (snd (sys_close S fd w))))"

definition wc_main :: "'w sys \<Rightarrow> u8 list list \<Rightarrow> 'w \<Rightarrow> (i32 \<times> 'w) option" where
  "wc_main S argv w =
     (if length argv \<le> 1
      then (case wc S 0 [] w of None \<Rightarrow> None | Some (Some st, w) \<Rightarrow> Some (st, w) | Some (None, w) \<Rightarrow> Some (0, w))
      else wc_files S (tl argv) w)"

section \<open>Programs over their arguments\<close>

fun echo_args :: "'w sys \<Rightarrow> u8 list list \<Rightarrow> 'w \<Rightarrow> 'w" where
  "echo_args S [] w = w"
| "echo_args S (a # as) w =
     (let w = snd (sys_write S 1 a w); w = snd (sys_write S 1 (if as \<noteq> [] then bytes '' '' else [10]) w)
      in echo_args S as w)"

definition echo_main :: "'w sys \<Rightarrow> u8 list list \<Rightarrow> 'w \<Rightarrow> i32 \<times> 'w" where
  "echo_main S argv w = (0, echo_args S (tl argv) w)"

fun rm_args :: "'w sys \<Rightarrow> u8 list list \<Rightarrow> 'w \<Rightarrow> 'w res" where
  "rm_args S [] w = Ok w"
| "rm_args S (a # as) w =
     (let (r, w) = sys_unlink S a w
      in if ilt r 0 then fprintf S 2 (ln ''rm: %s failed to delete'') [VStr (Some a)] w else rm_args S as w)"

definition rm_main :: "'w sys \<Rightarrow> u8 list list \<Rightarrow> 'w \<Rightarrow> (i32 \<times> 'w) res" where
  "rm_main S argv w =
     (if length argv < 2 then bindR (fprintf S 2 (ln ''Usage: rm files...'') [] w) (\<lambda>w. Ok (1, w))
      else bindR (rm_args S (tl argv) w) (\<lambda>w. Ok (0, w)))"

fun mkdir_args :: "'w sys \<Rightarrow> u8 list list \<Rightarrow> 'w \<Rightarrow> 'w res" where
  "mkdir_args S [] w = Ok w"
| "mkdir_args S (a # as) w =
     (let (r, w) = sys_mkdir S a w
      in if ilt r 0 then fprintf S 2 (ln ''mkdir: %s failed to create'') [VStr (Some a)] w else mkdir_args S as w)"

definition mkdir_main :: "'w sys \<Rightarrow> u8 list list \<Rightarrow> 'w \<Rightarrow> (i32 \<times> 'w) res" where
  "mkdir_main S argv w =
     (if length argv < 2 then bindR (fprintf S 2 (ln ''Usage: mkdir files...'') [] w) (\<lambda>w. Ok (1, w))
      else bindR (mkdir_args S (tl argv) w) (\<lambda>w. Ok (0, w)))"

definition ln_main :: "'w sys \<Rightarrow> u8 list list \<Rightarrow> 'w \<Rightarrow> (i32 \<times> 'w) res" where
  "ln_main S argv w =
     (if length argv \<noteq> 3 then bindR (fprintf S 2 (ln ''Usage: ln old new'') [] w) (\<lambda>w. Ok (1, w))
      else let (r, w) = sys_link S (argv ! 1) (argv ! 2) w
           in bindR (if ilt r 0 then fprintf S 2 (ln ''link %s %s: failed'') [VStr (Some (argv ! 1)), VStr (Some (argv ! 2))] w else Ok w)
                (\<lambda>w. Ok (0, w)))"

definition kill_main :: "'w sys \<Rightarrow> u8 list list \<Rightarrow> 'w \<Rightarrow> (i32 \<times> 'w) res" where
  "kill_main S argv w =
     (if length argv < 2 then bindR (fprintf S 2 (ln ''usage: kill pid...'') [] w) (\<lambda>w. Ok (1, w))
      else bindR (foldR (\<lambda>a w. bindR (atoi a) (\<lambda>pid. Ok (snd (sys_kill S pid w)))) (tl argv) w) (\<lambda>w. Ok (0, w)))"

section \<open>ls\<close>

text \<open>\<open>fmtname\<close>: what follows the last slash, padded with blanks to \<open>DIRSIZ\<close> characters.\<close>

definition after_slash :: "u8 list \<Rightarrow> u8 list" where
  "after_slash path = rev (takeWhile (\<lambda>c. c \<noteq> 47) (rev path))"

definition fmtname :: "u8 list \<Rightarrow> u8 list" where
  "fmtname path =
     (let p = after_slash path
      in if length p \<ge> 14 then p else p @ replicate (14 - length p) 32)"

definition ls_line :: "'w sys \<Rightarrow> u8 list \<Rightarrow> ustat \<Rightarrow> 'w \<Rightarrow> 'w res" where
  "ls_line S path st w =
     uprintf S (ln ''%s %d %d %d'') [VStr (Some (fmtname path)), VInt (scast (st_type st)), VInt (st_ino st), VInt (ucast (st_size st))] w"

text \<open>A directory entry: the inode number in two bytes, then \<open>DIRSIZ\<close> bytes of the name.\<close>

definition de_inum :: "u8 list \<Rightarrow> u16" where
  "de_inum d = ucast (d ! 0) OR push_bit 8 (ucast (d ! 1))"

partial_function (option) ls_dir :: "'w sys \<Rightarrow> i32 \<Rightarrow> u8 list \<Rightarrow> 'w \<Rightarrow> 'w option" where
  "ls_dir S fd path w =
     (case sys_read S fd 16 w of (n, d, w) \<Rightarrow>
        if n \<noteq> 16 then Some w
        else if de_inum d = 0 then ls_dir S fd path w
        else let name = path @ [47] @ cstr (take 14 (drop 2 d))
             in (case stat S name w of (r, st, w) \<Rightarrow>
                  (case (if ilt r 0 then uprintf S (ln ''ls: cannot stat %s'') [VStr (Some name)] w
                         else (case st of None \<Rightarrow> Undef | Some st \<Rightarrow> ls_line S name st w)) of
                     Ok w \<Rightarrow> ls_dir S fd path w
                   | _ \<Rightarrow> None)))"

definition ls :: "'w sys \<Rightarrow> u8 list \<Rightarrow> 'w \<Rightarrow> 'w option" where
  "ls S path w =
     (case sys_open S path 0 w of (fd, w) \<Rightarrow>
        if ilt fd 0 then thenP (fprintf S 2 (ln ''ls: cannot open %s'') [VStr (Some path)] w) Some
        else (case sys_fstat S fd w of (r, st, w) \<Rightarrow>
          if ilt r 0 then thenP (fprintf S 2 (ln ''ls: cannot stat %s'') [VStr (Some path)] w) (\<lambda>w. Some (snd (sys_close S fd w)))
          else map_option (\<lambda>w. snd (sys_close S fd w))
            (if st_type st = 3 \<or> st_type st = 2 then thenP (ls_line S path st w) Some
             else if st_type st = 1
             then if length path + 1 + 14 + 1 > 512 then thenP (uprintf S (ln ''ls: path too long'') [] w) Some
                  else ls_dir S fd path w
             else Some w)))"

fun ls_args :: "'w sys \<Rightarrow> u8 list list \<Rightarrow> 'w \<Rightarrow> 'w option" where
  "ls_args S [] w = Some w"
| "ls_args S (a # as) w = (case ls S a w of None \<Rightarrow> None | Some w \<Rightarrow> ls_args S as w)"

definition ls_main :: "'w sys \<Rightarrow> u8 list list \<Rightarrow> 'w \<Rightarrow> (i32 \<times> 'w) option" where
  "ls_main S argv w = map_option (\<lambda>w. (0, w)) (if length argv < 2 then ls S (bytes ''.'') w else ls_args S (tl argv) w)"

end
