(* ===== verification/Umalloc.thy ===== *)
theory Umalloc
  imports Prelude
begin

text \<open>
  \<open>user/umalloc.c\<close>, the allocator of Kernighan and Ritchie.  A \<open>Header\<close> takes 16 bytes; a pointer to one is its
  byte address, a natural number, since addresses of user memory stay far below the end of the address
  space.  The state has the two fields of every header, the variable \<open>freep\<close> and, as a parameter, what
  \<open>sbrk\<close> depends on.  The searches of the circular list are partial functions: that they end is part of
  what is proved.
\<close>

section \<open>The program\<close>

record heap =
  hptr :: "nat \<Rightarrow> nat"
  hsize :: "nat \<Rightarrow> nat"
  freep :: nat

abbreviation (input) set_ptr :: "nat \<Rightarrow> nat \<Rightarrow> heap \<Rightarrow> heap" where
  "set_ptr a p h \<equiv> h\<lparr>hptr := (hptr h)(a := p)\<rparr>"

text \<open>Sizes are \<open>uint\<close>.\<close>

abbreviation (input) set_size :: "nat \<Rightarrow> nat \<Rightarrow> heap \<Rightarrow> heap" where
  "set_size a n h \<equiv> h\<lparr>hsize := (hsize h)(a := n mod 2 ^ 32)\<rparr>"

partial_function (option) free_find :: "heap \<Rightarrow> nat \<Rightarrow> nat \<Rightarrow> nat option" where
  "free_find h bp p =
     (if bp > p \<and> bp < hptr h p then Some p
      else if p \<ge> hptr h p \<and> (bp > p \<or> bp < hptr h p) then Some p
      else free_find h bp (hptr h p))"

definition free_join :: "nat \<Rightarrow> nat \<Rightarrow> heap \<Rightarrow> heap" where
  "free_join bp p h =
     (let h = (if bp + 16 * hsize h bp = hptr h p
               then set_ptr bp (hptr h (hptr h p)) (set_size bp (hsize h bp + hsize h (hptr h p)) h)
               else set_ptr bp (hptr h p) h);
          h = (if p + 16 * hsize h p = bp
               then set_ptr p (hptr h bp) (set_size p (hsize h p + hsize h bp) h)
               else set_ptr p bp h)
      in h\<lparr>freep := p\<rparr>)"

definition free :: "nat \<Rightarrow> heap \<Rightarrow> heap option" where
  "free ap h = (let bp = ap - 16 in case free_find h bp (freep h) of None \<Rightarrow> None | Some p \<Rightarrow> Some (free_join bp p h))"

text \<open>\<open>sbrk\<close> takes an \<open>int\<close> and returns a pointer, -1 on failure; \<open>morecore\<close> returns \<open>freep\<close> or 0.\<close>

type_synonym 'w sbrk = "int \<Rightarrow> 'w \<Rightarrow> nat \<times> 'w"

definition as_int :: "nat \<Rightarrow> int" where
  "as_int n = sint (word_of_nat n :: i32)"

definition morecore :: "'w sbrk \<Rightarrow> nat \<Rightarrow> heap \<times> 'w \<Rightarrow> (nat \<times> heap \<times> 'w) option" where
  "morecore sbrk nu s =
     (case s of (h, w) \<Rightarrow>
       let nu = (if nu < 4096 then 4096 else nu)
       in (case sbrk (as_int (nu * 16)) w of (p, w) \<Rightarrow>
            if p = 2 ^ 64 - 1 then Some (0, h, w)
            else (case free (p + 16) (set_size p nu h) of None \<Rightarrow> None | Some h \<Rightarrow> Some (freep h, h, w))))"

definition malloc_take :: "nat \<Rightarrow> nat \<Rightarrow> nat \<Rightarrow> heap \<Rightarrow> nat \<times> heap" where
  "malloc_take nunits prevp p h =
     (if hsize h p = nunits then (p + 16, (set_ptr prevp (hptr h p) h)\<lparr>freep := prevp\<rparr>)
      else let h = set_size p (hsize h p - nunits) h;
               p = p + 16 * hsize h p;
               h = set_size p nunits h
           in (p + 16, h\<lparr>freep := prevp\<rparr>))"

partial_function (option) malloc_loop ::
  "'w sbrk \<Rightarrow> nat \<Rightarrow> nat \<Rightarrow> nat \<Rightarrow> heap \<Rightarrow> 'w \<Rightarrow> (nat \<times> heap \<times> 'w) option" where
  "malloc_loop sbrk nunits prevp p h w =
     (if hsize h p \<ge> nunits then (case malloc_take nunits prevp p h of (r, h) \<Rightarrow> Some (r, h, w))
      else if p = freep h
      then (case morecore sbrk nunits (h, w) of
              None \<Rightarrow> None
            | Some (p, h, w) \<Rightarrow> if p = 0 then Some (0, h, w) else malloc_loop sbrk nunits p (hptr h p) h w)
      else malloc_loop sbrk nunits p (hptr h p) h w)"

text \<open>\<open>B\<close> is the address of the static variable \<open>base\<close>.\<close>

definition malloc :: "nat \<Rightarrow> 'w sbrk \<Rightarrow> nat \<Rightarrow> heap \<Rightarrow> 'w \<Rightarrow> (nat \<times> heap \<times> 'w) option" where
  "malloc B sbrk nbytes h w =
     (let nunits = ((nbytes + 16 - 1) div 16 + 1) mod 2 ^ 32;
          h = (if freep h = 0 then (set_size B 0 (set_ptr B B h))\<lparr>freep := B\<rparr> else h)
      in malloc_loop sbrk nunits (freep h) (hptr h (freep h)) h w)"

section \<open>The circular list\<close>

text \<open>The blocks \<open>ys\<close> follow \<open>x\<close>, and \<open>z\<close> comes after them.\<close>

fun chain :: "(nat \<Rightarrow> nat) \<Rightarrow> nat \<Rightarrow> nat list \<Rightarrow> nat \<Rightarrow> bool" where
  "chain f x [] z \<longleftrightarrow> f x = z"
| "chain f x (y # ys) z \<longleftrightarrow> f x = y \<and> chain f y ys z"

lemma chain_append: "chain f x (us @ p # vs) z \<longleftrightarrow> chain f x us p \<and> chain f p vs z"
  by (induction us arbitrary: x) auto

lemma chain_cong: "(\<And>a. a \<in> set (x # ys) \<Longrightarrow> f a = g a) \<Longrightarrow> chain f x ys z = chain g x ys z"
  by (induction ys arbitrary: x) auto

lemma chain_rotate:
  assumes "chain f b rest b" and "b # rest = us @ p # vs"
  shows "chain f p (vs @ us) p"
proof (cases us)
  case Nil
  then show ?thesis using assms by simp
next
  case (Cons c us')
  then show ?thesis using assms chain_append [of f b us' p vs b] chain_append [of f p vs b us' p] by simp
qed

text \<open>The search of \<open>free\<close>: from above the block it runs to the end of the list and on to its start, from there to the last
  block below.\<close>

lemma free_find_above:
  "chain (hptr h) x ys b \<Longrightarrow> sorted_wrt (<) (x # ys) \<Longrightarrow> bp < x \<Longrightarrow> b < bp \<Longrightarrow> free_find h bp x = free_find h bp b"
proof (induction ys arbitrary: x)
  case Nil
  then show ?case by (subst free_find.simps) simp
next
  case (Cons y ys)
  then have "free_find h bp x = free_find h bp y" by (subst free_find.simps) auto
  then show ?case using Cons by auto
qed

lemma free_find_below:
  "chain (hptr h) x ys b \<Longrightarrow> sorted_wrt (<) (x # ys) \<Longrightarrow> x < bp \<Longrightarrow> bp \<notin> set ys \<Longrightarrow> b \<le> x \<Longrightarrow>
   \<exists>us p vs. x # ys = us @ p # vs \<and> (\<forall>a \<in> set us. a < bp) \<and> p < bp \<and> (\<forall>a \<in> set vs. bp < a) \<and> free_find h bp x = Some p"
proof (induction ys arbitrary: x)
  case Nil
  then have "free_find h bp x = Some x" by (subst free_find.simps) auto
  then show ?case using Nil by (intro exI [of _ "[]"] exI [of _ x] exI [of _ "[]"]) simp
next
  case (Cons y ys)
  show ?case
  proof (cases "bp < y")
    case True
    then have "free_find h bp x = Some x" using Cons by (subst free_find.simps) auto
    then show ?thesis using Cons True by (intro exI [of _ "[]"] exI [of _ x] exI [of _ "y # ys"]) auto
  next
    case False
    then have y: "y < bp" using Cons(5) by auto
    then have "free_find h bp x = free_find h bp y" using Cons by (subst free_find.simps) auto
    moreover obtain us p vs where "y # ys = us @ p # vs" "\<forall>a \<in> set us. a < bp" "p < bp" "\<forall>a \<in> set vs. bp < a" "free_find h bp y = Some p"
      using Cons(1) [of y] Cons(2-6) y by auto
    ultimately show ?thesis using Cons(4) by (intro exI [of _ "x # us"] exI [of _ p] exI [of _ vs]) auto
  qed
qed

lemma free_find_ring:
  assumes "chain (hptr h) b rest b" and "sorted_wrt (<) (b # rest)" and "b < bp" and "bp \<notin> set rest" and "f \<in> set (b # rest)"
  obtains us p vs where "b # rest = us @ p # vs" and "\<forall>a \<in> set us. a < bp" and "p < bp" and "\<forall>a \<in> set vs. bp < a"
    and "free_find h bp f = Some p"
proof -
  obtain us vs where f: "b # rest = us @ f # vs" using assms(5) by (meson split_list)
  have c: "chain (hptr h) f vs b"
  proof (cases us)
    case (Cons c us')
    then show ?thesis using f assms(1) chain_append [of "hptr h" b us' f vs b] by simp
  qed (use f assms(1) in simp)
  have s: "sorted_wrt (<) (f # vs)" using assms(2) unfolding f sorted_wrt_append by simp
  have bf: "b \<le> f" using assms(2,5) by auto
  show thesis
  proof (cases "f < bp")
    case True
    have "bp \<notin> set vs" using f assms(3,4) by (cases us) auto
    then obtain us' p vs' where p: "f # vs = us' @ p # vs'" "\<forall>a \<in> set us'. a < bp" "p < bp" "\<forall>a \<in> set vs'. bp < a" "free_find h bp f = Some p"
      using free_find_below [OF c s True] bf by blast
    have "\<forall>a \<in> set us. a < bp" using assms(2) True unfolding f sorted_wrt_append by auto
    then show thesis using that [of "us @ us'" p vs'] f p by auto
  next
    case False
    moreover have "f \<noteq> bp" using assms(3-5) by auto
    ultimately have "bp < f" by simp
    then have "free_find h bp f = free_find h bp b" using free_find_above [OF c s _ assms(3)] by simp
    then show thesis using free_find_below [OF assms(1,2,3,4)] that by auto
  qed
qed

definition cyc :: "(nat \<Rightarrow> nat) \<Rightarrow> nat list \<Rightarrow> bool" where
  "cyc f xs \<longleftrightarrow> xs \<noteq> [] \<and> chain f (hd xs) (tl xs) (hd xs)"

lemma cyc_rotate: "cyc f (us @ p # vs) \<longleftrightarrow> chain f p (vs @ us) p"
proof (cases us)
  case (Cons c us')
  then show ?thesis using chain_append [of f c us' p vs c] chain_append [of f p vs c us' p] by (auto simp: cyc_def)
qed (simp add: cyc_def)

lemma chain_first: "g x = f y \<Longrightarrow> (\<And>a. a \<in> set ys \<Longrightarrow> g a = f a) \<Longrightarrow> chain g x ys z = chain f y ys z"
  by (cases ys) (simp_all, metis chain_cong list.set_intros set_ConsD)

lemma cyc_insert:
  assumes "cyc f (us @ p # vs)" and "p \<notin> set (us @ vs)" and "bp \<notin> set (us @ p # vs)"
  shows "cyc (f(bp := f p, p := bp)) (us @ p # bp # vs)"
proof -
  have "chain (f(bp := f p, p := bp)) bp (vs @ us) p = chain f p (vs @ us) p"
    by (rule chain_first) (use assms(2,3) in auto)
  then show ?thesis using assms(1,3) by (simp add: cyc_rotate)
qed

lemma cyc_remove:
  assumes "cyc f (us @ a # b # vs)" and "a \<notin> set (us @ vs)"
  shows "cyc (f(a := f b)) (us @ a # vs)"
proof -
  have "chain (f(a := f b)) a (vs @ us) a = chain f b (vs @ us) a"
    by (rule chain_first) (use assms(2) in auto)
  then show ?thesis using assms(1) by (simp add: cyc_rotate)
qed

section \<open>The free blocks\<close>

text \<open>The free list in the order of addresses; the empty block \<open>base\<close> is the first.  The blocks do not overlap.\<close>

definition freelist :: "nat \<Rightarrow> heap \<Rightarrow> nat list \<Rightarrow> bool" where
  "freelist B h xs \<longleftrightarrow> (\<exists>rest. xs = B # rest \<and> cyc (hptr h) xs \<and> hsize h B = 0 \<and>
     sorted_wrt (\<lambda>a b. a + 16 * hsize h a \<le> b) rest \<and> (\<forall>a \<in> set rest. 0 < hsize h a \<and> B + 16 \<le> a))"

definition region :: "heap \<Rightarrow> nat \<Rightarrow> nat set" where
  "region h a = {a..<a + 16 * hsize h a}"

definition area :: "heap \<Rightarrow> nat set \<Rightarrow> nat set" where
  "area h A = (\<Union>a \<in> A. region h a)"

lemma freelist_sorted:
  assumes "freelist B h xs"
  shows "sorted_wrt (<) xs" "distinct xs" "sorted_wrt (\<lambda>a b. a + 16 * hsize h a \<le> b) xs"
proof -
  obtain rest where xs: "xs = B # rest" and B: "hsize h B = 0" and s: "sorted_wrt (\<lambda>a b. a + 16 * hsize h a \<le> b) rest"
    and pos: "\<forall>a \<in> set rest. 0 < hsize h a \<and> B + 16 \<le> a" using assms by (auto simp: freelist_def)
  show w: "sorted_wrt (\<lambda>a b. a + 16 * hsize h a \<le> b) xs" using xs s B pos by auto
  have "sorted_wrt (<) rest" by (rule sorted_wrt_mono_rel [OF _ s]) (use pos in fastforce)
  then show so: "sorted_wrt (<) xs" using xs pos by auto
  then show "distinct xs" by (simp add: strict_sorted_iff)
qed

lemma freelistD: "freelist B h xs \<Longrightarrow> cyc (hptr h) xs" "freelist B h xs \<Longrightarrow> hsize h B = 0" "freelist B h xs \<Longrightarrow> B \<in> set xs"
  "freelist B h xs \<Longrightarrow> a \<in> set xs \<Longrightarrow> a \<noteq> B \<Longrightarrow> 0 < hsize h a \<and> B + 16 \<le> a"
  by (auto simp: freelist_def)

text \<open>Putting a block between its neighbours.\<close>

lemma freelist_insert:
  assumes fl: "freelist B h (us @ p # vs)" and bp: "B + 16 \<le> bp" "0 < hsize h bp" "\<And>a. a \<in> set (us @ [p]) \<Longrightarrow> a + 16 * hsize h a \<le> bp"
    and vs: "\<And>a. a \<in> set vs \<Longrightarrow> bp + 16 * hsize h bp \<le> a"
  shows "freelist B (set_ptr p bp (set_ptr bp (hptr h p) h)) (us @ p # bp # vs)"
proof -
  let ?h = "set_ptr p bp (set_ptr bp (hptr h p) h)"
  note d = freelist_sorted [OF fl]
  have notin: "bp \<notin> set (us @ p # vs)"
  proof
    assume i: "bp \<in> set (us @ p # vs)"
    then have "bp \<in> set (us @ [p]) \<or> bp \<in> set vs" by auto
    then show False using bp(2) bp(3) [of bp] vs [of bp] by auto
  qed
  have c: "cyc (hptr ?h) (us @ p # bp # vs)"
    using cyc_insert [OF freelistD(1) [OF fl] _ notin] d(2) by simp
  obtain rest where r: "us @ p # vs = B # rest" "\<forall>a \<in> set rest. 0 < hsize h a \<and> B + 16 \<le> a"
    using fl by (auto simp: freelist_def)
  have w: "sorted_wrt (\<lambda>a b. a + 16 * hsize h a \<le> b) (us @ p # bp # vs)"
    using d(3) bp(3) vs by (auto simp: sorted_wrt_append)
  show ?thesis
  proof (cases us)
    case Nil
    then show ?thesis using r c w bp freelistD(2) [OF fl] by (auto simp: freelist_def)
  next
    case (Cons u us')
    then show ?thesis using r c w bp freelistD(2) [OF fl] by (auto simp: freelist_def)
  qed
qed

text \<open>Joining a block with its neighbour.\<close>

lemma freelist_merge:
  assumes fl: "freelist B h (us @ a # b # vs)" and ab: "a + 16 * hsize h a = b" and small: "hsize h a + hsize h b < 2 ^ 32" and nB: "a \<noteq> B"
  defines "h' \<equiv> set_ptr a (hptr h b) (set_size a (hsize h a + hsize h b) h)"
  shows "freelist B h' (us @ a # vs)" "area h' (set (us @ a # vs)) = area h (set (us @ a # b # vs))"
proof -
  note d = freelist_sorted [OF fl]
  have c: "cyc (hptr h') (us @ a # vs)" using cyc_remove [OF freelistD(1) [OF fl]] d(2) by (simp add: h'_def)
  have sz: "hsize h' = (hsize h)(a := hsize h a + hsize h b)" using small by (simp add: h'_def)
  obtain us' where us: "us = B # us'" using fl nB by (cases us) (auto simp: freelist_def)
  have neq: "x \<noteq> a" if "x \<in> set us \<or> x \<in> set vs" for x using that d(2) by auto
  have w: "sorted_wrt (\<lambda>x y. x + 16 * hsize h x \<le> y) (us' @ a # b # vs)" "\<forall>x \<in> set (us' @ a # b # vs). 0 < hsize h x \<and> B + 16 \<le> x"
    using fl us by (auto simp: freelist_def)
  have "sorted_wrt (\<lambda>x y. x + 16 * hsize h' x \<le> y) (us' @ a # vs)"
  proof -
    have same: "sorted_wrt (\<lambda>x y. x + 16 * hsize h' x \<le> y) zs" if "sorted_wrt (\<lambda>x y. x + 16 * hsize h x \<le> y) zs" "a \<notin> set zs" for zs
      using that by (induction zs) (auto simp: sz)
    have "a \<notin> set us'" "a \<notin> set vs" using neq us by auto
    moreover have "sorted_wrt (\<lambda>x y. x + 16 * hsize h x \<le> y) us'" "sorted_wrt (\<lambda>x y. x + 16 * hsize h x \<le> y) vs"
      "\<forall>x \<in> set us'. x + 16 * hsize h x \<le> a \<and> (\<forall>y \<in> set vs. x + 16 * hsize h x \<le> y)" "\<forall>y \<in> set vs. b + 16 * hsize h b \<le> y"
      using w(1) by (simp_all add: sorted_wrt_append)
    moreover have "hsize h' a = hsize h a + hsize h b" "\<forall>x \<in> set us'. hsize h' x = hsize h x"
      using \<open>a \<notin> set us'\<close> by (auto simp: sz)
    ultimately show ?thesis using same ab by (auto simp: sorted_wrt_append)
  qed
  then show "freelist B h' (us @ a # vs)"
    using c w(2) us freelistD(2) [OF fl] nB unfolding freelist_def sz by auto
  have "region h' a = region h a \<union> region h b" using ab by (auto simp: region_def sz)
  moreover have "region h' x = region h x" if "x \<in> set us \<or> x \<in> set vs" for x using neq [OF that] by (simp add: region_def sz)
  ultimately show "area h' (set (us @ a # vs)) = area h (set (us @ a # b # vs))" by (auto simp: area_def)
qed

section \<open>\<open>free\<close>\<close>

lemma freelist_next:
  assumes "freelist B h (us @ p # vs)"
  shows "vs = [] \<Longrightarrow> hptr h p = B" "vs = q # vs' \<Longrightarrow> hptr h p = q"
proof -
  have c: "chain (hptr h) p (vs @ us) p" using freelistD(1) [OF assms] by (simp add: cyc_rotate)
  show "vs = [] \<Longrightarrow> hptr h p = B" using c assms by (cases us) (auto simp: freelist_def)
  show "vs = q # vs' \<Longrightarrow> hptr h p = q" using c by simp
qed

text \<open>Blocks inside an area below \<open>2 ^ 36\<close> have sizes that a \<open>uint\<close> can hold, also after joining.\<close>

lemma block_in_area:
  assumes "area h A \<subseteq> {..<T}" and "a \<in> A" and "0 < hsize h a"
  shows "a + 16 * hsize h a \<le> T"
proof -
  have "a + 16 * hsize h a - 1 \<in> region h a" using assms(3) by (simp add: region_def)
  then have "a + 16 * hsize h a - 1 < T" using assms(1,2) by (auto simp: area_def)
  then show ?thesis by simp
qed

text \<open>\<open>free\<close> as the insertion of the block followed by joining it with its neighbours.\<close>

definition join :: "nat \<Rightarrow> nat \<Rightarrow> heap \<Rightarrow> heap" where
  "join a b h = (if a + 16 * hsize h a = b then set_ptr a (hptr h b) (set_size a (hsize h a + hsize h b) h) else h)"

lemma free_join_eq:
  assumes "p \<noteq> bp" and "hptr h p \<noteq> bp" and "bp + 16 * hsize h bp = hptr h p \<Longrightarrow> hptr h p \<noteq> p"
  shows "free_join bp p h = (join p bp (join bp (hptr h p) (set_ptr p bp (set_ptr bp (hptr h p) h))))\<lparr>freep := p\<rparr>"
proof (cases "bp + 16 * hsize h bp = hptr h p")
  case True
  then have "hptr h p \<noteq> p" "hptr h p = bp + 16 * hsize h bp" using assms(3) by simp_all
  then show ?thesis using assms(1,2)
    by (cases "p + 16 * hsize h p = bp"; intro heap.equality) (simp_all add: free_join_def join_def Let_def fun_eq_iff)
next
  case False
  then show ?thesis using assms(1,2)
    by (cases "p + 16 * hsize h p = bp"; intro heap.equality) (simp_all add: free_join_def join_def Let_def fun_eq_iff)
qed

lemma freelist_join:
  assumes "freelist B h (us @ a # b # vs)" and "a \<noteq> B" and "area h (set (us @ a # b # vs)) \<subseteq> {..<2 ^ 36}"
  shows "\<exists>ws. set ws \<subseteq> set (b # vs) \<and> freelist B (join a b h) (us @ a # ws) \<and>
    area (join a b h) (set (us @ a # ws)) = area h (set (us @ a # b # vs)) \<and> (\<forall>x. x \<noteq> a \<longrightarrow> hsize (join a b h) x = hsize h x) \<and>
    hsize h a \<le> hsize (join a b h) a \<and> (b \<in> set ws \<or> hsize h b \<le> hsize (join a b h) a)"
proof (cases "a + 16 * hsize h a = b")
  case True
  have a: "0 < hsize h a" "B + 16 \<le> a" using freelistD(4) [OF assms(1), of a] assms(2) by simp_all
  then have "b \<noteq> B" using True by simp
  then have pos: "0 < hsize h b" using freelistD(4) [OF assms(1), of b] by simp
  have "b + 16 * hsize h b \<le> 2 ^ 36" by (rule block_in_area [OF assms(3) _ pos]) simp
  then have "hsize h a + hsize h b < 2 ^ 32" using True a(2) by simp
  from freelist_merge [OF assms(1) True this assms(2)] this show ?thesis
    using True by (intro exI [of _ vs]) (auto simp: join_def)
next
  case False
  then show ?thesis using assms(1) by (intro exI [of _ "b # vs"]) (simp add: join_def)
qed

lemma free_spec:
  assumes fl: "freelist B h xs" and fp: "freep h \<in> set xs" and bp: "B + 16 \<le> bp" "0 < hsize h bp"
    and disj: "region h bp \<inter> area h (set xs) = {}" and bound: "area h (set xs) \<union> region h bp \<subseteq> {..<2 ^ 36}"
  shows "\<exists>h' xs'. free (bp + 16) h = Some h' \<and> freelist B h' xs' \<and> freep h' \<in> set xs' \<and>
    area h' (set xs') = area h (set xs) \<union> region h bp \<and> set xs' \<subseteq> insert bp (set xs) \<and>
    (\<forall>a. a \<notin> insert bp (set xs) \<longrightarrow> hsize h' a = hsize h a) \<and> (\<exists>y \<in> set xs'. hsize h bp \<le> hsize h' y)"
proof -
  have bpr: "bp \<in> region h bp" using bp(2) by (simp add: region_def)
  have notin: "bp \<notin> set xs"
  proof
    assume "bp \<in> set xs"
    then show False using disj bpr by (auto simp: area_def)
  qed
  obtain rest where xs: "xs = B # rest" using fl by (auto simp: freelist_def)
  have "chain (hptr h) B rest B" using freelistD(1) [OF fl] xs by (simp add: cyc_def)
  then obtain us p vs where p: "xs = us @ p # vs" "\<forall>a \<in> set us. a < bp" "p < bp" "\<forall>a \<in> set vs. bp < a" "free_find h bp (freep h) = Some p"
    using free_find_ring [of h B rest bp "freep h"] freelist_sorted(1) [OF fl] bp(1) notin fp xs by auto
  have below: "a + 16 * hsize h a \<le> bp" if a: "a \<in> set (us @ [p])" for a
  proof (rule ccontr)
    assume n: "\<not> a + 16 * hsize h a \<le> bp"
    have "a < bp" using a p(2,3) by auto
    then have "bp \<in> region h a" using n by (simp add: region_def)
    then show False using disj bpr a p(1) by (auto simp: area_def)
  qed
  have above: "bp + 16 * hsize h bp \<le> a" if a: "a \<in> set vs" for a
  proof (rule ccontr)
    assume n: "\<not> bp + 16 * hsize h bp \<le> a"
    have "bp < a" using a p(4) by auto
    then have "a \<in> region h bp" "a \<noteq> B" using n bp(1) by (simp_all add: region_def)
    moreover have "a \<in> region h a" using freelistD(4) [OF fl, of a] a p(1) \<open>a \<noteq> B\<close> by (simp add: region_def)
    ultimately show False using disj a p(1) by (auto simp: area_def)
  qed
  define q where "q = hptr h p"
  define h1 where "h1 = set_ptr p bp (set_ptr bp q h)"
  have f1: "freelist B h1 (us @ p # bp # vs)"
    unfolding h1_def q_def by (rule freelist_insert) (use fl p(1) bp below above in auto)
  have s1: "hsize h1 = hsize h" by (simp add: h1_def)
  have a1: "area h1 (set (us @ p # bp # vs)) = area h (set xs) \<union> region h bp"
    by (auto simp: area_def region_def s1 p(1))
  have q: "vs = [] \<Longrightarrow> q = B" "vs \<noteq> [] \<Longrightarrow> q = hd vs"
    using freelist_next [of B h us p vs] fl p(1) by (auto simp: q_def neq_Nil_conv)
  have "\<exists>ws. set ws \<subseteq> set vs \<and> freelist B (join bp q h1) (us @ p # bp # ws) \<and>
      area (join bp q h1) (set (us @ p # bp # ws)) = area h (set xs) \<union> region h bp \<and> (\<forall>x. x \<noteq> bp \<longrightarrow> hsize (join bp q h1) x = hsize h x) \<and>
      hsize h bp \<le> hsize (join bp q h1) bp"
  proof (cases vs)
    case Nil
    then have "join bp q h1 = h1" using q bp(1) by (auto simp: join_def)
    then show ?thesis using f1 a1 s1 Nil by (intro exI [of _ "[]"]) simp
  next
    case (Cons v vs')
    have f: "freelist B h1 ((us @ [p]) @ bp # v # vs')" using f1 Cons by simp
    have a: "area h1 (set ((us @ [p]) @ bp # v # vs')) = area h (set xs) \<union> region h bp" using a1 Cons by simp
    have "bp \<noteq> B" using bp(1) by simp
    from freelist_join [OF f this] obtain ws where "set ws \<subseteq> set (v # vs')" "freelist B (join bp v h1) ((us @ [p]) @ bp # ws)"
      "area (join bp v h1) (set ((us @ [p]) @ bp # ws)) = area h (set xs) \<union> region h bp" "\<forall>x. x \<noteq> bp \<longrightarrow> hsize (join bp v h1) x = hsize h1 x"
      "hsize h1 bp \<le> hsize (join bp v h1) bp"
      unfolding a using bound by blast
    then show ?thesis using q(2) Cons s1 by (intro exI [of _ ws]) simp
  qed
  then obtain ws where ws: "set ws \<subseteq> set vs" "freelist B (join bp q h1) (us @ p # bp # ws)"
    "area (join bp q h1) (set (us @ p # bp # ws)) = area h (set xs) \<union> region h bp" "\<forall>x. x \<noteq> bp \<longrightarrow> hsize (join bp q h1) x = hsize h x"
    "hsize h bp \<le> hsize (join bp q h1) bp" by blast
  let ?h2 = "join bp q h1"
  let ?h3 = "join p bp ?h2"
  have "\<exists>zs. set zs \<subseteq> set (us @ p # bp # ws) \<and> p \<in> set zs \<and> freelist B ?h3 zs \<and>
      area ?h3 (set zs) = area h (set xs) \<union> region h bp \<and> (\<forall>x. x \<notin> {p, bp} \<longrightarrow> hsize ?h3 x = hsize h x) \<and>
      (\<exists>y \<in> set zs. hsize h bp \<le> hsize ?h3 y)"
  proof (cases "p = B")
    case True
    then have "?h3 = ?h2" using freelistD(2) [OF ws(2)] bp(1) by (auto simp: join_def)
    then show ?thesis using ws by (intro exI [of _ "us @ p # bp # ws"]) auto
  next
    case False
    from freelist_join [OF ws(2) False] obtain zs where "set zs \<subseteq> set (bp # ws)" "freelist B ?h3 (us @ p # zs)"
      "area ?h3 (set (us @ p # zs)) = area h (set xs) \<union> region h bp" "\<forall>x. x \<noteq> p \<longrightarrow> hsize ?h3 x = hsize ?h2 x"
      "bp \<in> set zs \<or> hsize ?h2 bp \<le> hsize ?h3 p"
      unfolding ws(3) using bound by blast
    moreover have "\<exists>y \<in> set (us @ p # zs). hsize h bp \<le> hsize ?h3 y"
    proof (cases "bp \<in> set zs")
      case True
      then show ?thesis using ws(5) p(3) calculation(4) by (intro bexI [of _ bp]) auto
    next
      case False
      then show ?thesis using ws(5) calculation(5) by (intro bexI [of _ p]) auto
    qed
    ultimately show ?thesis using ws(4) by (intro exI [of _ "us @ p # zs"]) auto
  qed
  then obtain zs where zs: "set zs \<subseteq> set (us @ p # bp # ws)" "p \<in> set zs" "freelist B ?h3 zs"
    "area ?h3 (set zs) = area h (set xs) \<union> region h bp" "\<forall>x. x \<notin> {p, bp} \<longrightarrow> hsize ?h3 x = hsize h x"
    "\<exists>y \<in> set zs. hsize h bp \<le> hsize ?h3 y" by blast
  have "free_join bp p h = ?h3\<lparr>freep := p\<rparr>"
    unfolding h1_def q_def
  proof (rule free_join_eq)
    show "hptr h p \<noteq> bp" using q p(4) bp(1) unfolding q_def by (cases vs) auto
    show "hptr h p \<noteq> p" if "bp + 16 * hsize h bp = hptr h p" using that p(3) by simp
  qed (use p(3) in simp)
  then have "free (bp + 16) h = Some (?h3\<lparr>freep := p\<rparr>)" using p(5) by (simp add: free_def)
  moreover have "freelist B (?h3\<lparr>freep := p\<rparr>) zs" using zs(3) by (simp add: freelist_def)
  moreover have "area (?h3\<lparr>freep := p\<rparr>) (set zs) = area ?h3 (set zs)" by (simp add: area_def region_def)
  moreover have "set zs \<subseteq> insert bp (set xs)" using zs(1) ws(1) p(1) by auto
  ultimately show ?thesis using zs(2,4,5,6) p(1) by (intro exI [of _ "?h3\<lparr>freep := p\<rparr>"] exI [of _ zs]) auto
qed

section \<open>\<open>malloc\<close>\<close>

lemma freelist_disjoint:
  assumes "freelist B h xs" and "a \<in> set xs" and "b \<in> set xs" and "a \<noteq> b"
  shows "region h a \<inter> region h b = {}"
proof -
  have s: "x + 16 * hsize h x \<le> y \<or> y + 16 * hsize h y \<le> x"
    if "sorted_wrt (\<lambda>a b. a + 16 * hsize h a \<le> b) zs" "x \<in> set zs" "y \<in> set zs" "x \<noteq> y" for zs x y
    using that by (induction zs) auto
  from s [OF freelist_sorted(3) [OF assms(1)] assms(2-4)] show ?thesis by (auto simp: region_def)
qed

text \<open>The block after a block of the list.\<close>

lemma freelist_after:
  assumes "freelist B h xs" and "a \<in> set xs" and "hptr h a \<noteq> B"
  obtains us vs where "xs = us @ a # hptr h a # vs"
proof -
  obtain us ws where xs: "xs = us @ a # ws" using assms(2) by (meson split_list)
  then show thesis using that freelist_next [of B h us a ws] assms(1,3) by (cases ws) auto
qed

lemma freelist_drop:
  assumes fl: "freelist B h (us @ a # b # vs)"
  defines "h' \<equiv> set_ptr a (hptr h b) h"
  shows "freelist B h' (us @ a # vs)" "area h (set (us @ a # b # vs)) = area h' (set (us @ a # vs)) \<union> region h b"
proof -
  have c: "cyc (hptr h') (us @ a # vs)"
    using cyc_remove [OF freelistD(1) [OF fl]] freelist_sorted(2) [OF fl] by (simp add: h'_def)
  have sz: "hsize h' = hsize h" by (simp add: h'_def)
  show "freelist B h' (us @ a # vs)"
  proof (cases us)
    case Nil
    then show ?thesis using fl c by (auto simp: freelist_def sz)
  next
    case (Cons u us')
    then show ?thesis using fl c by (auto simp: freelist_def sz sorted_wrt_append)
  qed
  show "area h (set (us @ a # b # vs)) = area h' (set (us @ a # vs)) \<union> region h b"
    by (auto simp: area_def region_def sz)
qed

lemma area_disjoint: "(\<And>x. x \<in> A \<Longrightarrow> region h x \<inter> R = {}) \<Longrightarrow> area h A \<inter> R = {}"
  by (auto simp: area_def)

text \<open>Taking \<open>n\<close> units from a block.\<close>

lemma malloc_take_spec:
  assumes fl: "freelist B h (us @ a # b # vs)" and n: "0 < n" "n \<le> hsize h b" and bound: "area h (set (us @ a # b # vs)) \<subseteq> {..<2 ^ 36}"
    and e: "malloc_take n a b h = (r, h')"
  shows "\<exists>q xs'. r = q + 16 \<and> freelist B h' xs' \<and> freep h' \<in> set xs' \<and> B + 16 \<le> q \<and> hsize h' q = n \<and> q \<in> region h b \<and>
    set xs' \<subseteq> set (us @ a # b # vs) \<and> area h' (set xs') \<union> region h' q = area h (set (us @ a # b # vs)) \<and>
    area h' (set xs') \<inter> region h' q = {} \<and> (\<forall>x. x \<notin> {b, q} \<longrightarrow> hsize h' x = hsize h x)"
proof -
  let ?xs = "us @ a # b # vs"
  note d = freelist_sorted(2) [OF fl]
  have bB: "b \<noteq> B" using freelistD(2) [OF fl] n by auto
  have b: "B + 16 \<le> b" using freelistD(4) [OF fl, of b] bB by simp
  have "b + 16 * hsize h b \<le> 2 ^ 36" by (rule block_in_area [OF bound]) (use n in auto)
  then have small: "hsize h b < 2 ^ 32" using b by simp
  have other: "region h x \<inter> region h b = {}" if "x \<in> set (us @ a # vs)" for x
    using freelist_disjoint [OF fl, of x b] that d by auto
  show ?thesis
  proof (cases "hsize h b = n")
    case True
    then have h': "r = b + 16" "h' = (set_ptr a (hptr h b) h)\<lparr>freep := a\<rparr>" using e by (simp_all add: malloc_take_def)
    note f = freelist_drop [OF fl]
    have "freelist B h' (us @ a # vs)" using f(1) unfolding h' by (simp add: freelist_def)
    moreover have "area h' (set (us @ a # vs)) = area (set_ptr a (hptr h b) h) (set (us @ a # vs))" "region h' b = region h b"
      unfolding h' by (simp_all add: area_def region_def)
    moreover have rr: "region h' = region h" unfolding h' by (simp add: fun_eq_iff region_def)
    moreover have "area h' (set (us @ a # vs)) \<inter> region h b = {}" by (rule area_disjoint) (use other rr in simp)
    ultimately show ?thesis using h' True b f(2) n by (intro exI [of _ b] exI [of _ "us @ a # vs"]) (auto simp: region_def)
  next
    case False
    define q where "q = b + 16 * (hsize h b - n)"
    have bq: "b < q" "q + 16 * n = b + 16 * hsize h b" using False n by (auto simp: q_def)
    have h': "r = q + 16" "h' = h\<lparr>hsize := (hsize h)(b := hsize h b - n, q := n), freep := a\<rparr>"
      using e False small n(2) by (simp_all add: malloc_take_def Let_def q_def)
    have qr: "q \<in> region h b" using bq n(1) by (simp add: region_def)
    have qn: "q \<notin> set ?xs"
    proof
      assume i: "q \<in> set ?xs"
      then have "q \<noteq> B" "q \<noteq> b" using bq b by auto
      then have "q \<in> region h q" using freelistD(4) [OF fl i] by (simp add: region_def)
      then show False using freelist_disjoint [OF fl i, of b] qr \<open>q \<noteq> b\<close> by auto
    qed
    have sz: "hsize h' x = (if x = b then hsize h b - n else hsize h x)" if "x \<in> set ?xs" for x
      using that qn by (auto simp: h')
    have w: "sorted_wrt (\<lambda>x y. x + 16 * hsize h' x \<le> y) zs"
      if "sorted_wrt (\<lambda>x y. x + 16 * hsize h x \<le> y) zs" "set zs \<subseteq> set ?xs" for zs
      using that by (induction zs) (auto simp: sz)
    have f: "freelist B h' ?xs"
    proof -
      obtain rest where r: "?xs = B # rest" "sorted_wrt (\<lambda>x y. x + 16 * hsize h x \<le> y) rest" "\<forall>x \<in> set rest. 0 < hsize h x \<and> B + 16 \<le> x"
        using fl by (auto simp: freelist_def)
      have "set rest \<subseteq> set ?xs" unfolding r(1) by auto
      then have "sorted_wrt (\<lambda>x y. x + 16 * hsize h' x \<le> y) rest" "\<forall>x \<in> set rest. 0 < hsize h' x \<and> B + 16 \<le> x"
        using w [OF r(2)] r(3) sz False n by (auto simp: subset_iff)
      moreover have "cyc (hptr h') ?xs" using freelistD(1) [OF fl] by (simp add: h')
      moreover have "hsize h' B = 0" using sz [of B] freelistD(2,3) [OF fl] bB by simp
      ultimately show ?thesis unfolding freelist_def using r(1) by blast
    qed
    have rb: "region h b = region h' b \<union> region h' q" "region h' b \<inter> region h' q = {}" using bq n by (auto simp: region_def h')
    have rx: "region h' x = region h x" if "x \<in> set (us @ a # vs)" for x
    proof -
      have "x \<noteq> b" "x \<in> set ?xs" using that d by auto
      then show ?thesis using sz [of x] by (simp add: region_def)
    qed
    have area: "area h' (set ?xs) = area h (set (us @ a # vs)) \<union> region h' b" using rx by (auto simp: area_def)
    have "area h (set ?xs) = area h (set (us @ a # vs)) \<union> region h b" by (auto simp: area_def)
    moreover have "area h (set (us @ a # vs)) \<inter> region h b = {}" by (rule area_disjoint) (rule other)
    ultimately have "area h' (set ?xs) \<union> region h' q = area h (set ?xs)" "area h' (set ?xs) \<inter> region h' q = {}"
      unfolding area using rb by blast+
    then show ?thesis using h' f b bq qr by (intro exI [of _ q] exI [of _ ?xs]) auto
  qed
qed

text \<open>The search from \<open>freep\<close> once around the list.\<close>

lemma malloc_scan:
  "chain (hptr h) x ys (freep h) \<Longrightarrow> freep h \<notin> set ys \<Longrightarrow> \<exists>y \<in> insert (freep h) (set ys). n \<le> hsize h y \<Longrightarrow>
   \<exists>a \<in> set (x # ys). n \<le> hsize h (hptr h a) \<and>
     malloc_loop sbrk n x (hptr h x) h w = (case malloc_take n a (hptr h a) h of (r, h') \<Rightarrow> Some (r, h', w))"
proof (induction ys arbitrary: x)
  case Nil
  then show ?case by (subst malloc_loop.simps) auto
next
  case (Cons y ys)
  show ?case
  proof (cases "n \<le> hsize h y")
    case True
    then show ?thesis using Cons by (subst malloc_loop.simps) auto
  next
    case False
    then have "malloc_loop sbrk n x (hptr h x) h w = malloc_loop sbrk n y (hptr h y) h w"
      using Cons(2,3) by (subst malloc_loop.simps) auto
    moreover have "\<exists>a \<in> set (y # ys). n \<le> hsize h (hptr h a) \<and>
        malloc_loop sbrk n y (hptr h y) h w = (case malloc_take n a (hptr h a) h of (r, h') \<Rightarrow> Some (r, h', w))"
      by (rule Cons(1)) (use Cons(2-4) False in auto)
    ultimately show ?thesis by auto
  qed
qed

lemma malloc_scan_none:
  "chain (hptr h) x ys (freep h) \<Longrightarrow> freep h \<notin> set ys \<Longrightarrow> \<forall>y \<in> insert (freep h) (set ys). hsize h y < n \<Longrightarrow>
   malloc_loop sbrk n x (hptr h x) h w =
     (case morecore sbrk n (h, w) of
        None \<Rightarrow> None
      | Some (p, h, w) \<Rightarrow> if p = 0 then Some (0, h, w) else malloc_loop sbrk n p (hptr h p) h w)"
proof (induction ys arbitrary: x)
  case Nil
  then show ?case by (subst malloc_loop.simps) auto
next
  case (Cons y ys)
  then have "malloc_loop sbrk n x (hptr h x) h w = malloc_loop sbrk n y (hptr h y) h w"
    by (subst malloc_loop.simps) auto
  then show ?case using Cons by auto
qed

lemma freelist_around:
  assumes "freelist B h xs" and "f \<in> set xs"
  obtains ys where "chain (hptr h) f ys f" and "f \<notin> set ys" and "set xs = insert f (set ys)"
proof -
  obtain us vs where xs: "xs = us @ f # vs" using assms(2) by (meson split_list)
  have "chain (hptr h) f (vs @ us) f" using freelistD(1) [OF assms(1)] unfolding xs by (simp add: cyc_rotate)
  then show thesis using that [of "vs @ us"] freelist_sorted(2) [OF assms(1)] xs by auto
qed

text \<open>The heap: the free list \<open>xs\<close> and the allocated blocks \<open>A\<close> do not overlap and lie below \<open>T\<close>.\<close>

definition heap_ok :: "nat \<Rightarrow> nat \<Rightarrow> heap \<Rightarrow> nat list \<Rightarrow> nat set \<Rightarrow> bool" where
  "heap_ok B T h xs A \<longleftrightarrow> freelist B h xs \<and> freep h \<in> set xs \<and> (\<forall>a \<in> A. 0 < hsize h a \<and> B + 16 \<le> a) \<and>
     (\<forall>a \<in> A. region h a \<inter> area h (set xs) = {}) \<and> (\<forall>a \<in> A. \<forall>b \<in> A. a \<noteq> b \<longrightarrow> region h a \<inter> region h b = {}) \<and>
     area h (set xs \<union> A) \<subseteq> {..<T}"

lemma region_self: "0 < hsize h a \<Longrightarrow> a \<in> region h a"
  by (simp add: region_def)

lemma region_cong: "hsize h' a = hsize h a \<Longrightarrow> region h' a = region h a"
  by (simp add: region_def)

lemma area_Un: "area h (A \<union> C) = area h A \<union> area h C"
  by (auto simp: area_def)

lemma heap_ok_sep: "heap_ok B T h xs A \<Longrightarrow> a \<in> A \<Longrightarrow> x \<in> set xs \<Longrightarrow> a \<noteq> x \<and> region h a \<inter> region h x = {}"
proof -
  assume ok: "heap_ok B T h xs A" and a: "a \<in> A" and x: "x \<in> set xs"
  then have "region h a \<inter> region h x = {}" "0 < hsize h a" by (auto simp: heap_ok_def area_def)
  then show ?thesis using region_self [of h a] by auto
qed

lemma malloc_found:
  assumes ok: "heap_ok B T h xs A" and T: "T \<le> 2 ^ 36" and n: "0 < n" and y: "\<exists>y \<in> set xs. n \<le> hsize h y"
  shows "\<exists>q h' xs'. malloc_loop sbrk n (freep h) (hptr h (freep h)) h w = Some (q + 16, h', w) \<and> q \<notin> A \<and> hsize h' q = n \<and>
    heap_ok B T h' xs' (insert q A) \<and> (\<forall>b \<in> A. hsize h' b = hsize h b)"
proof -
  have fl: "freelist B h xs" and fp: "freep h \<in> set xs" using ok by (simp_all add: heap_ok_def)
  obtain ys where ys: "chain (hptr h) (freep h) ys (freep h)" "freep h \<notin> set ys" "set xs = insert (freep h) (set ys)"
    using freelist_around [OF fl fp] .
  have "\<exists>y \<in> insert (freep h) (set ys). n \<le> hsize h y" using y ys(3) by simp
  from malloc_scan [OF ys(1,2) this, of sbrk w] obtain a where a: "a \<in> set xs" "n \<le> hsize h (hptr h a)"
    "malloc_loop sbrk n (freep h) (hptr h (freep h)) h w = (case malloc_take n a (hptr h a) h of (r, h') \<Rightarrow> Some (r, h', w))"
    using ys(3) by auto
  have "hptr h a \<noteq> B" using freelistD(2) [OF fl] n a(2) by auto
  then obtain us vs where xs: "xs = us @ a # hptr h a # vs" using freelist_after [OF fl a(1)] by blast
  obtain r h' where t: "malloc_take n a (hptr h a) h = (r, h')" by fastforce
  have bound: "area h (set xs) \<subseteq> {..<T}" using ok by (simp add: heap_ok_def area_Un)
  then have bound': "area h (set (us @ a # hptr h a # vs)) \<subseteq> {..<2 ^ 36}" using T xs by fastforce
  obtain q xs' where q: "r = q + 16" "freelist B h' xs'" "freep h' \<in> set xs'" "B + 16 \<le> q" "hsize h' q = n" "q \<in> region h (hptr h a)"
    "set xs' \<subseteq> set xs" "area h' (set xs') \<union> region h' q = area h (set xs)" "area h' (set xs') \<inter> region h' q = {}"
    "\<forall>x. x \<notin> {hptr h a, q} \<longrightarrow> hsize h' x = hsize h x"
    using malloc_take_spec [OF _ n a(2) bound' t, of B] fl xs by auto
  have b: "hptr h a \<in> set xs" unfolding xs by simp
  have qA: "x \<noteq> q \<and> x \<noteq> hptr h a" if "x \<in> A" for x
    using heap_ok_sep [OF ok that b] q(6) that ok region_self [of h x] by (auto simp: heap_ok_def)
  have sz1: "hsize h' x = hsize h x" if "x \<in> A" for x using q(10) qA [OF that] by simp
  have sz2: "region h' x = region h x" if "x \<in> A" for x by (rule region_cong [OF sz1 [OF that]])
  have "heap_ok B T h' xs' (insert q A)"
    unfolding heap_ok_def
  proof (intro conjI ballI impI)
    show "area h' (set xs' \<union> insert q A) \<subseteq> {..<T}"
    proof -
      have "area h' (set xs' \<union> insert q A) = area h' (set xs') \<union> region h' q \<union> area h' A" by (auto simp: area_def)
      also have "area h' A = area h A" using sz2 by (simp add: area_def)
      finally show ?thesis using q(8) ok by (simp add: heap_ok_def area_Un)
    qed
    fix x assume x: "x \<in> insert q A"
    show "0 < hsize h' x" "B + 16 \<le> x" using x q(4,5) n ok sz1 by (auto simp: heap_ok_def)
    show "region h' x \<inter> area h' (set xs') = {}"
      using x q(8,9) ok sz2 unfolding heap_ok_def by blast
    fix z assume z: "z \<in> insert q A" "x \<noteq> z"
    show "region h' x \<inter> region h' z = {}"
      using x z q(8) ok sz2 unfolding heap_ok_def by (metis Int_commute disjoint_iff insert_iff Un_iff)
  qed (use q(2,3) in auto)
  then show ?thesis using a(3) t q(1,5) qA sz1 by auto
qed

section \<open>More memory\<close>

text \<open>
  What \<open>sbrk\<close> documents for a positive argument: it moves the end \<open>brk\<close> of the memory of the process and returns the
  old end, or fails and changes nothing.  No process has more than \<open>2 ^ 36\<close> bytes.
\<close>

definition sbrk_ok :: "'w sbrk \<Rightarrow> ('w \<Rightarrow> nat) \<Rightarrow> bool" where
  "sbrk_ok sbrk brk \<longleftrightarrow> (\<forall>n w. 0 < n \<longrightarrow> (case sbrk n w of (p, w') \<Rightarrow>
     (p = 2 ^ 64 - 1 \<and> brk w' = brk w) \<or> (p = brk w \<and> brk w' = brk w + nat n \<and> brk w' \<le> 2 ^ 36)))"

lemma sbrk_okD:
  "sbrk_ok sbrk brk \<Longrightarrow> 0 < n \<Longrightarrow> sbrk n w = (p, w') \<Longrightarrow>
   (p = 2 ^ 64 - 1 \<and> brk w' = brk w) \<or> (p = brk w \<and> brk w' = brk w + nat n \<and> brk w' \<le> 2 ^ 36)"
  unfolding sbrk_ok_def by (drule spec [of _ n], drule spec [of _ w]) simp

lemma sint_of_nat_32: "sint (of_nat n :: 32 word) = signed_take_bit 31 (int n)"
  using sint_sbintrunc' [of "int n", where 'a = 32] by (simp add: signed_take_bit_eq)

lemma as_int_small: "n < 2 ^ 31 \<Longrightarrow> as_int n = int n"
proof -
  assume "n < 2 ^ 31"
  then have "signed_take_bit 31 (int n) = int n" by (intro signed_take_bit_int_eq_self) auto
  then show ?thesis by (simp add: as_int_def sint_of_nat_32)
qed

text \<open>A request of half the range of \<open>int\<close> or more is negative.\<close>

lemma as_int_large: "2 ^ 31 \<le> n \<Longrightarrow> n < 2 ^ 32 \<Longrightarrow> as_int n < 0"
proof -
  assume n: "2 ^ 31 \<le> n" "n < 2 ^ 32"
  define z where "z = int n - 2147483648"
  have "(z + 4294967296) mod 4294967296 = z" unfolding mod_add_self2 using n by (intro mod_pos_pos_trivial) (auto simp: z_def)
  then have "(int n + 2147483648) mod 4294967296 = int n - 2147483648" by (simp add: z_def add.commute)
  then have "signed_take_bit 31 (int n) = int n - 2 ^ 32" by (simp add: signed_take_bit_eq_take_bit_shift take_bit_eq_mod)
  then show ?thesis using n by (simp add: as_int_def sint_of_nat_32)
qed

lemma freelist_cong:
  assumes "freelist B h xs" and "hptr h' = hptr h" and "\<And>x. x \<in> set xs \<Longrightarrow> hsize h' x = hsize h x"
  shows "freelist B h' xs"
proof -
  have s: "sorted_wrt (\<lambda>x y. x + 16 * hsize h' x \<le> y) zs" if "sorted_wrt (\<lambda>x y. x + 16 * hsize h x \<le> y) zs" "set zs \<subseteq> set xs" for zs
    using that by (induction zs) (auto simp: assms(3))
  obtain rest where r: "xs = B # rest" "sorted_wrt (\<lambda>x y. x + 16 * hsize h x \<le> y) rest" "\<forall>x \<in> set rest. 0 < hsize h x \<and> B + 16 \<le> x"
    "cyc (hptr h) xs" "hsize h B = 0" using assms(1) by (auto simp: freelist_def)
  then show ?thesis unfolding freelist_def using s [OF r(2)] assms(2,3) by auto
qed

lemma heap_ok_below:
  assumes "heap_ok B T h xs A" and "B < T" and "x \<in> set xs \<union> A"
  shows "x < T"
proof (cases "x = B")
  case False
  then have "0 < hsize h x" using assms(1,3) freelistD(4) [of B h xs x] by (auto simp: heap_ok_def)
  then have "x \<in> region h x" by (rule region_self)
  then show ?thesis using assms(1,3) by (auto simp: heap_ok_def area_def)
qed (use assms(2) in simp)

lemma morecore_spec:
  assumes ok: "heap_ok B (brk w) h xs A" and B: "0 < B" "B + 16 \<le> brk w" and sb: "sbrk_ok sbrk brk" and n: "n < 2 ^ 27"
  shows "\<exists>p h' w'. morecore sbrk n (h, w) = Some (p, h', w') \<and>
    (p = 0 \<and> h' = h \<and> brk w' = brk w \<or>
     p = freep h' \<and> p \<noteq> 0 \<and> brk w \<le> brk w' \<and> brk w' \<le> 2 ^ 36 \<and> (\<forall>b \<in> A. hsize h' b = hsize h b) \<and>
       (\<exists>xs'. heap_ok B (brk w') h' xs' A \<and> (\<exists>y \<in> set xs'. n \<le> hsize h' y)))"
proof -
  define nu where "nu = (if n < 4096 then 4096 else n)"
  have nu: "0 < nu" "n \<le> nu" "nu < 2 ^ 27" using n by (auto simp: nu_def)
  then have ai: "as_int (nu * 16) = int (nu * 16)" by (intro as_int_small) simp
  obtain p w' where s: "sbrk (as_int (nu * 16)) w = (p, w')" by fastforce
  have pos: "0 < as_int (nu * 16)" using ai nu(1) by simp
  have c: "(p = 2 ^ 64 - 1 \<and> brk w' = brk w) \<or> (p = brk w \<and> brk w' = brk w + nu * 16 \<and> brk w' \<le> 2 ^ 36)"
    using sbrk_okD [OF sb pos s] unfolding ai nat_int .
  show ?thesis
  proof (cases "p = 2 ^ 64 - 1")
    case True
    then have "brk w' = brk w" using c by auto
    then show ?thesis using True s by (simp add: morecore_def nu_def Let_def)
  next
    case False
    then have p: "p = brk w" "brk w' = brk w + nu * 16" "brk w' \<le> 2 ^ 36" using c by auto
    define h0 where "h0 = set_size p nu h"
    have h0: "hsize h0 p = nu" "hptr h0 = hptr h" "freep h0 = freep h" using nu(3) by (simp_all add: h0_def)
    have fl: "freelist B h xs" and fp: "freep h \<in> set xs" using ok by (simp_all add: heap_ok_def)
    have lt: "x < p" if "x \<in> set xs \<union> A" for x using heap_ok_below [OF ok _ that] B(2) p(1) by simp
    have same: "hsize h0 x = hsize h x" "region h0 x = region h x" if "x \<in> set xs \<union> A" for x
      using lt [OF that] by (auto simp: h0_def intro!: region_cong)
    have fl0: "freelist B h0 xs" by (rule freelist_cong [OF fl h0(2)]) (use same in blast)
    have area0: "area h0 (set xs) = area h (set xs)" using same(2) by (simp add: area_def)
    have below: "area h (set xs) \<subseteq> {..<p}" "area h A \<subseteq> {..<p}" using ok p(1) by (auto simp: heap_ok_def area_Un)
    have rp: "region h0 p = {p..<brk w'}" using h0(1) p by (simp add: region_def mult.commute)
    have "\<exists>h' xs'. free (p + 16) h0 = Some h' \<and> freelist B h' xs' \<and> freep h' \<in> set xs' \<and>
        area h' (set xs') = area h0 (set xs) \<union> region h0 p \<and> set xs' \<subseteq> insert p (set xs) \<and>
        (\<forall>a. a \<notin> insert p (set xs) \<longrightarrow> hsize h' a = hsize h0 a) \<and> (\<exists>y \<in> set xs'. hsize h0 p \<le> hsize h' y)"
    proof (rule free_spec [OF fl0])
      show "area h0 (set xs) \<union> region h0 p \<subseteq> {..<2 ^ 36}" unfolding area0 rp
      proof (rule Un_least)
        have "p \<le> 2 ^ 36" using p by linarith
        then have "{..<p} \<subseteq> {..<2 ^ 36}" by (simp only: lessThan_subset_iff)
        then show "area h (set xs) \<subseteq> {..<2 ^ 36}" by (rule subset_trans [OF below(1)])
        show "{p..<brk w'} \<subseteq> {..<2 ^ 36}" using p(3) by (meson atLeastLessThan_iff lessThan_iff less_le_trans subsetI)
      qed
      show "region h0 p \<inter> area h0 (set xs) = {}" unfolding area0 rp using below(1) by auto
    qed (use h0 fp B p(1) nu(1) in auto)
    then obtain h' xs' where h': "free (p + 16) h0 = Some h'" "freelist B h' xs'" "freep h' \<in> set xs'"
      "area h' (set xs') = area h (set xs) \<union> {p..<brk w'}" "\<forall>a. a \<notin> insert p (set xs) \<longrightarrow> hsize h' a = hsize h0 a" "\<exists>y \<in> set xs'. nu \<le> hsize h' y"
      unfolding area0 rp h0(1) by blast
    have keep: "hsize h' a = hsize h a" if "a \<in> A" for a
    proof -
      have "a \<notin> insert p (set xs)" using heap_ok_sep [OF ok that, of a] lt [of a] that by auto
      then have "hsize h' a = hsize h0 a" using h'(5) by blast
      then show ?thesis using same(1) [of a] that by simp
    qed
    have rk: "region h' a = region h a" if "a \<in> A" for a by (rule region_cong [OF keep [OF that]])
    have "heap_ok B (brk w') h' xs' A"
      unfolding heap_ok_def
    proof (intro conjI ballI impI)
      have "area h' A = area h A" using rk by (simp add: area_def)
      moreover have "{..<p} \<subseteq> {..<brk w'}" "{p..<brk w'} \<subseteq> {..<brk w'}" using p(1,2) by auto
      ultimately show "area h' (set xs' \<union> A) \<subseteq> {..<brk w'}" unfolding area_Un h'(4) using below
        by (metis Un_least subset_trans)
      fix a assume a: "a \<in> A"
      show "0 < hsize h' a" "B + 16 \<le> a" using a ok keep by (auto simp: heap_ok_def)
      have "region h a \<subseteq> {..<p}" using below(2) a by (auto simp: area_def)
      then show "region h' a \<inter> area h' (set xs') = {}" unfolding rk [OF a] h'(4) using a ok by (fastforce simp: heap_ok_def)
      fix b assume b: "b \<in> A" "a \<noteq> b"
      then show "region h' a \<inter> region h' b = {}" using a rk ok by (simp add: heap_ok_def)
    qed (use h'(2,3) in auto)
    moreover have "freep h' \<noteq> 0"
      using h'(2,3) freelistD(4) [of B h' xs' "freep h'"] B(1) by fastforce
    moreover have "morecore sbrk n (h, w) = Some (freep h', h', w')"
      using s False h'(1) by (simp add: morecore_def nu_def [symmetric] h0_def)
    moreover have "\<exists>y \<in> set xs'. n \<le> hsize h' y" using h'(6) nu(2) by force
    ultimately show ?thesis using p keep by (intro exI [of _ "freep h'"] exI [of _ h'] exI [of _ w']) auto
  qed
qed

lemma malloc_loop_spec:
  assumes ok: "heap_ok B (brk w) h xs A" and T: "brk w \<le> 2 ^ 36" and B: "0 < B" "B + 16 \<le> brk w" and sb: "sbrk_ok sbrk brk"
    and n: "0 < n" "n < 2 ^ 27"
  shows "\<exists>r h' w'. malloc_loop sbrk n (freep h) (hptr h (freep h)) h w = Some (r, h', w') \<and> brk w \<le> brk w' \<and> brk w' \<le> 2 ^ 36 \<and>
    (\<forall>b \<in> A. hsize h' b = hsize h b) \<and>
    (r = 0 \<and> brk w' = brk w \<and> heap_ok B (brk w) h' xs A \<or>
     (\<exists>q xs'. r = q + 16 \<and> q \<notin> A \<and> hsize h' q = n \<and> heap_ok B (brk w') h' xs' (insert q A)))"
proof (cases "\<exists>y \<in> set xs. n \<le> hsize h y")
  case True
  obtain q h' xs' where q: "malloc_loop sbrk n (freep h) (hptr h (freep h)) h w = Some (q + 16, h', w)" "q \<notin> A" "hsize h' q = n"
    "heap_ok B (brk w) h' xs' (insert q A)" "\<forall>b \<in> A. hsize h' b = hsize h b"
    using malloc_found [OF ok T n(1) True, of sbrk w] by (elim exE conjE) (rule that)
  show ?thesis using q T by (intro exI [of _ "q + 16"] exI [of _ h'] exI [of _ w]) auto
next
  case False
  have fl: "freelist B h xs" and fp: "freep h \<in> set xs" using ok by (simp_all add: heap_ok_def)
  obtain ys where ys: "chain (hptr h) (freep h) ys (freep h)" "freep h \<notin> set ys" "set xs = insert (freep h) (set ys)"
    using freelist_around [OF fl fp] .
  have "\<forall>y \<in> insert (freep h) (set ys). hsize h y < n" using False ys(3) by (simp add: not_le)
  note loop = malloc_scan_none [OF ys(1,2) this, of sbrk w]
  obtain p h1 w1 where m: "morecore sbrk n (h, w) = Some (p, h1, w1)" and
    c: "p = 0 \<and> h1 = h \<and> brk w1 = brk w \<or>
     p = freep h1 \<and> p \<noteq> 0 \<and> brk w \<le> brk w1 \<and> brk w1 \<le> 2 ^ 36 \<and> (\<forall>b \<in> A. hsize h1 b = hsize h b) \<and>
       (\<exists>xs'. heap_ok B (brk w1) h1 xs' A \<and> (\<exists>y \<in> set xs'. n \<le> hsize h1 y))"
    using morecore_spec [OF ok B sb n(2)] by (elim exE conjE) (rule that)
  show ?thesis
  proof (cases "p = 0")
    case True
    then show ?thesis using c m loop ok T by (intro exI [of _ 0] exI [of _ h1] exI [of _ w1]) simp
  next
    case False
    then obtain xs1 where x: "p = freep h1" "brk w \<le> brk w1" "brk w1 \<le> 2 ^ 36" "\<forall>b \<in> A. hsize h1 b = hsize h b"
      "heap_ok B (brk w1) h1 xs1 A" "\<exists>y \<in> set xs1. n \<le> hsize h1 y" using c by blast
    obtain q h' xs' where q: "malloc_loop sbrk n (freep h1) (hptr h1 (freep h1)) h1 w1 = Some (q + 16, h', w1)" "q \<notin> A" "hsize h' q = n"
      "heap_ok B (brk w1) h' xs' (insert q A)" "\<forall>b \<in> A. hsize h' b = hsize h1 b"
      using malloc_found [OF x(5,3) n(1) x(6), of sbrk w1] by (elim exE conjE) (rule that)
    have "malloc_loop sbrk n (freep h) (hptr h (freep h)) h w = Some (q + 16, h', w1)"
      using loop m q(1) False unfolding x(1) by simp
    then show ?thesis using q(2-5) x(2-4) by (intro exI [of _ "q + 16"] exI [of _ h'] exI [of _ w1]) auto
  qed
qed

lemma heap_ok_free:
  assumes ok: "heap_ok B T h xs A" and T: "T \<le> 2 ^ 36" and a: "a \<in> A"
  shows "\<exists>h' xs'. free (a + 16) h = Some h' \<and> heap_ok B T h' xs' (A - {a}) \<and> (\<forall>b \<in> A - {a}. hsize h' b = hsize h b)"
proof -
  have fl: "freelist B h xs" and fp: "freep h \<in> set xs" and sz: "B + 16 \<le> a" "0 < hsize h a"
    and dj: "region h a \<inter> area h (set xs) = {}" and bound: "area h (set xs \<union> A) \<subseteq> {..<T}"
    using ok a by (simp_all add: heap_ok_def)
  have bd: "area h (set xs) \<union> region h a \<subseteq> {..<T}" using bound a by (auto simp: area_def)
  have "{..<T} \<subseteq> {..<2 ^ 36}" using T by (simp only: lessThan_subset_iff)
  from subset_trans [OF bd this] obtain h' xs' where h': "free (a + 16) h = Some h'" "freelist B h' xs'" "freep h' \<in> set xs'"
      "area h' (set xs') = area h (set xs) \<union> region h a" "\<forall>x. x \<notin> insert a (set xs) \<longrightarrow> hsize h' x = hsize h x"
    using free_spec [OF fl fp sz dj] by blast
  have keep: "hsize h' b = hsize h b" if "b \<in> A - {a}" for b
  proof -
    have "b \<notin> insert a (set xs)" using heap_ok_sep [OF ok, of b b] that by auto
    then show ?thesis using h'(5) by blast
  qed
  have rk: "region h' b = region h b" if "b \<in> A - {a}" for b by (rule region_cong [OF keep [OF that]])
  have "heap_ok B T h' xs' (A - {a})"
    unfolding heap_ok_def
  proof (intro conjI ballI impI)
    have "area h' (A - {a}) = area h (A - {a})" using rk by (simp add: area_def)
    then show "area h' (set xs' \<union> (A - {a})) \<subseteq> {..<T}" unfolding area_Un h'(4) using bd bound by (auto simp: area_def)
    fix b assume b: "b \<in> A - {a}"
    show "0 < hsize h' b" "B + 16 \<le> b" using b ok keep by (auto simp: heap_ok_def)
    show "region h' b \<inter> area h' (set xs') = {}" unfolding rk [OF b] h'(4) Int_Un_distrib
      using b a ok by (simp add: heap_ok_def)
    fix c assume c: "c \<in> A - {a}" "b \<noteq> c"
    then show "region h' b \<inter> region h' c = {}" using b rk ok by (simp add: heap_ok_def)
  qed (use h'(2,3) in auto)
  then show ?thesis using h'(1) keep by blast
qed

section \<open>The contract\<close>

text \<open>
  The invariant with the end \<open>T\<close> of the process's memory and the headers \<open>A\<close> of the blocks its program holds: before
  the first call \<open>freep\<close> is 0; later the free list and the blocks of \<open>A\<close> are disjoint parts of the memory below \<open>T\<close>.
\<close>

definition heap_inv :: "nat \<Rightarrow> nat \<Rightarrow> heap \<Rightarrow> nat set \<Rightarrow> bool" where
  "heap_inv B T h A \<longleftrightarrow> 0 < B \<and> B + 16 \<le> T \<and> T \<le> 2 ^ 36 \<and> (freep h = 0 \<and> A = {} \<or> (\<exists>xs. heap_ok B T h xs A))"

lemma heap_ok_freep: "heap_ok B T h xs A \<Longrightarrow> 0 < B \<Longrightarrow> freep h \<noteq> 0"
  using freelistD(4) [of B h xs "freep h"] by (fastforce simp: heap_ok_def)

lemma heap_ok_first:
  "heap_ok B T (h\<lparr>hptr := (hptr h)(B := B), hsize := (hsize h)(B := 0), freep := B\<rparr>) [B] {}"
  by (simp add: heap_ok_def freelist_def cyc_def area_def region_def)

text \<open>The first call of \<open>malloc\<close> makes the list of \<open>base\<close> alone.\<close>

lemma malloc_started:
  assumes "heap_inv B (brk w) h A"
  obtains h0 xs where "heap_ok B (brk w) h0 xs A" and "\<forall>b \<in> A. hsize h0 b = hsize h b"
    and "malloc B sbrk nbytes h w = malloc_loop sbrk (((nbytes + 16 - 1) div 16 + 1) mod 2 ^ 32) (freep h0) (hptr h0 (freep h0)) h0 w"
proof (cases "freep h = 0")
  case True
  then have "A = {}" using assms by (auto simp: heap_inv_def dest: heap_ok_freep)
  then show thesis using that [OF heap_ok_first [of B "brk w" h, folded \<open>A = {}\<close>]] True by (simp add: malloc_def)
next
  case False
  then obtain xs where "heap_ok B (brk w) h xs A" using assms by (auto simp: heap_inv_def)
  then show thesis using that [of h xs] False by (simp add: malloc_def)
qed

lemma nunits_bounds:
  assumes "nbytes \<le> 2 ^ 31 - 32"
  shows "0 < ((nbytes + 16 - 1) div 16 + 1) mod 2 ^ 32" and "((nbytes + 16 - 1) div 16 + 1) mod 2 ^ 32 < 2 ^ 27"
    and "nbytes + 16 \<le> 16 * (((nbytes + 16 - 1) div 16 + 1) mod (2 ^ 32 :: nat))"
proof -
  define d where "d = (nbytes + 15) div 16"
  have "16 * d \<le> nbytes + 15" "nbytes \<le> 16 * d" unfolding d_def by linarith+
  then have d: "d + 1 < 134217728" "nbytes + 16 \<le> 16 * (d + 1)" using assms by simp_all
  then have "((nbytes + 16 - 1) div 16 + 1) mod 2 ^ 32 = d + 1" by (simp add: d_def)
  then show "0 < ((nbytes + 16 - 1) div 16 + 1) mod 2 ^ 32" "((nbytes + 16 - 1) div 16 + 1) mod 2 ^ 32 < 2 ^ 27"
    "nbytes + 16 \<le> 16 * (((nbytes + 16 - 1) div 16 + 1) mod (2 ^ 32 :: nat))" using d by simp_all
qed

lemma malloc_spec:
  assumes inv: "heap_inv B (brk w) h A" and sb: "sbrk_ok sbrk brk" and n: "nbytes \<le> 2 ^ 31 - 32"
  shows "\<exists>r h' w'. malloc B sbrk nbytes h w = Some (r, h', w') \<and> (\<forall>b \<in> A. hsize h' b = hsize h b) \<and>
    (r = 0 \<and> brk w' = brk w \<and> heap_inv B (brk w') h' A \<or>
     (\<exists>q. r = q + 16 \<and> q \<notin> A \<and> nbytes + 16 \<le> 16 * hsize h' q \<and> heap_inv B (brk w') h' (insert q A)))"
proof -
  let ?n = "((nbytes + 16 - 1) div 16 + 1) mod 2 ^ 32 :: nat"
  obtain h0 xs where h0: "heap_ok B (brk w) h0 xs A" "\<forall>b \<in> A. hsize h0 b = hsize h b"
    "malloc B sbrk nbytes h w = malloc_loop sbrk ?n (freep h0) (hptr h0 (freep h0)) h0 w"
    using malloc_started [where sbrk = sbrk and nbytes = nbytes and brk = brk and w = w, OF inv] .
  have B: "brk w \<le> 2 ^ 36" "0 < B" "B + 16 \<le> brk w" using inv by (simp_all add: heap_inv_def)
  obtain r h' w' where m: "malloc_loop sbrk ?n (freep h0) (hptr h0 (freep h0)) h0 w = Some (r, h', w')"
    "brk w \<le> brk w'" "brk w' \<le> 2 ^ 36" "\<forall>b \<in> A. hsize h' b = hsize h0 b" and
    c: "r = 0 \<and> brk w' = brk w \<and> heap_ok B (brk w) h' xs A \<or>
     (\<exists>q xs'. r = q + 16 \<and> q \<notin> A \<and> hsize h' q = ?n \<and> heap_ok B (brk w') h' xs' (insert q A))"
    using malloc_loop_spec [where brk = brk and w = w, OF h0(1) B sb nunits_bounds(1,2) [OF n]] by (elim exE conjE) (rule that)
  have keep: "\<forall>b \<in> A. hsize h' b = hsize h b" using m(4) h0(2) by simp
  have B': "B + 16 \<le> brk w'" using B(3) m(2) by linarith
  from c have "r = 0 \<and> brk w' = brk w \<and> heap_inv B (brk w') h' A \<or>
     (\<exists>q. r = q + 16 \<and> q \<notin> A \<and> nbytes + 16 \<le> 16 * hsize h' q \<and> heap_inv B (brk w') h' (insert q A))"
  proof
    assume "r = 0 \<and> brk w' = brk w \<and> heap_ok B (brk w) h' xs A"
    then show ?thesis using B by (auto simp: heap_inv_def)
  next
    assume "\<exists>q xs'. r = q + 16 \<and> q \<notin> A \<and> hsize h' q = ?n \<and> heap_ok B (brk w') h' xs' (insert q A)"
    then obtain q xs' where q: "r = q + 16" "q \<notin> A" "hsize h' q = ?n" "heap_ok B (brk w') h' xs' (insert q A)"
      by (elim exE conjE) (rule that)
    have "heap_inv B (brk w') h' (insert q A)" using q(4) B(2) B' m(3) by (auto simp: heap_inv_def)
    then show ?thesis using q(1-3) nunits_bounds(3) [OF n] by auto
  qed
  then show ?thesis using h0(3) m(1) keep by auto
qed

text \<open>C31. The allocator is safe and its searches end.  Under the contract of \<open>sbrk\<close>, in any state of the invariant:
  \<open>malloc\<close> returns for every request of at most \<open>2^31 - 32\<close> bytes; it returns 0 with the blocks as they were,
  or a block with a header outside the blocks held, of at least the requested size, and the invariant says that it overlaps
  none of them nor the free list; \<open>free\<close> of a block held returns and the rest keeps the invariant; and no call changes the
  size of another block held.\<close>

theorem malloc_free_safe:
  assumes "heap_inv B (brk w) h A" and "sbrk_ok sbrk brk" and "nbytes \<le> 2 ^ 31 - 32"
  shows "(\<exists>r h' w'. malloc B sbrk nbytes h w = Some (r, h', w') \<and> (\<forall>b \<in> A. hsize h' b = hsize h b) \<and>
      (r = 0 \<and> brk w' = brk w \<and> heap_inv B (brk w') h' A \<or>
       (\<exists>q. r = q + 16 \<and> q \<notin> A \<and> nbytes + 16 \<le> 16 * hsize h' q \<and> heap_inv B (brk w') h' (insert q A)))) \<and>
    (\<forall>a \<in> A. \<exists>h'. free (a + 16) h = Some h' \<and> heap_inv B (brk w) h' (A - {a}) \<and> (\<forall>b \<in> A - {a}. hsize h' b = hsize h b))"
proof (intro conjI ballI)
  fix a assume a: "a \<in> A"
  then obtain xs where "heap_ok B (brk w) h xs A" "brk w \<le> 2 ^ 36" using assms(1) by (auto simp: heap_inv_def)
  from heap_ok_free [OF this a] show "\<exists>h'. free (a + 16) h = Some h' \<and> heap_inv B (brk w) h' (A - {a}) \<and> (\<forall>b \<in> A - {a}. hsize h' b = hsize h b)"
    using assms(1) by (auto simp: heap_inv_def)
qed (rule malloc_spec [where brk = brk and w = w, OF assms])

text \<open>A process whose memory ends at \<open>w\<close> and may grow up to \<open>2 ^ 20\<close>.\<close>

definition demo_sbrk :: "nat sbrk" where
  "demo_sbrk n w = (if int w + n \<le> 2 ^ 20 then (w, nat (int w + n)) else (2 ^ 64 - 1, w))"

definition demo_heap :: heap where
  "demo_heap = \<lparr>hptr = \<lambda>_. 0, hsize = \<lambda>_. 0, freep = 0\<rparr>"

lemma demo_sbrk_ok: "sbrk_ok demo_sbrk (\<lambda>w. w)"
  by (auto simp: sbrk_ok_def demo_sbrk_def nat_add_distrib)

theorem malloc_free_safe_witness:
  "\<exists>r h' w'. malloc 0x2000 demo_sbrk 100 demo_heap 0x4000 = Some (r, h', w') \<and>
      (r = 0 \<and> w' = 0x4000 \<or> (\<exists>q. r = q + 16 \<and> 116 \<le> 16 * hsize h' q \<and> heap_inv 0x2000 w' h' {q}))"
proof -
  have "heap_inv 0x2000 0x4000 demo_heap {}" by (simp add: heap_inv_def demo_heap_def)
  from malloc_free_safe [where brk = "\<lambda>w. w" and nbytes = 100, OF this demo_sbrk_ok] show ?thesis by auto
qed

end
