(* ===== verification/Shround.thy ===== *)
theory Shround
  imports Shparse
begin

text \<open>
  A printer for commands in the syntax of the shell, with the parentheses that the grammar needs, and the proof that
  the parser reads back what it prints.
\<close>

section \<open>The printer\<close>

text \<open>The levels are those of the parsers: 0 a line, 1 a part of a list, 2 a pipeline, 3 a program or a block.\<close>

definition pr_words :: "u8 list list \<Rightarrow> u8 list" where
  "pr_words ws = concat (map (\<lambda>w. w @ [32]) ws)"

definition pr_redir :: "u8 list \<times> nat \<times> nat \<Rightarrow> u8 list" where
  "pr_redir r = (case r of (f, m, fd) \<Rightarrow> (if m = 0 then [60] else if m = 0x601 then [62] else [62, 62]) @ f @ [32])"

definition paren :: "bool \<Rightarrow> u8 list \<Rightarrow> u8 list" where
  "paren b x = (if b then [40] @ x @ [41] else x)"

primrec pr :: "u8 list cmd \<Rightarrow> nat \<Rightarrow> u8 list" where
  "pr (EXEC ws) l = pr_words ws"
| "pr (REDIR c f m fd) l = pr c 3 @ pr_redir (f, m, fd)"
| "pr (PIPE c d) l = paren (2 < l) (pr c 3 @ [124] @ pr d 2)"
| "pr (LIST c d) l = paren (0 < l) (pr c 1 @ [59] @ pr d 0)"
| "pr (BACK c) l = paren (1 < l) (pr c 1 @ [38])"

text \<open>The commands that can be written: words without blanks, symbols and NUL, and the limits of the shell.\<close>

definition word_ok :: "u8 list \<Rightarrow> bool" where
  "word_ok w \<longleftrightarrow> w \<noteq> [] \<and> (\<forall>c \<in> set w. wordch c \<and> c \<noteq> 0)"

fun writable :: "u8 list cmd \<Rightarrow> bool" where
  "writable (EXEC ws) \<longleftrightarrow> length ws < 10 \<and> (\<forall>w \<in> set ws. word_ok w)"
| "writable (REDIR c f m fd) \<longleftrightarrow> writable c \<and> word_ok f \<and> (m, fd) \<in> {(0, 0), (0x601, 1), (0x201, 1)}"
| "writable (PIPE c d) \<longleftrightarrow> writable c \<and> writable d"
| "writable (LIST c d) \<longleftrightarrow> writable c \<and> writable d"
| "writable (BACK c) \<longleftrightarrow> writable c"

section \<open>Tokens at a place\<close>

definition solid :: "u8 list \<Rightarrow> bool" where
  "solid x \<longleftrightarrow> x = [] \<or> strchr whitespace (hd x) = None"

lemma solid_simps [simp]: "solid []" "solid (c # x) \<longleftrightarrow> strchr whitespace c = None"
  by (simp_all add: solid_def)

lemma wordch_word: "word_ok w \<Longrightarrow> w \<noteq> [] \<and> wordch (hd w) \<and> hd w \<noteq> 0 \<and> strchr whitespace (hd w) = None"
  by (cases w) (auto simp: word_ok_def wordch_def)

lemma skip_ws_solid: "solid (drop p s) \<Longrightarrow> skip_ws s p = p"
  by (cases "drop p s") (auto simp: skip_ws_def)

lemma sch_drop: "sch s p = (case drop p s of [] \<Rightarrow> 0 | c # _ \<Rightarrow> c)"
proof (cases "p < length s")
  case True
  then show ?thesis by (simp add: sch_def Cons_nth_drop_Suc [symmetric])
qed (simp add: sch_def)

lemma peek_at: "drop p s = x \<Longrightarrow> solid x \<Longrightarrow> peek s p ts = (x \<noteq> [] \<and> hd x \<noteq> 0 \<and> strchr ts (hd x) \<noteq> None, p)"
  by (cases x) (auto simp: peek_def skip_ws_solid sch_drop)

lemma drop_add: "drop p s = xs @ k \<Longrightarrow> drop (p + length xs) s = k"
  by (metis add.commute append_eq_conv_conj drop_drop)

lemma gettoken_end: "drop p s = [] \<Longrightarrow> gettoken s p = (0, p, p, p)"
  by (simp add: gettoken_def skip_ws_solid sch_drop)

lemma gettoken_sym:
  assumes "drop p s = c # k" and "c \<in> {124, 40, 41, 59, 38, 60}" and "solid k"
  shows "gettoken s p = (c, p, p + 1, p + 1)"
proof -
  have "skip_ws s p = p" using assms(1,2) by (intro skip_ws_solid) (auto simp: whitespace_def)
  moreover have "skip_ws s (p + 1) = p + 1" using assms(1,3) drop_add [of p s "[c]" k] by (intro skip_ws_solid) simp
  ultimately show ?thesis using assms(1,2) by (auto simp: gettoken_def sch_drop bytes_def)
qed

lemma gettoken_gt:
  assumes "drop p s = 62 # k" and "word_ok w" and "k = w @ k'"
  shows "gettoken s p = (62, p, p + 1, p + 1)"
proof -
  have w: "hd k = hd w" "k \<noteq> []" "wordch (hd w)" "strchr whitespace (hd w) = None" using wordch_word [OF assms(2)] assms(3) by auto
  have d: "drop (p + 1) s = k" using assms(1) drop_add [of p s "[62]" k] by simp
  have "skip_ws s p = p" using assms(1) by (intro skip_ws_solid) (simp add: whitespace_def)
  moreover have "skip_ws s (p + 1) = p + 1" using d w by (intro skip_ws_solid) (cases k; simp)
  moreover have "hd w \<noteq> 62" using w(3) by (auto simp: wordch_def symbols_def bytes_def)
  ultimately show ?thesis using assms(1) d w by (cases k) (auto simp: gettoken_def sch_drop bytes_def)
qed

lemma gettoken_gtgt:
  assumes "drop p s = 62 # 62 # k" and "solid k"
  shows "gettoken s p = (43, p, p + 2, p + 2)"
proof -
  have d: "drop (p + 1) s = 62 # k" "drop (p + 2) s = k"
    using drop_add [of p s "[62]" "62 # k"] drop_add [of p s "[62, 62]" k] assms(1) by simp_all
  have "skip_ws s p = p" using assms(1) by (intro skip_ws_solid) (simp add: whitespace_def)
  moreover have "skip_ws s (p + 2) = p + 2" using d(2) assms(2) by (intro skip_ws_solid) simp
  ultimately show ?thesis using assms(1) d by (auto simp: gettoken_def sch_drop bytes_def)
qed

lemma gettoken_text:
  assumes d: "drop p s = w @ 32 # k" and w: "word_ok w" and k: "solid k"
  shows "gettoken s p = (97, p, p + length w, p + length w + 1)" and "tok_text s (p, p + length w) = w"
proof -
  obtain c w' where cw: "w = c # w'" using wordch_word [OF w] by (cases w) auto
  have c: "c \<noteq> 0" "wordch c" "strchr whitespace c = None" using wordch_word [OF w] cw by auto
  then have c': "strchr (bytes ''|();&<'') c = None" "c \<noteq> 62"
    by (auto simp: wordch_def symbols_def bytes_def split: if_splits)
  have q: "skip_ws s p = p" using d cw c by (intro skip_ws_solid) simp
  have "\<not> wordch 32" by (simp add: wordch_def whitespace_def)
  then have t: "takeWhile wordch (drop p s) = w" unfolding d using w by (subst takeWhile_append2) (auto simp: word_ok_def)
  have d1: "drop (p + length w) s = 32 # k" by (rule drop_add [OF d])
  have d2: "drop (p + length w + 1) s = k" using drop_add [of "p + length w" s "[32]" k] d1 by simp
  have ws: "strchr whitespace 32 \<noteq> None" by (simp add: whitespace_def)
  have "takeWhile (\<lambda>c. strchr whitespace c \<noteq> None) k = []" using k by (cases k) auto
  then have e: "skip_ws s (p + length w) = p + length w + 1" using ws by (simp add: skip_ws_def d1)
  show "gettoken s p = (97, p, p + length w, p + length w + 1)"
    using c c' t e unfolding gettoken_def q Let_def by (simp add: sch_drop d cw)
  show "tok_text s (p, p + length w) = w" by (simp add: tok_text_def d)
qed

section \<open>Reading back\<close>

abbreviation texts :: "u8 list \<Rightarrow> tok cmd \<Rightarrow> u8 list cmd" where
  "texts s c \<equiv> map_cmd (tok_text s) c"

definition pr_redirs :: "(u8 list \<times> nat \<times> nat) list \<Rightarrow> u8 list" where
  "pr_redirs rs = concat (map pr_redir rs)"

definition wraps :: "('t \<times> nat \<times> nat) list \<Rightarrow> 't cmd \<Rightarrow> 't cmd" where
  "wraps rs c = fold (\<lambda>(f, m, fd) c. REDIR c f m fd) rs c"

fun r_ok :: "u8 list \<times> nat \<times> nat \<Rightarrow> bool" where
  "r_ok (f, m, fd) \<longleftrightarrow> word_ok f \<and> (m, fd) \<in> {(0, 0), (0x601, 1), (0x201, 1)}"

text \<open>What follows a part: the end of the line or one of some symbols.\<close>

definition stop :: "u8 set \<Rightarrow> u8 list \<Rightarrow> bool" where
  "stop C k \<longleftrightarrow> k = [] \<or> hd k \<in> C"

lemma stop_solid: "stop C k \<Longrightarrow> C \<subseteq> {124, 38, 59, 41, 40, 60, 62} \<Longrightarrow> solid k"
  by (cases k) (auto simp: stop_def whitespace_def)

lemma pr_redirs_simps [simp]: "pr_redirs [] = []" "pr_redirs (r # rs) = pr_redir r @ pr_redirs rs"
  by (simp_all add: pr_redirs_def)

lemma wraps_simps [simp]: "wraps [] c = c" "wraps ((f, m, fd) # rs) c = wraps rs (REDIR c f m fd)"
  by (simp_all add: wraps_def)

lemma solid_redirs: "solid k \<Longrightarrow> solid (pr_redirs rs @ k)"
  by (cases rs) (auto simp: pr_redir_def whitespace_def split: prod.splits)

lemma parseredirs_eq:
  assumes "peek s p (bytes ''<>'') = (b, p1)" and "gettoken s p1 = (tok, x, y, p2)" and "gettoken s p2 = (r, q, e, p3)"
  shows "parseredirs s c p = (if \<not> b then Parsed (c, p1) else if r \<noteq> 97 then sh_panic ''missing file for redirection''
      else parseredirs s (redir tok c (q, e)) p3)"
  by (subst parseredirs.simps) (simp add: assms)

lemma parseredirs_stop: "drop p s = k \<Longrightarrow> solid k \<Longrightarrow> k = [] \<or> hd k \<notin> {60, 62} \<Longrightarrow> parseredirs s c p = Parsed (c, p)"
  by (subst parseredirs.simps) (auto simp: peek_at bytes_def split: if_splits)

text \<open>One redirection.\<close>

lemma parseredirs_one:
  assumes d: "drop p s = pr_redir (f, m, fd) @ k" and r: "r_ok (f, m, fd)" and k: "solid k"
  shows "\<exists>t. tok_text s t = f \<and> parseredirs s c p = parseredirs s (REDIR c t m fd) (p + length (pr_redir (f, m, fd)))"
proof -
  have f: "word_ok f" using r by simp
  have sf: "solid (f @ 32 # k)" using wordch_word [OF f] by (cases f) auto
  define op where "op = (if m = 0 then [60] else if m = 0x601 then [62] else [62, 62 :: u8])"
  have dop: "drop p s = op @ f @ 32 # k" using d by (simp add: pr_redir_def op_def)
  note dt = drop_add [OF dop]
  note g = gettoken_text [OF dt f k]
  have "solid (op @ f @ 32 # k)" by (simp add: op_def whitespace_def)
  from peek_at [OF dop this] have pk: "peek s p (bytes ''<>'') = (True, p)" by (auto simp: op_def bytes_def)
  obtain tok x y where tk: "gettoken s p = (tok, x, y, p + length op)" and
    rd: "redir tok c t = REDIR c t m fd" for t
  proof (cases "m = 0")
    case True
    then have "gettoken s p = (60, p, p + 1, p + 1)" using dop sf by (intro gettoken_sym) (auto simp: op_def)
    then show thesis using that [of 60] True r by (simp add: op_def redir_def)
  next
    case False
    show thesis
    proof (cases "m = 0x601")
      case True
      then have "gettoken s p = (62, p, p + 1, p + 1)" using dop False by (intro gettoken_gt [OF _ f]) (auto simp: op_def)
      then show thesis using that [of 62] True r by (simp add: op_def redir_def)
    next
      case neq: False
      then have "gettoken s p = (43, p, p + 2, p + 2)" using dop False sf by (intro gettoken_gtgt) (auto simp: op_def)
      then show thesis using that [of 43] False neq r by (auto simp: op_def redir_def)
    qed
  qed
  have len: "length (pr_redir (f, m, fd)) = length op + length f + 1" by (simp add: pr_redir_def op_def)
  show ?thesis
    using parseredirs_eq [OF pk tk g(1), of c] g(2) rd len by (intro exI [of _ "(p + length op, p + length op + length f)"]) (simp add: add.assoc)
qed

lemma parseredirs_print:
  "drop p s = pr_redirs rs @ k \<Longrightarrow> \<forall>r \<in> set rs. r_ok r \<Longrightarrow> solid k \<Longrightarrow> k = [] \<or> hd k \<notin> {60, 62} \<Longrightarrow>
   \<exists>d. parseredirs s c p = Parsed (d, p + length (pr_redirs rs)) \<and> texts s d = wraps rs (texts s c)"
proof (induction rs arbitrary: c p)
  case Nil
  then show ?case using parseredirs_stop [of p s k c] by simp
next
  case (Cons r rs)
  obtain f m fd where r: "r = (f, m, fd)" by (metis prod_cases3)
  have d: "drop p s = pr_redir (f, m, fd) @ (pr_redirs rs @ k)" using Cons(2) r by simp
  obtain t where t: "tok_text s t = f" "parseredirs s c p = parseredirs s (REDIR c t m fd) (p + length (pr_redir (f, m, fd)))"
    using parseredirs_one [OF d _ solid_redirs [OF Cons(4)], of c] Cons(3) r by auto
  show ?case using Cons(1) [OF drop_add [OF d], of "REDIR c t m fd"] Cons(3-5) t r by (simp add: add.assoc)
qed

text \<open>The arguments of a program, then redirections.\<close>

lemma parseargs_stop:
  assumes "drop p s = k" and "stop {124, 41, 38, 59} k"
  shows "parseargs s c argc p = Parsed (c, p)"
proof (cases k)
  case Nil
  then show ?thesis using assms gettoken_end [of p s] by (subst parseargs.simps) (simp add: peek_at)
next
  case (Cons x k')
  have "peek s p (bytes ''|)&;'') = (True, p)"
    using peek_at [OF assms(1), of "bytes ''|)&;''"] stop_solid [OF assms(2)] assms(2) Cons by (auto simp: stop_def bytes_def)
  then show ?thesis by (subst parseargs.simps) simp
qed

lemma pr_words_simps [simp]: "pr_words [] = []" "pr_words (w # ws) = w @ 32 # pr_words ws"
  by (simp_all add: pr_words_def)

lemma solid_words: "solid k \<Longrightarrow> \<forall>w \<in> set ws. word_ok w \<Longrightarrow> solid (pr_words ws @ k)"
  using wordch_word by (cases ws) (auto simp: solid_def)

lemma parseargs_word:
  assumes d: "drop p s = w @ 32 # k" and w: "word_ok w" and k: "solid k" and a: "argc < 9"
  shows "\<exists>t. tok_text s t = w \<and> parseargs s c argc p =
    bindP (parseredirs s (add_arg t c) (p + length w + 1)) (\<lambda>r. parseargs s (fst r) (argc + 1) (snd r))"
proof -
  obtain x w' where xw: "w = x # w'" using wordch_word [OF w] by (cases w) auto
  have x: "wordch x" "strchr whitespace x = None" using wordch_word [OF w] xw by auto
  then have "strchr (bytes ''|)&;'') x = None" by (auto simp: wordch_def symbols_def bytes_def split: if_splits)
  then have "peek s p (bytes ''|)&;'') = (False, p)" using peek_at [OF d] x xw by simp
  then show ?thesis using gettoken_text [OF d w k] a
    by (intro exI [of _ "(p, p + length w)"]) (subst parseargs.simps, simp)
qed

lemma map_add_arg: "map_cmd g (add_arg t c) = add_arg (g t) (map_cmd g c)"
  by (induction c) auto

lemma parseargs_print:
  "drop p s = pr_words ws @ pr_redirs rs @ k \<Longrightarrow> texts s c = EXEC ts \<Longrightarrow> length ts = argc \<Longrightarrow> argc + length ws < 10 \<Longrightarrow>
   \<forall>w \<in> set ws. word_ok w \<Longrightarrow> \<forall>r \<in> set rs. r_ok r \<Longrightarrow> stop {124, 41, 38, 59} k \<Longrightarrow>
   \<exists>d. bindP (parseredirs s c p) (\<lambda>r. parseargs s (fst r) argc (snd r)) = Parsed (d, p + length (pr_words ws @ pr_redirs rs)) \<and>
     texts s d = wraps rs (EXEC (ts @ ws))"
proof (induction ws arbitrary: c p ts argc)
  case Nil
  have k: "solid k" "k = [] \<or> hd k \<notin> {60, 62}" using stop_solid [OF Nil(7)] Nil(7) by (auto simp: stop_def)
  obtain d where d: "parseredirs s c p = Parsed (d, p + length (pr_redirs rs))" "texts s d = wraps rs (texts s c)"
    using parseredirs_print [of p s rs k c] Nil(1,6) k by auto
  have "drop (p + length (pr_redirs rs)) s = k" using drop_add [of p s "pr_redirs rs" k] Nil(1) by simp
  then show ?case using d parseargs_stop [OF _ Nil(7)] Nil(2) by simp
next
  case (Cons w ws)
  have k: "solid k" using stop_solid [OF Cons(8)] by simp
  have w: "word_ok w" "\<forall>w \<in> set ws. word_ok w" using Cons(6) by simp_all
  define k' where "k' = pr_words ws @ pr_redirs rs @ k"
  have d: "drop p s = w @ 32 # k'" using Cons(2) by (simp add: k'_def)
  have sk: "solid k'" unfolding k'_def using solid_words [OF solid_redirs [OF k] w(2)] .
  obtain x w' where xw: "w = x # w'" using wordch_word [OF w(1)] by (cases w) auto
  have x: "wordch x" "strchr whitespace x = None" using wordch_word [OF w(1)] xw by auto
  then have "x \<notin> {60, 62}" by (auto simp: wordch_def symbols_def bytes_def)
  then have pr: "parseredirs s c p = Parsed (c, p)" using parseredirs_stop [OF d] x xw by simp
  obtain t where t: "tok_text s t = w" "parseargs s c argc p =
      bindP (parseredirs s (add_arg t c) (p + length w + 1)) (\<lambda>r. parseargs s (fst r) (argc + 1) (snd r))"
    using parseargs_word [OF d w(1) sk, of argc c] Cons(5) by auto
  have "drop (p + length w + 1) s = k'" using drop_add [of p s "w @ [32]" k'] d by simp
  moreover have "texts s (add_arg t c) = EXEC (ts @ [w])" using Cons(3) t(1) by (simp add: map_add_arg)
  ultimately show ?case
    using Cons(1) [of "p + length w + 1" "add_arg t c" "ts @ [w]" "argc + 1"] Cons(4,5,7,8) w(2) t(2) pr by (simp add: k'_def add.assoc)
qed

section \<open>The levels of the grammar\<close>

definition reads3 :: "u8 list \<Rightarrow> u8 list cmd \<Rightarrow> bool" where
  "reads3 s t \<longleftrightarrow> (\<forall>p n k rs. drop p s = pr t 3 @ pr_redirs rs @ k \<longrightarrow> p \<le> length s \<longrightarrow> (\<forall>r \<in> set rs. r_ok r) \<longrightarrow>
     stop {124, 41, 38, 59} k \<longrightarrow> 4 * (length s - p) + 2 \<le> n \<longrightarrow>
     (\<exists>c. parseexec n s p = Parsed (c, p + length (pr t 3 @ pr_redirs rs)) \<and> texts s c = wraps rs t))"

definition reads2 :: "u8 list \<Rightarrow> u8 list cmd \<Rightarrow> bool" where
  "reads2 s t \<longleftrightarrow> (\<forall>p n k. drop p s = pr t 2 @ k \<longrightarrow> p \<le> length s \<longrightarrow> stop {41, 38, 59} k \<longrightarrow> 4 * (length s - p) + 3 \<le> n \<longrightarrow>
     (\<exists>c. parsepipe n s p = Parsed (c, p + length (pr t 2)) \<and> texts s c = t))"

definition reads1 :: "u8 list \<Rightarrow> u8 list cmd \<Rightarrow> bool" where
  "reads1 s t \<longleftrightarrow> (\<forall>p n k j. drop p s = pr t 1 @ replicate j 38 @ k \<longrightarrow> p \<le> length s \<longrightarrow> stop {41, 59} k \<longrightarrow> 4 * (length s - p) + 3 \<le> n \<longrightarrow>
     (\<exists>c. bindP (parsepipe n s p) (\<lambda>(c, p). Parsed (parseback s c p)) = Parsed (c, p + length (pr t 1) + j) \<and>
          texts s c = (BACK ^^ j) t))"

definition reads0 :: "u8 list \<Rightarrow> u8 list cmd \<Rightarrow> bool" where
  "reads0 s t \<longleftrightarrow> (\<forall>p n k. drop p s = pr t 0 @ k \<longrightarrow> p \<le> length s \<longrightarrow> stop {41} k \<longrightarrow> 4 * (length s - p) + 4 \<le> n \<longrightarrow>
     (\<exists>c. parseline n s p = Parsed (c, p + length (pr t 0)) \<and> texts s c = t))"

lemma solid_pr: "writable t \<Longrightarrow> solid k \<Longrightarrow> solid (pr t l @ k)"
proof (induction t arbitrary: l k)
  case (EXEC ws)
  then show ?case by (simp add: solid_words)
next
  case (REDIR c f m fd)
  have "solid (pr_redir (f, m, fd) @ k)" using solid_redirs [OF REDIR(3), of "[(f, m, fd)]"] by simp
  then show ?case using REDIR(1) [of _ 3] REDIR(2) by simp
qed (auto simp: paren_def whitespace_def)

text \<open>A symbol that \<open>peek\<close> looks for, and one it does not find.\<close>

lemma peek_sym:
  assumes "drop p s = x # k" and "x \<in> {124, 40, 41, 59, 38}" and "solid k"
  shows "peek s p [x] = (True, p)" and "gettoken s p = (x, p, p + 1, p + 1)" and "drop (p + 1) s = k" and "p + 1 \<le> length s"
proof -
  have x: "solid (x # k)" "x \<noteq> 0" using assms(2) by (auto simp: whitespace_def)
  show "peek s p [x] = (True, p)" using peek_at [OF assms(1) x(1), of "[x]"] x(2) by simp
  show "gettoken s p = (x, p, p + 1, p + 1)" using assms by (intro gettoken_sym) auto
  show "drop (p + 1) s = k" using drop_add [of p s "[x]" k] assms(1) by simp
  have "p < length s" using assms(1) by (metis drop_eq_Nil list.distinct(1) not_le)
  then show "p + 1 \<le> length s" by simp
qed

lemma peek_none: "drop p s = k \<Longrightarrow> solid k \<Longrightarrow> k = [] \<or> hd k \<noteq> x \<Longrightarrow> peek s p [x] = (False, p)"
  by (auto simp: peek_at)

lemma bytes_single: "bytes ''|'' = [124]" "bytes ''('' = [40]" "bytes '')'' = [41]" "bytes '';'' = [59]" "bytes ''&'' = [38]"
  by (simp_all add: bytes_def)

lemma stop_mono: "stop C k \<Longrightarrow> C \<subseteq> D \<Longrightarrow> stop D k"
  by (auto simp: stop_def)

lemma fuelE: assumes "Suc m \<le> n" obtains n' where "n = Suc n'" and "m \<le> n'"
  using assms by (cases n) auto

lemma reads3_exec:
  assumes "writable (EXEC ws)"
  shows "reads3 s (EXEC ws)"
  unfolding reads3_def
proof (intro allI impI)
  fix p n k rs
  assume d: "drop p s = pr (EXEC ws) 3 @ pr_redirs rs @ k" and rs: "\<forall>r \<in> set rs. r_ok r" and k: "stop {124, 41, 38, 59} k"
    and n: "4 * (length s - p) + 2 \<le> n"
  obtain n' where n': "n = Suc n'" using n by (cases n) auto
  have ws: "\<forall>w \<in> set ws. word_ok w" "length ws < 10" using assms by simp_all
  have sk: "solid (pr_words ws @ pr_redirs rs @ k)" using solid_words [OF solid_redirs ws(1)] stop_solid [OF k] by simp
  have "wordch x \<Longrightarrow> x \<noteq> 40" for x by (auto simp: wordch_def symbols_def bytes_def)
  then have "pr_words ws @ pr_redirs rs @ k = [] \<or> hd (pr_words ws @ pr_redirs rs @ k) \<noteq> 40"
    using wordch_word k ws(1) by (cases ws; cases rs) (auto simp: stop_def pr_redir_def split: prod.splits)
  then have pk: "peek s p [40] = (False, p)" using peek_none sk d by simp
  obtain c where "bindP (parseredirs s (EXEC []) p) (\<lambda>r. parseargs s (fst r) 0 (snd r)) = Parsed (c, p + length (pr_words ws @ pr_redirs rs))"
    "texts s c = wraps rs (EXEC ws)"
    using parseargs_print [of p s ws rs k "EXEC []" "[]" 0] d rs k ws by auto
  then show "\<exists>c. parseexec n s p = Parsed (c, p + length (pr (EXEC ws) 3 @ pr_redirs rs)) \<and> texts s c = wraps rs (EXEC ws)"
    using pk by (simp add: n' bytes_single case_prod_beta')
qed

lemma reads3_redir:
  assumes "reads3 s c" and "writable (REDIR c f m fd)"
  shows "reads3 s (REDIR c f m fd)"
  unfolding reads3_def
proof (intro allI impI)
  fix p n k rs
  assume d: "drop p s = pr (REDIR c f m fd) 3 @ pr_redirs rs @ k" and a: "p \<le> length s" "\<forall>r \<in> set rs. r_ok r" "stop {124, 41, 38, 59} k"
    "4 * (length s - p) + 2 \<le> n"
  have "drop p s = pr c 3 @ pr_redirs ((f, m, fd) # rs) @ k" "\<forall>r \<in> set ((f, m, fd) # rs). r_ok r" using d a(2) assms(2) by auto
  then have "\<exists>d. parseexec n s p = Parsed (d, p + length (pr c 3 @ pr_redirs ((f, m, fd) # rs))) \<and> texts s d = wraps ((f, m, fd) # rs) c"
    using assms(1) a unfolding reads3_def by blast
  then show "\<exists>d. parseexec n s p = Parsed (d, p + length (pr (REDIR c f m fd) 3 @ pr_redirs rs)) \<and> texts s d = wraps rs (REDIR c f m fd)"
    by simp
qed

text \<open>A block in parentheses.\<close>

lemma reads3_paren:
  assumes "reads0 s t" and "writable t" and pr: "pr t 3 = 40 # pr t 0 @ [41]"
  shows "reads3 s t"
  unfolding reads3_def
proof (intro allI impI)
  fix p n k rs
  assume d: "drop p s = pr t 3 @ pr_redirs rs @ k" and p: "p \<le> length s" and rs: "\<forall>r \<in> set rs. r_ok r"
    and k: "stop {124, 41, 38, 59} k" and n: "4 * (length s - p) + 2 \<le> n"
  have sk: "solid k" "k = [] \<or> hd k \<notin> {60, 62}" using stop_solid [OF k] k by (auto simp: stop_def)
  define k2 where "k2 = pr_redirs rs @ k"
  have k2: "solid k2" unfolding k2_def using solid_redirs [OF sk(1)] .
  have d0: "drop p s = 40 # (pr t 0 @ 41 # k2)" using d pr by (simp add: k2_def)
  have "solid (41 # k2)" by (simp add: whitespace_def)
  note open40 = peek_sym [OF d0 _ solid_pr [OF assms(2) this]]
  obtain n1 where n1: "n = Suc (Suc n1)" "4 * (length s - p) \<le> n1" using n by (metis add_2_eq_Suc' le_Suc_ex add_Suc le_add1)
  have "stop {41} (41 # k2)" by (simp add: stop_def)
  moreover have "4 * (length s - (p + 1)) + 4 \<le> n1" using n1(2) open40(4) by simp
  ultimately obtain c where c: "parseline n1 s (p + 1) = Parsed (c, p + 1 + length (pr t 0))" "texts s c = t"
    using assms(1) open40(3,4) unfolding reads0_def by fastforce
  have "drop (p + 1 + length (pr t 0)) s = 41 # k2" using open40(3) by (intro drop_add) simp
  note close41 = peek_sym [OF this _ k2]
  let ?q = "p + 1 + length (pr t 0) + 1"
  obtain e where e: "parseredirs s c ?q = Parsed (e, ?q + length (pr_redirs rs))" "texts s e = wraps rs t"
    using parseredirs_print [of ?q s rs k c] close41(3) rs sk c(2) unfolding k2_def by auto
  show "\<exists>c. parseexec n s p = Parsed (c, p + length (pr t 3 @ pr_redirs rs)) \<and> texts s c = wraps rs t"
    using open40(1,2) close41(1,2) c e by (simp add: n1 bytes_single pr)
qed

lemma reads2_of_3:
  assumes "reads3 s t" and pr: "pr t 2 = pr t 3"
  shows "reads2 s t"
  unfolding reads2_def
proof (intro allI impI)
  fix p n k
  assume d: "drop p s = pr t 2 @ k" and p: "p \<le> length s" and k: "stop {41, 38, 59} k" and n: "4 * (length s - p) + 3 \<le> n"
  obtain n' where n': "n = Suc n'" "4 * (length s - p) + 2 \<le> n'" using n by (cases n) auto
  have "stop {124, 41, 38, 59} k" using stop_mono [OF k] by blast
  then obtain c where c: "parseexec n' s p = Parsed (c, p + length (pr t 3))" "texts s c = t"
    using assms(1) [unfolded reads3_def, rule_format, of p "[]" k n'] d pr p n'(2) by auto
  have "peek s (p + length (pr t 3)) [124] = (False, p + length (pr t 3))"
    using d pr k stop_solid [OF k] by (intro peek_none [of _ _ k] drop_add) (auto simp: stop_def)
  then show "\<exists>c. parsepipe n s p = Parsed (c, p + length (pr t 2)) \<and> texts s c = t" using c by (simp add: n' bytes_single pr)
qed

lemma reads2_pipe:
  assumes "reads3 s c" and "reads2 s d" and w: "writable d"
  shows "reads2 s (PIPE c d)"
  unfolding reads2_def
proof (intro allI impI)
  fix p n k
  assume dr: "drop p s = pr (PIPE c d) 2 @ k" and p: "p \<le> length s" and k: "stop {41, 38, 59} k" and n: "4 * (length s - p) + 3 \<le> n"
  obtain n' where n': "n = Suc n'" "4 * (length s - p) + 2 \<le> n'" using n by (cases n) auto
  have d0: "drop p s = pr c 3 @ 124 # (pr d 2 @ k)" using dr by (simp add: paren_def)
  have "stop {124, 41, 38, 59} (124 # (pr d 2 @ k))" by (simp add: stop_def)
  then obtain c' where c: "parseexec n' s p = Parsed (c', p + length (pr c 3))" "texts s c' = c"
    using assms(1) [unfolded reads3_def, rule_format, of p "[]" "124 # (pr d 2 @ k)" n'] d0 p n'(2) by auto
  note bar = peek_sym [OF drop_add [OF d0] _ solid_pr [OF w stop_solid [OF k]]]
  let ?q = "p + length (pr c 3) + 1"
  have "?q \<le> length s" "drop ?q s = pr d 2 @ k" using bar(3,4) by auto
  moreover have "4 * (length s - ?q) + 3 \<le> n'" using n'(2) \<open>?q \<le> length s\<close> by simp
  ultimately obtain d' where d: "parsepipe n' s ?q = Parsed (d', ?q + length (pr d 2))" "texts s d' = d"
    using assms(2) k unfolding reads2_def by blast
  show "\<exists>e. parsepipe n s p = Parsed (e, p + length (pr (PIPE c d) 2)) \<and> texts s e = PIPE c d"
    using c d bar(1,2) by (simp add: n' bytes_single paren_def)
qed

lemma parseback_print:
  "drop p s = replicate j 38 @ k \<Longrightarrow> stop {41, 59} k \<Longrightarrow> parseback s c p = ((BACK ^^ j) c, p + j)"
proof (induction j arbitrary: c p)
  case 0
  then have "peek s p [38] = (False, p)" using stop_solid [OF 0(2)] by (intro peek_none [of _ _ k]) (auto simp: stop_def)
  then show ?case by (subst parseback.simps) (simp add: bytes_single)
next
  case (Suc j)
  have d: "drop p s = 38 # (replicate j 38 @ k)" using Suc(2) by simp
  have "solid (replicate j 38 @ k)" using stop_solid [OF Suc(3)] by (cases j) (auto simp: whitespace_def)
  note amp = peek_sym [OF d _ this]
  have "parseback s c p = parseback s (BACK c) (p + 1)" by (subst parseback.simps) (use amp(1,2) in \<open>simp add: bytes_single\<close>)
  then show ?case using Suc(1) [OF _ Suc(3), of "p + 1" "BACK c"] amp(3) by (simp add: funpow_swap1)
qed

lemma texts_back: "map_cmd g ((BACK ^^ j) c) = (BACK ^^ j) (map_cmd g c)"
  by (induction j) auto

lemma reads1_of_2:
  assumes "reads2 s t" and pr: "pr t 1 = pr t 2"
  shows "reads1 s t"
  unfolding reads1_def
proof (intro allI impI)
  fix p n k j
  assume d: "drop p s = pr t 1 @ replicate j 38 @ k" and p: "p \<le> length s" and k: "stop {41, 59} k" and n: "4 * (length s - p) + 3 \<le> n"
  have "stop {41, 38, 59} (replicate j 38 @ k)" using k by (cases j) (auto simp: stop_def)
  then obtain c where c: "parsepipe n s p = Parsed (c, p + length (pr t 2))" "texts s c = t"
    using assms(1) d pr p n unfolding reads2_def by metis
  have "drop (p + length (pr t 2)) s = replicate j 38 @ k" using d pr by (intro drop_add) simp
  from parseback_print [OF this k, of c]
  show "\<exists>c. bindP (parsepipe n s p) (\<lambda>(c, p). Parsed (parseback s c p)) = Parsed (c, p + length (pr t 1) + j) \<and> texts s c = (BACK ^^ j) t"
    unfolding pr using c by (simp add: texts_back)
qed

lemma reads1_back:
  assumes "reads1 s c"
  shows "reads1 s (BACK c)"
  unfolding reads1_def
proof (intro allI impI)
  fix p n k j
  assume d: "drop p s = pr (BACK c) 1 @ replicate j 38 @ k" and a: "p \<le> length s" "stop {41, 59} k" "4 * (length s - p) + 3 \<le> n"
  have "drop p s = pr c 1 @ replicate (Suc j) 38 @ k" using d by (simp add: paren_def)
  then have "\<exists>d. bindP (parsepipe n s p) (\<lambda>(c, p). Parsed (parseback s c p)) = Parsed (d, p + length (pr c 1) + Suc j) \<and> texts s d = (BACK ^^ Suc j) c"
    using assms a unfolding reads1_def by blast
  then show "\<exists>d. bindP (parsepipe n s p) (\<lambda>(c, p). Parsed (parseback s c p)) = Parsed (d, p + length (pr (BACK c) 1) + j) \<and> texts s d = (BACK ^^ j) (BACK c)"
    by (simp add: paren_def funpow_swap1)
qed

lemma reads1_parts:
  assumes "reads1 s t" and "drop p s = pr t 1 @ k" and "p \<le> length s" and "stop {41, 59} k" and "4 * (length s - p) + 3 \<le> n"
  obtains c0 p0 c where "parsepipe n s p = Parsed (c0, p0)" and "parseback s c0 p0 = (c, p + length (pr t 1))" and "texts s c = t"
proof -
  obtain c where c: "bindP (parsepipe n s p) (\<lambda>(c, p). Parsed (parseback s c p)) = Parsed (c, p + length (pr t 1))" "texts s c = t"
    using assms(1) [unfolded reads1_def, rule_format, of p 0 k n] assms(2-5) by auto
  then show thesis using that by (cases "parsepipe n s p") auto
qed

lemma reads0_of_1:
  assumes "reads1 s t" and pr: "pr t 0 = pr t 1"
  shows "reads0 s t"
  unfolding reads0_def
proof (intro allI impI)
  fix p n k
  assume d: "drop p s = pr t 0 @ k" and p: "p \<le> length s" and k: "stop {41} k" and n: "4 * (length s - p) + 4 \<le> n"
  obtain n' where n': "n = Suc n'" "4 * (length s - p) + 3 \<le> n'" using n by (cases n) auto
  have "stop {41, 59} k" using stop_mono [OF k] by blast
  from reads1_parts [OF assms(1) _ p this n'(2)] obtain c0 p0 c where
    c: "parsepipe n' s p = Parsed (c0, p0)" "parseback s c0 p0 = (c, p + length (pr t 1))" "texts s c = t" using d pr by metis
  have "peek s (p + length (pr t 1)) [59] = (False, p + length (pr t 1))"
    using d pr k stop_solid [OF k] by (intro peek_none [of _ _ k] drop_add) (auto simp: stop_def)
  then show "\<exists>c. parseline n s p = Parsed (c, p + length (pr t 0)) \<and> texts s c = t" using c by (simp add: n' bytes_single pr)
qed

lemma reads0_list:
  assumes "reads1 s c" and "reads0 s d" and w: "writable d"
  shows "reads0 s (LIST c d)"
  unfolding reads0_def
proof (intro allI impI)
  fix p n k
  assume dr: "drop p s = pr (LIST c d) 0 @ k" and p: "p \<le> length s" and k: "stop {41} k" and n: "4 * (length s - p) + 4 \<le> n"
  obtain n' where n': "n = Suc n'" "4 * (length s - p) + 3 \<le> n'" using n by (cases n) auto
  have d0: "drop p s = pr c 1 @ 59 # (pr d 0 @ k)" using dr by (simp add: paren_def)
  have "stop {41, 59} (59 # (pr d 0 @ k))" by (simp add: stop_def)
  from reads1_parts [OF assms(1) d0 p this n'(2)] obtain c0 p0 c' where
    c: "parsepipe n' s p = Parsed (c0, p0)" "parseback s c0 p0 = (c', p + length (pr c 1))" "texts s c' = c" .
  note semi = peek_sym [OF drop_add [OF d0] _ solid_pr [OF w stop_solid [OF k]]]
  let ?q = "p + length (pr c 1) + 1"
  have q: "?q \<le> length s" "drop ?q s = pr d 0 @ k" using semi(3,4) by auto
  then have "4 * (length s - ?q) + 4 \<le> n'" using n'(2) by simp
  then obtain d' where d: "parseline n' s ?q = Parsed (d', ?q + length (pr d 0))" "texts s d' = d"
    using assms(2) k q unfolding reads0_def by blast
  show "\<exists>e. parseline n s p = Parsed (e, p + length (pr (LIST c d) 0)) \<and> texts s e = LIST c d"
    using c d semi(1,2) by (simp add: n' bytes_single paren_def)
qed

lemma reads_all: "writable t \<Longrightarrow> reads0 s t \<and> reads1 s t \<and> reads2 s t \<and> reads3 s t"
proof (induction t)
  case (EXEC ws)
  then show ?case using reads0_of_1 reads1_of_2 reads2_of_3 reads3_exec by (metis pr.simps(1))
next
  case (REDIR c f m fd)
  then show ?case using reads0_of_1 reads1_of_2 reads2_of_3 reads3_redir by (metis pr.simps(2) writable.simps(2))
next
  case (PIPE c d)
  then have "reads2 s (PIPE c d)" by (intro reads2_pipe) auto
  moreover from this have 1: "reads1 s (PIPE c d)" by (rule reads1_of_2) (simp add: paren_def)
  moreover from 1 have 0: "reads0 s (PIPE c d)" by (rule reads0_of_1) (simp add: paren_def)
  moreover from 0 have "reads3 s (PIPE c d)" using PIPE(3) by (rule reads3_paren) (simp add: paren_def)
  ultimately show ?case by blast
next
  case (LIST c d)
  then have 0: "reads0 s (LIST c d)" by (intro reads0_list) auto
  moreover from 0 have 3: "reads3 s (LIST c d)" using LIST(3) by (rule reads3_paren) (simp add: paren_def)
  moreover from 3 have 2: "reads2 s (LIST c d)" by (rule reads2_of_3) (simp add: paren_def)
  moreover from 2 have "reads1 s (LIST c d)" by (rule reads1_of_2) (simp add: paren_def)
  ultimately show ?case by blast
next
  case (BACK c)
  then have 1: "reads1 s (BACK c)" by (intro reads1_back) auto
  moreover from 1 have 0: "reads0 s (BACK c)" by (rule reads0_of_1) (simp add: paren_def)
  moreover from 0 have 3: "reads3 s (BACK c)" using BACK(2) by (rule reads3_paren) (simp add: paren_def)
  moreover from 3 have "reads2 s (BACK c)" by (rule reads2_of_3) (simp add: paren_def)
  ultimately show ?case by blast
qed

lemma pr_no_nul: "writable t \<Longrightarrow> 0 \<notin> set (pr t l)"
proof (induction t arbitrary: l)
  case (EXEC ws)
  then show ?case by (auto simp: pr_words_def word_ok_def)
next
  case (REDIR c f m fd)
  then show ?case by (auto simp: pr_redir_def word_ok_def)
qed (auto simp: paren_def)

lemma set_cmd_toks: "set_cmd c = set (toks c)"
  by (induction c) auto

text \<open>C35. The parser of the shell reads back what is printed.  Every command with valid words and at most nine arguments per
  program can be written as a line, with \<open>;\<close>, \<open>&\<close>, \<open>|\<close>, redirections and parentheses where the grammar needs them,
  such that the parser accepts the line and the strings in the buffer it leaves form that command again: the precedence
  of the operators, their association, the order of the redirections and the arguments are those of the grammar.\<close>

theorem parsecmd_printed:
  assumes "writable t"
  shows "\<exists>c buf. parsecmd (sh_fuel (pr t 0)) (pr t 0) = Parsed (c, buf) \<and> map_cmd (str_at buf) c = t"
proof -
  let ?s = "pr t 0"
  have "reads0 ?s t" using reads_all [OF assms] by blast
  from this [unfolded reads0_def, rule_format, of 0 "[]" "sh_fuel ?s"] obtain c where c: "parseline (sh_fuel ?s) ?s 0 = Parsed (c, length ?s)" "texts ?s c = t" by (auto simp: stop_def sh_fuel_def)
  have ok: "cmd_ok ?s c" using good_parsers [of ?s "sh_fuel ?s"] c(1) by (auto simp: sh_fuel_def)
  let ?buf = "nulterminate c (?s @ [0])"
  have "str_at ?buf x = tok_text ?s x" if "x \<in> set_cmd c" for x
    using str_at_word [OF pr_no_nul [OF assms] ok] that by (simp add: set_cmd_toks)
  then have "map_cmd (str_at ?buf) c = t" using c(2) by (simp cong: cmd.map_cong_simp)
  moreover have "peek ?s (length ?s) [] = (False, length ?s)" by (simp add: peek_at)
  ultimately show ?thesis using c(1) by (simp add: parsecmd_def)
qed

text \<open>A list of a background block with a redirection and a pipeline.\<close>

definition demo_cmd :: "u8 list cmd" where
  "demo_cmd = LIST (BACK (REDIR (LIST (EXEC [bytes ''ls'']) (EXEC [bytes ''cat'', bytes ''f''])) (bytes ''g'') 0x601 1))
     (PIPE (EXEC [bytes ''cat'']) (EXEC [bytes ''wc'']))"

lemma demo_cmd_pr: "pr demo_cmd 0 = bytes ''(ls ;cat f )>g &;cat |wc ''"
  by (simp add: demo_cmd_def paren_def pr_redir_def bytes_def)

theorem parsecmd_printed_witness:
  "\<exists>c buf. parsecmd (sh_fuel (pr demo_cmd 0)) (bytes ''(ls ;cat f )>g &;cat |wc '') = Parsed (c, buf) \<and> map_cmd (str_at buf) c = demo_cmd"
proof -
  have "writable demo_cmd"
    by (simp add: demo_cmd_def word_ok_def bytes_def wordch_def whitespace_def symbols_def)
  from parsecmd_printed [OF this] show ?thesis by (simp only: demo_cmd_pr)
qed

end
