(* ===== verification/Mkfs.thy ===== *)
theory Mkfs
  imports Fs
begin

text \<open>
  \<open>mkfs/mkfs.c\<close>, the program that builds the first file system image on the host.  The image file is the list of its sectors
  of \<open>BSIZE\<close> bytes; a failed \<open>assert\<close> and a call of \<open>die\<close> are a \<open>Panic\<close> with the text.  The host is taken to be
  little-endian, and its input files are a parameter: for each name the pieces that \<open>read\<close> returns, or none if it cannot be opened.
  Progress messages are left out.
\<close>

section \<open>Layout\<close>

abbreviation (input) FSSIZE :: nat where "FSSIZE \<equiv> 2000"
abbreviation (input) NINODES :: nat where "NINODES \<equiv> 200"

definition nbitmap :: nat where "nbitmap = FSSIZE div BPB + 1"
definition ninodeblocks :: nat where "ninodeblocks = NINODES div unat IPB + 1"
definition nlogblocks :: nat where "nlogblocks = 30"
definition nmeta :: nat where "nmeta = 2 + nlogblocks + ninodeblocks + nbitmap"

text \<open>\<open>xshort\<close> and \<open>xint\<close> store the bytes of their argument in the order of the target.\<close>

definition xshort :: "u16 \<Rightarrow> u16" where
  "xshort x = get16 (put16 0 x (replicate 2 0)) 0"

definition xint :: "u32 \<Rightarrow> u32" where
  "xint x = get32 (put32 0 x (replicate 4 0)) 0"

definition mk_sb :: superblock where
  "mk_sb = \<lparr>sb_magic = FSMAGIC, sb_size = xint (of_nat FSSIZE), sb_nblocks = xint (of_nat (FSSIZE - nmeta)),
     sb_ninodes = xint (of_nat NINODES), sb_nlog = xint (of_nat nlogblocks), sb_logstart = xint 2,
     sb_inodestart = xint (of_nat (2 + nlogblocks)), sb_bmapstart = xint (of_nat (2 + nlogblocks + ninodeblocks))\<rparr>"

section \<open>Sectors and inodes\<close>

record mkfs =
  img :: "u8 list list"
  freeinode :: u32
  freeblock :: u32

text \<open>The offset \<open>sec * BSIZE\<close> is an unsigned \<open>int\<close>.\<close>

definition sector :: "u32 \<Rightarrow> nat" where
  "sector sec = unat (sec * 1024) div 1024"

definition wsect :: "u32 \<Rightarrow> u8 list \<Rightarrow> mkfs \<Rightarrow> mkfs" where
  "wsect sec buf s =
     (let i = sector sec
      in s\<lparr>img := (if i < length (img s) then (img s)[i := buf]
                    else img s @ replicate (i - length (img s)) (replicate BSIZE 0) @ [buf])\<rparr>)"

definition rsect :: "u32 \<Rightarrow> mkfs \<Rightarrow> u8 list res" where
  "rsect sec s = (if sector sec < length (img s) then Ok (img s ! sector sec) else Panic ''read'')"

definition winode :: "u32 \<Rightarrow> dinode \<Rightarrow> mkfs \<Rightarrow> mkfs res" where
  "winode ino ip s =
     (let bn = IBLOCK ino mk_sb
      in bindR (rsect bn s) (\<lambda>buf. Ok (wsect bn (put_dinode (dinode_off ino) ip buf) s)))"

definition rinode :: "u32 \<Rightarrow> mkfs \<Rightarrow> dinode res" where
  "rinode ino s = bindR (rsect (IBLOCK ino mk_sb) s) (\<lambda>buf. Ok (get_dinode buf (dinode_off ino)))"

definition mk_ialloc :: "u16 \<Rightarrow> mkfs \<Rightarrow> (u32 \<times> mkfs) res" where
  "mk_ialloc ty s =
     (let ino = freeinode s;
          s = s\<lparr>freeinode := ino + 1\<rparr>;
          din = \<lparr>itype = xshort ty, imajor = 0, iminor = 0, nlink = xshort 1, isize = xint 0, iaddrs = replicate (NDIRECT + 1) 0\<rparr>
      in bindR (winode ino din s) (\<lambda>s. Ok (ino, s)))"

definition mk_bitmap :: "nat \<Rightarrow> u8 list" where
  "mk_bitmap used = fold (\<lambda>i buf. buf[i div 8 := buf ! (i div 8) OR push_bit (i mod 8) 1]) [0..<used] (replicate BSIZE 0)"

definition mk_balloc :: "nat \<Rightarrow> mkfs \<Rightarrow> mkfs res" where
  "mk_balloc used s = (if \<not> used < BPB then Panic ''assert'' else Ok (wsect (sb_bmapstart mk_sb) (mk_bitmap used) s))"

section \<open>Appending to a file\<close>

text \<open>The block of the image that holds block \<open>fbn\<close> of the file; a missing one is allocated.\<close>

definition mk_bmap :: "nat \<Rightarrow> dinode \<Rightarrow> mkfs \<Rightarrow> (u32 \<times> dinode \<times> mkfs) res" where
  "mk_bmap fbn din s =
     (if fbn < NDIRECT
      then let (din, s) = (if xint (iaddrs din ! fbn) = 0
                           then (din\<lparr>iaddrs := (iaddrs din)[fbn := xint (freeblock s)]\<rparr>, s\<lparr>freeblock := freeblock s + 1\<rparr>)
                           else (din, s))
           in Ok (xint (iaddrs din ! fbn), din, s)
      else let (din, s) = (if xint (iaddrs din ! NDIRECT) = 0
                           then (din\<lparr>iaddrs := (iaddrs din)[NDIRECT := xint (freeblock s)]\<rparr>, s\<lparr>freeblock := freeblock s + 1\<rparr>)
                           else (din, s));
               ib = xint (iaddrs din ! NDIRECT); j = 4 * (fbn - NDIRECT)
           in bindR (rsect ib s) (\<lambda>ind.
                if get32 ind j = 0
                then let ind = put32 j (xint (freeblock s)) ind; s = s\<lparr>freeblock := freeblock s + 1\<rparr>
                     in Ok (xint (get32 ind j), din, wsect ib ind s)
                else Ok (xint (get32 ind j), din, s)))"

function iappend_loop :: "dinode \<Rightarrow> nat \<Rightarrow> u8 list \<Rightarrow> mkfs \<Rightarrow> (dinode \<times> nat \<times> mkfs) res" where
  "iappend_loop din off p s =
     (if p = [] then Ok (din, off, s)
      else let fbn = off div BSIZE
           in if \<not> fbn < MAXFILE then Panic ''assert''
              else bindR (mk_bmap fbn din s) (\<lambda>(x, din, s).
                let n1 = min (length p) ((fbn + 1) * BSIZE - off)
                in bindR (rsect x s) (\<lambda>buf.
                   iappend_loop din (off + n1) (drop n1 p) (wsect x (put_bytes (off - fbn * BSIZE) (take n1 p) buf) s))))"
  by pat_completeness auto
termination
proof (relation "measure (\<lambda>(din, off, p, s). length p)", goal_cases)
  case (2 din off p s)
  have "off < (off div BSIZE + 1) * BSIZE" using dividend_less_div_times [of BSIZE off] by simp
  then show ?case using 2 by auto
qed simp

declare iappend_loop.simps [simp del]

definition iappend :: "u32 \<Rightarrow> u8 list \<Rightarrow> mkfs \<Rightarrow> mkfs res" where
  "iappend ino p s =
     bindR (rinode ino s) (\<lambda>din.
     bindR (iappend_loop din (unat (xint (isize din))) p s) (\<lambda>(din, off, s).
     winode ino (din\<lparr>isize := xint (of_nat off)\<rparr>) s))"

section \<open>The program\<close>

definition mk_dirent :: "u32 \<Rightarrow> u8 list \<Rightarrow> u8 list" where
  "mk_dirent ino name = put_bytes 2 (take DIRSIZ name) (put16 0 (xshort (ucast ino)) (replicate 16 0))"

definition shortname :: "u8 list \<Rightarrow> u8 list" where
  "shortname a = (if take 5 a = bytes ''user/'' then drop 5 a else a)"

fun mk_append_all :: "u32 \<Rightarrow> u8 list list \<Rightarrow> mkfs \<Rightarrow> mkfs res" where
  "mk_append_all ino [] s = Ok s"
| "mk_append_all ino (b # bs) s = bindR (iappend ino b s) (mk_append_all ino bs)"

definition mk_file :: "(u8 list \<Rightarrow> u8 list list option) \<Rightarrow> u8 list \<Rightarrow> mkfs \<Rightarrow> mkfs res" where
  "mk_file host a s =
     (let n = shortname a
      in if 47 \<in> set n then Panic ''assert''
         else (case host a of
                 None \<Rightarrow> Panic ''open''
               | Some pieces \<Rightarrow>
                   let n = (if n \<noteq> [] \<and> hd n = 95 then tl n else n)
                   in if \<not> length n \<le> DIRSIZ then Panic ''assert''
                      else bindR (mk_ialloc T_FILE s) (\<lambda>(ino, s).
                           bindR (iappend ROOTINO (mk_dirent ino n) s) (mk_append_all ino pieces))))"

fun mk_files :: "(u8 list \<Rightarrow> u8 list list option) \<Rightarrow> u8 list list \<Rightarrow> mkfs \<Rightarrow> mkfs res" where
  "mk_files host [] s = Ok s"
| "mk_files host (a # as) s = bindR (mk_file host a s) (mk_files host as)"

definition mk_super :: "u8 list" where
  "mk_super = put_bytes 0 (concat (map le32 [sb_magic mk_sb, sb_size mk_sb, sb_nblocks mk_sb, sb_ninodes mk_sb, sb_nlog mk_sb,
     sb_logstart mk_sb, sb_inodestart mk_sb, sb_bmapstart mk_sb])) (replicate BSIZE 0)"

definition mkfs_main :: "(u8 list \<Rightarrow> u8 list list option) \<Rightarrow> u8 list list \<Rightarrow> mkfs res" where
  "mkfs_main host files =
     (let s = fold (\<lambda>i. wsect (of_nat i) (replicate BSIZE 0)) [0..<FSSIZE] \<lparr>img = [], freeinode = 1, freeblock = of_nat nmeta\<rparr>
      in bindR (mk_ialloc T_DIR (wsect 1 mk_super s)) (\<lambda>(rootino, s).
         if rootino \<noteq> ROOTINO then Panic ''assert''
         else bindR (iappend rootino (mk_dirent rootino (bytes ''.'')) s) (\<lambda>s.
              bindR (iappend rootino (mk_dirent rootino (bytes ''..'')) s) (\<lambda>s.
              bindR (mk_files host files s) (\<lambda>s.
              bindR (rinode rootino s) (\<lambda>din.
                let off = (xint (isize din) div 1024 + 1) * 1024
                in bindR (winode rootino (din\<lparr>isize := xint off\<rparr>) s) (\<lambda>s. mk_balloc (unat (freeblock s)) s)))))))"

end
