(* ===== verification/Mkimg.thy ===== *)
theory Mkimg
  imports Mkfs
begin

text \<open>
  What the builder of the file system image does: the blocks of the files are disjoint, appending to a file changes the contents of that
  file only, and the bitmap marks the blocks in use for the kernel.
\<close>

section \<open>Inodes in a block\<close>

lemma xint_id [simp]: "xint x = x" and xshort_id [simp]: "xshort y = y"
  by (simp_all add: xint_def xshort_def)

lemma put_addrs_length [simp]: "length (fold (\<lambda>i. put32 (b + 4 * i) (f i)) is d) = length d"
  by (induction "is" arbitrary: d) auto

lemma put_addrs_get: "j < n \<Longrightarrow> b + 4 * n \<le> length d \<Longrightarrow> get32 (fold (\<lambda>i. put32 (b + 4 * i) (f i)) [0..<n] d) (b + 4 * j) = f j"
proof (induction n)
  case (Suc n)
  then show ?case by (cases "j = n") auto
qed simp

lemma put_addrs_nth: "k < b \<or> b + 4 * n \<le> k \<Longrightarrow> fold (\<lambda>i. put32 (b + 4 * i) (f i)) [0..<n] d ! k = d ! k"
  by (induction n) (auto simp: put_nth_other)

lemma put_dinode_length [simp]: "length (put_dinode o1 x d) = length d"
  by (simp add: put_dinode_def)

lemma put_dinode_nth: "k < o1 \<or> o1 + 64 \<le> k \<Longrightarrow> put_dinode o1 x d ! k = d ! k"
  unfolding put_dinode_def by (subst put_addrs_nth) (auto simp: put_nth_other)

lemma get32_cong: "(\<And>k. i \<le> k \<Longrightarrow> k < i + 4 \<Longrightarrow> d ! k = e ! k) \<Longrightarrow> get32 d i = get32 e i"
  by (simp add: get32_def)

lemma get16_cong: "(\<And>k. i \<le> k \<Longrightarrow> k < i + 2 \<Longrightarrow> d ! k = e ! k) \<Longrightarrow> get16 d i = get16 e i"
  by (simp add: get16_def)

lemma get_dinode_cong: "(\<And>k. o1 \<le> k \<Longrightarrow> k < o1 + 64 \<Longrightarrow> d ! k = e ! k) \<Longrightarrow> get_dinode d o1 = get_dinode e o1"
  unfolding get_dinode_def by (intro dinode.equality) (auto intro!: get16_cong get32_cong)

lemma get_put_dinode:
  assumes "o1 + 64 \<le> length d" and "length (iaddrs x) = 13"
  shows "get_dinode (put_dinode o1 x d) o1 = x"
proof -
  let ?d = "put32 (o1 + 8) (isize x) (put16 (o1 + 6) (nlink x) (put16 (o1 + 4) (iminor x) (put16 (o1 + 2) (imajor x) (put16 o1 (itype x) d))))"
  let ?e = "put_dinode o1 x d"
  have nth: "?e ! k = ?d ! k" if "k < o1 + 12" for k unfolding put_dinode_def using that by (intro put_addrs_nth) simp
  have h: "get16 ?e i = get16 ?d i" if "i + 2 \<le> o1 + 12" for i using that nth by (intro get16_cong) simp
  have "get32 ?e (o1 + 8) = get32 ?d (o1 + 8)" using nth by (intro get32_cong) simp
  moreover have "map (\<lambda>i. get32 ?e (o1 + 12 + 4 * i)) [0..<NDIRECT + 1] = iaddrs x"
    unfolding put_dinode_def using assms by (intro nth_equalityI) (auto simp: put_addrs_get simp del: upt_Suc)
  ultimately show ?thesis unfolding get_dinode_def using h assms(1) by (intro dinode.equality) simp_all
qed

lemma get_put_dinode_other: "o2 + 64 \<le> o1 \<or> o1 + 64 \<le> o2 \<Longrightarrow> get_dinode (put_dinode o1 x d) o2 = get_dinode d o2"
  by (intro get_dinode_cong put_dinode_nth) auto

lemma get_dinode_addrs [simp]: "length (iaddrs (get_dinode d o1)) = 13"
  by (simp add: get_dinode_def)

section \<open>The blocks of a file\<close>

text \<open>The pointers of an inode: its thirteen, the last to the indirect block, and those of the indirect block.\<close>

definition entry :: "u8 list list \<Rightarrow> dinode \<Rightarrow> nat \<Rightarrow> u32" where
  "entry im din j = (if iaddrs din ! 12 = 0 then 0 else get32 (im ! unat (iaddrs din ! 12)) (4 * j))"

definition ptr :: "u8 list list \<Rightarrow> dinode \<Rightarrow> nat \<Rightarrow> u32" where
  "ptr im din j = (if j < 13 then iaddrs din ! j else entry im din (j - 13))"

text \<open>Block \<open>k\<close> of the file is at pointer \<open>slot k\<close>.\<close>

definition slot :: "nat \<Rightarrow> nat" where
  "slot k = (if k < 12 then k else k + 1)"

abbreviation fptr :: "u8 list list \<Rightarrow> dinode \<Rightarrow> nat \<Rightarrow> u32" where
  "fptr im din k \<equiv> ptr im din (slot k)"

definition fbyte :: "u8 list list \<Rightarrow> dinode \<Rightarrow> nat \<Rightarrow> u8" where
  "fbyte im din o1 = im ! unat (fptr im din (o1 div 1024)) ! (o1 mod 1024)"

text \<open>The table \<open>D\<close> of the inodes and the image \<open>im\<close>: no block belongs to two places, the blocks from \<open>fb\<close> on are unused and zero.\<close>

definition tab_ok :: "u8 list list \<Rightarrow> nat \<Rightarrow> (nat \<Rightarrow> dinode) \<Rightarrow> bool" where
  "tab_ok im fb D \<longleftrightarrow> length im = 2000 \<and> (\<forall>b < 2000. length (im ! b) = 1024) \<and> 46 \<le> fb \<and> fb \<le> 2000 \<and>
     (\<forall>b < 2000. fb \<le> b \<longrightarrow> im ! b = replicate 1024 0) \<and>
     (\<forall>i < 200. length (iaddrs (D i)) = 13) \<and>
     (\<forall>i < 200. \<forall>j < 269. ptr im (D i) j \<noteq> 0 \<longrightarrow> 46 \<le> unat (ptr im (D i) j) \<and> unat (ptr im (D i) j) < fb) \<and>
     (\<forall>i < 200. \<forall>i' < 200. \<forall>j < 269. \<forall>j' < 269. ptr im (D i) j \<noteq> 0 \<longrightarrow> ptr im (D i) j = ptr im (D i') j' \<longrightarrow> i = i' \<and> j = j')"

lemma tab_okD:
  assumes "tab_ok im fb D"
  shows "length im = 2000" "\<And>b. b < 2000 \<Longrightarrow> length (im ! b) = 1024" "46 \<le> fb" "fb \<le> 2000"
    "\<And>b. b < 2000 \<Longrightarrow> fb \<le> b \<Longrightarrow> im ! b = replicate 1024 0"
    "\<And>i. i < 200 \<Longrightarrow> length (iaddrs (D i)) = 13"
    "\<And>i j. i < 200 \<Longrightarrow> j < 269 \<Longrightarrow> ptr im (D i) j \<noteq> 0 \<Longrightarrow> 46 \<le> unat (ptr im (D i) j)"
    "\<And>i j. i < 200 \<Longrightarrow> j < 269 \<Longrightarrow> ptr im (D i) j \<noteq> 0 \<Longrightarrow> unat (ptr im (D i) j) < fb"
    "\<And>i i' j j'. i < 200 \<Longrightarrow> i' < 200 \<Longrightarrow> j < 269 \<Longrightarrow> j' < 269 \<Longrightarrow> ptr im (D i) j \<noteq> 0 \<Longrightarrow> ptr im (D i) j = ptr im (D i') j' \<Longrightarrow> i = i' \<and> j = j'"
  using assms unfolding tab_ok_def by blast+

lemma slot_less: "k < 268 \<Longrightarrow> slot k < 269 \<and> slot k \<noteq> 12"
  by (simp add: slot_def)

lemma slot_inj: "slot k = slot k' \<Longrightarrow> k = k'"
  by (auto simp: slot_def split: if_splits)

text \<open>Writing a block that no inode uses as its indirect block leaves the pointers.\<close>

lemma ptr_update:
  assumes "iaddrs din ! 12 \<noteq> 0 \<Longrightarrow> unat (iaddrs din ! 12) \<noteq> x"
  shows "ptr (im[x := b]) din j = ptr im din j"
  using assms by (auto simp: ptr_def entry_def)

lemma sector_small [simp]: "unat sec < 2000 \<Longrightarrow> sector sec = unat sec"
  by (simp add: sector_def unat_word_ariths)

lemma rsect_ok: "unat x < length (img s) \<Longrightarrow> length (img s) = 2000 \<Longrightarrow> rsect x s = Ok (img s ! unat x)"
  by (simp add: rsect_def)

lemma wsect_ok: "unat x < length (img s) \<Longrightarrow> length (img s) = 2000 \<Longrightarrow> wsect x b s = s\<lparr>img := (img s)[unat x := b]\<rparr>"
  by (simp add: wsect_def)

text \<open>Storing data in a block of a file.\<close>

lemma tab_ok_data:
  assumes ok: "tab_ok im fb D" and i: "i < 200" "k < 268" and x: "fptr im (D i) k = x" "x \<noteq> 0" and b: "length b = 1024"
  shows "tab_ok (im[unat x := b]) fb D" and "\<And>i j. i < 200 \<Longrightarrow> ptr (im[unat x := b]) (D i) j = ptr im (D i) j"
proof -
  note t = tab_okD [OF ok]
  have sl: "slot k < 269" "slot k \<noteq> 12" using slot_less [OF i(2)] by auto
  have xl: "46 \<le> unat x" "unat x < fb" using t(7,8) [OF i(1) sl(1)] x by auto
  show p: "ptr (im[unat x := b]) (D i) j = ptr im (D i) j" if "i < 200" for i j
  proof (rule ptr_update)
    assume nz: "iaddrs (D i) ! 12 \<noteq> 0"
    have "ptr im (D i) 12 = iaddrs (D i) ! 12" by (simp add: ptr_def)
    then have "ptr im (D i) 12 \<noteq> x" using t(9) [of i _ 12 "slot k"] nz that assms(2) sl x by auto
    then show "unat (iaddrs (D i) ! 12) \<noteq> unat x" using \<open>ptr im (D i) 12 = _\<close> by (simp add: word_unat_eq_iff)
  qed
  show "tab_ok (im[unat x := b]) fb D"
    unfolding tab_ok_def using t b xl by (auto simp: p nth_list_update)
qed

section \<open>Allocating blocks\<close>

text \<open>The second state keeps the pointers, the data and the blocks before the data area of the first.\<close>

definition ext :: "u8 list list \<Rightarrow> (nat \<Rightarrow> dinode) \<Rightarrow> u8 list list \<Rightarrow> (nat \<Rightarrow> dinode) \<Rightarrow> bool" where
  "ext im D im' D' \<longleftrightarrow> (\<forall>b < 46. im' ! b = im ! b) \<and>
     (\<forall>i < 200. \<forall>j < 269. ptr im (D i) j \<noteq> 0 \<longrightarrow> ptr im' (D' i) j = ptr im (D i) j) \<and>
     (\<forall>i < 200. \<forall>k < 268. fptr im (D i) k \<noteq> 0 \<longrightarrow> im' ! unat (fptr im (D i) k) = im ! unat (fptr im (D i) k))"

lemma ext_refl: "ext im D im D"
  by (simp add: ext_def)

lemma extD:
  assumes "ext im D im' D'"
  shows "\<And>b. b < 46 \<Longrightarrow> im' ! b = im ! b"
    "\<And>i j. i < 200 \<Longrightarrow> j < 269 \<Longrightarrow> ptr im (D i) j \<noteq> 0 \<Longrightarrow> ptr im' (D' i) j = ptr im (D i) j"
    "\<And>i k. i < 200 \<Longrightarrow> k < 268 \<Longrightarrow> fptr im (D i) k \<noteq> 0 \<Longrightarrow> im' ! unat (fptr im (D i) k) = im ! unat (fptr im (D i) k)"
  using assms unfolding ext_def by blast+

lemma ext_trans:
  assumes 1: "ext im D im1 D1" and 2: "ext im1 D1 im2 D2"
  shows "ext im D im2 D2"
  unfolding ext_def
proof (intro conjI allI impI)
  fix b :: nat assume "b < 46"
  then show "im2 ! b = im ! b" using extD(1) [OF 1] extD(1) [OF 2] by simp
next
  fix i j assume "i < 200" "j < 269" "ptr im (D i) j \<noteq> 0"
  then show "ptr im2 (D2 i) j = ptr im (D i) j" using extD(2) [OF 1] extD(2) [OF 2] by metis
next
  fix i k assume a: "i < 200" "k < 268" "fptr im (D i) k \<noteq> 0"
  have e: "fptr im1 (D1 i) k = fptr im (D i) k" using extD(2) [OF 1 a(1) _ a(3)] slot_less [OF a(2)] by simp
  then show "im2 ! unat (fptr im (D i) k) = im ! unat (fptr im (D i) k)"
    using extD(3) [OF 1 a] extD(3) [OF 2 a(1,2)] a(3) by simp
qed

text \<open>One pointer is set to the first free block.\<close>

lemma tab_ok_fresh:
  assumes ok: "tab_ok im fb D" and i: "i < 200" "a < 269" and fb: "fb < 2000"
    and p: "\<And>i' j. i' < 200 \<Longrightarrow> j < 269 \<Longrightarrow> ptr im' (D' i') j = (if i' = i \<and> j = a then of_nat fb else ptr im (D i') j)"
    and im': "length im' = 2000" "\<And>b. b < 2000 \<Longrightarrow> length (im' ! b) = 1024" "\<And>b. b < 2000 \<Longrightarrow> fb < b \<Longrightarrow> im' ! b = im ! b"
    and D': "\<And>i. i < 200 \<Longrightarrow> length (iaddrs (D' i)) = 13"
  shows "tab_ok im' (fb + 1) D'"
  unfolding tab_ok_def
proof (intro conjI allI impI)
  note t = tab_okD [OF ok]
  have nat: "unat (of_nat fb :: u32) = fb" using fb by (simp add: unat_of_nat)
  show "46 \<le> fb + 1" "fb + 1 \<le> 2000" using t(3) fb by simp_all
  show "im' ! b = replicate 1024 0" if "b < 2000" "fb + 1 \<le> b" for b using that im'(3) [of b] t(5) [of b] by simp
  fix i1 j1 assume a: "i1 < 200" "j1 < 269" "ptr im' (D' i1) j1 \<noteq> 0"
  show "46 \<le> unat (ptr im' (D' i1) j1)" "unat (ptr im' (D' i1) j1) < fb + 1"
    using p [OF a(1,2)] a(3) t(3) nat t(7,8) [OF a(1,2)] by (auto split: if_splits)
  have new: "unat (ptr im (D i2) j2) \<noteq> fb" if "i2 < 200" "j2 < 269" "ptr im (D i2) j2 \<noteq> 0" for i2 j2 using t(8) [OF that] by simp
  fix i2 j2 assume b: "i2 < 200" "j2 < 269" "ptr im' (D' i1) j1 = ptr im' (D' i2) j2"
  show "i1 = i2" "j1 = j2"
    using a b p [OF a(1,2)] p [OF b(1,2)] new [OF a(1,2)] new [OF b(1,2)] t(9) [OF a(1) b(1) a(2) b(2)] nat
    by (auto split: if_splits)
qed (use im' D' in auto)

lemma alloc_addr:
  assumes ok: "tab_ok im fb D" and i: "i < 200" "a < 13" "iaddrs (D i) ! a = 0" and fb: "fb < 2000"
    and D': "D' = D(i := (D i)\<lparr>iaddrs := (iaddrs (D i))[a := of_nat fb]\<rparr>)"
  shows "tab_ok im (fb + 1) D' \<and> ext im D im D' \<and> (\<forall>j < 269. ptr im (D' i) j = (if j = a then of_nat fb else ptr im (D i) j))"
proof -
  note t = tab_okD [OF ok]
  have nz: "(of_nat fb :: u32) \<noteq> 0" "unat (of_nat fb :: u32) = fb" using t(3) fb by (auto simp: unat_of_nat word_unat_eq_iff)
  have len: "length (iaddrs (D i)) = 13" using t(6) i(1) .
  have zero: "get32 (replicate 1024 0) (4 * j) = 0" if "j < 256" for j using that by (simp add: get32_def)
  have p: "ptr im (D' i') j = (if i' = i \<and> j = a then of_nat fb else ptr im (D i') j)" if "i' < 200" "j < 269" for i' j
  proof (cases "i' = i \<and> 13 \<le> j")
    case True
    then show ?thesis using i len nz t(5) [of fb] fb zero [of "j - 13"] that by (cases "a = 12") (auto simp: D' ptr_def entry_def)
  next
    case False
    then show ?thesis using i len by (auto simp: D' ptr_def entry_def)
  qed
  have old: "ptr im (D i) a = 0" using i by (simp add: ptr_def)
  have "tab_ok im (fb + 1) D'"
    by (rule tab_ok_fresh [OF ok i(1) _ fb p]) (use i t len in \<open>auto simp: D'\<close>)
  moreover have "ext im D im D'" unfolding ext_def using p old by auto
  ultimately show ?thesis using p [OF i(1)] by simp
qed

lemma alloc_entry:
  assumes ok: "tab_ok im fb D" and i: "i < 200" "12 \<le> k" "k < 268" and ib: "iaddrs (D i) ! 12 = ib" "ib \<noteq> 0"
    and old: "fptr im (D i) k = 0" and fb: "fb < 2000"
    and im': "im' = im[unat ib := put32 (4 * (k - 12)) (of_nat fb) (im ! unat ib)]"
  shows "tab_ok im' (fb + 1) D \<and> ext im D im' D \<and> fptr im' (D i) k = of_nat fb"
proof -
  note t = tab_okD [OF ok]
  have ip: "ptr im (D i) 12 = ib" using ib by (simp add: ptr_def)
  have il: "46 \<le> unat ib" "unat ib < fb" "unat ib < 2000" using t(7,8) [OF i(1), of 12] ip ib(2) fb by auto
  have len: "length (im ! unat ib) = 1024" "length im = 2000" using t(1,2) il by auto
  have sl: "slot k = k + 1" using i by (simp add: slot_def)
  have p: "ptr im' (D i') j = (if i' = i \<and> j = slot k then of_nat fb else ptr im (D i') j)" if a: "i' < 200" "j < 269" for i' j
  proof (cases "i' = i")
    case True
    have "4 * (j - 13) + 4 \<le> 4 * (k - 12) \<or> 4 * (k - 12) + 4 \<le> 4 * (j - 13)" if "\<not> j < 13" "j \<noteq> Suc k" using that i(2) by arith
    then show ?thesis using True ib len il i a by (auto simp: im' ptr_def entry_def sl)
  next
    case False
    have "ptr im (D i') 12 \<noteq> ib" using t(9) [OF i(1) a(1), of 12 12] ip ib(2) False by auto
    then have "iaddrs (D i') ! 12 \<noteq> ib" by (simp add: ptr_def)
    then have "ptr im' (D i') j = ptr im (D i') j" unfolding im' by (intro ptr_update) (simp add: word_unat_eq_iff)
    then show ?thesis using False by simp
  qed
  have "tab_ok im' (fb + 1) D"
    by (rule tab_ok_fresh [OF ok i(1) _ fb p]) (use slot_less [OF i(3)] t il in \<open>auto simp: im' nth_list_update\<close>)
  moreover have "ext im D im' D"
    unfolding ext_def
  proof (intro conjI allI impI)
    show "im' ! b = im ! b" if "b < 46" for b using that il by (simp add: im')
    show "ptr im' (D i1) j = ptr im (D i1) j" if "i1 < 200" "j < 269" "ptr im (D i1) j \<noteq> 0" for i1 j using p [OF that(1,2)] that old by auto
    fix i1 k1 assume a: "i1 < 200" "k1 < 268" "fptr im (D i1) k1 \<noteq> 0"
    have "fptr im (D i1) k1 \<noteq> ib" using t(9) [OF a(1) i(1), of "slot k1" 12] slot_less [OF a(2)] a(3) ip by auto
    then show "im' ! unat (fptr im (D i1) k1) = im ! unat (fptr im (D i1) k1)" by (simp add: im' word_unat_eq_iff)
  qed
  moreover have "fptr im' (D i) k = of_nat fb" using p [OF i(1), of "slot k"] slot_less [OF i(3)] by simp
  ultimately show ?thesis by simp
qed

lemma unat_succ: "unat (n :: u32) < 2000 \<Longrightarrow> unat (n + 1) = unat n + 1"
  by (subst unat_word_ariths) simp

text \<open>The blocks that \<open>mk_bmap\<close> has to allocate.\<close>

definition need :: "u8 list list \<Rightarrow> dinode \<Rightarrow> nat \<Rightarrow> nat" where
  "need im din k = (if fptr im din k = 0 then 1 else 0) + (if 12 \<le> k \<and> iaddrs din ! 12 = 0 then 1 else 0)"

definition bmap_post :: "nat \<Rightarrow> nat \<Rightarrow> (nat \<Rightarrow> dinode) \<Rightarrow> mkfs \<Rightarrow> nat \<Rightarrow> u32 \<times> dinode \<times> mkfs \<Rightarrow> bool" where
  "bmap_post i k D s m r \<longleftrightarrow> (case r of (x, din, s') \<Rightarrow>
     tab_ok (img s') (unat (freeblock s')) (D(i := din)) \<and> ext (img s) D (img s') (D(i := din)) \<and> fptr (img s') din k = x \<and> x \<noteq> 0 \<and>
     unat (freeblock s') \<le> unat (freeblock s) + m \<and> isize din = isize (D i) \<and> freeinode s' = freeinode s)"

lemma mk_bmap_direct:
  assumes ok: "tab_ok (img s) (unat (freeblock s)) D" and i: "i < 200" "k < 12" and room: "unat (freeblock s) + need (img s) (D i) k \<le> 2000"
  shows "\<exists>r. mk_bmap k (D i) s = Ok r \<and> bmap_post i k D s (need (img s) (D i) k) r"
proof (cases "iaddrs (D i) ! k = 0")
  case True
  note t = tab_okD [OF ok]
  have n: "need (img s) (D i) k = 1" using True i by (simp add: need_def slot_def ptr_def)
  have fb: "unat (freeblock s) < 2000" "unat (freeblock s + 1) = unat (freeblock s) + 1" using room n unat_succ by auto
  let ?din = "(D i)\<lparr>iaddrs := (iaddrs (D i))[k := freeblock s]\<rparr>"
  have a: "tab_ok (img s) (unat (freeblock s) + 1) (D(i := ?din))" "ext (img s) D (img s) (D(i := ?din))"
    using alloc_addr [OF ok i(1) _ True fb(1) refl] i by auto
  have "freeblock s \<noteq> 0" using t(3) by auto
  moreover have "fptr (img s) ?din k = freeblock s" using i t(6) by (simp add: slot_def ptr_def)
  moreover have "mk_bmap k (D i) s = Ok (freeblock s, ?din, s\<lparr>freeblock := freeblock s + 1\<rparr>)"
    using True i t(6) by (simp add: mk_bmap_def)
  ultimately show ?thesis using a fb n by (simp add: bmap_post_def)
next
  case False
  then show ?thesis using i ok by (simp add: mk_bmap_def bmap_post_def slot_def ptr_def ext_refl)
qed

text \<open>The entry of an indirect block that exists.\<close>

lemma mk_bmap_entry:
  assumes ok: "tab_ok (img s) (unat (freeblock s)) D" and i: "i < 200" "12 \<le> k" "k < 268" and ib: "iaddrs (D i) ! 12 \<noteq> 0"
    and room: "unat (freeblock s) + need (img s) (D i) k \<le> 2000"
  shows "\<exists>r. mk_bmap k (D i) s = Ok r \<and> bmap_post i k D s (need (img s) (D i) k) r"
proof -
  note t = tab_okD [OF ok]
  let ?ib = "iaddrs (D i) ! 12" and ?im = "img s"
  have il: "unat ?ib < 2000" using t(8) [OF i(1), of 12] ib t(4) by (simp add: ptr_def)
  have r: "rsect ?ib s = Ok (?im ! unat ?ib)" using il t(1) by (intro rsect_ok) simp_all
  have fp: "fptr ?im (D i) k = get32 (?im ! unat ?ib) (4 * (k - 12))" using i ib by (simp add: slot_def ptr_def entry_def)
  show ?thesis
  proof (cases "fptr ?im (D i) k = 0")
    case True
    have n: "need ?im (D i) k = 1" using True ib by (simp add: need_def)
    have fb: "unat (freeblock s) < 2000" "unat (freeblock s + 1) = unat (freeblock s) + 1" using room n unat_succ by auto
    let ?im' = "?im[unat ?ib := put32 (4 * (k - 12)) (freeblock s) (?im ! unat ?ib)]"
    have a: "tab_ok ?im' (unat (freeblock s) + 1) D" "ext ?im D ?im' D" "fptr ?im' (D i) k = freeblock s"
      using alloc_entry [OF ok i refl ib True fb(1) refl] by auto
    have "length (?im ! unat ?ib) = 1024" using t(2) il .
    then have "mk_bmap k (D i) s = Ok (freeblock s, D i, s\<lparr>freeblock := freeblock s + 1, img := ?im'\<rparr>)"
      using True i ib r il t(1) fp by (simp add: mk_bmap_def rsect_ok wsect_ok Let_def)
    moreover have "freeblock s \<noteq> 0" using t(3) by auto
    ultimately show ?thesis using a fb n by (simp add: bmap_post_def)
  next
    case False
    then have "mk_bmap k (D i) s = Ok (fptr ?im (D i) k, D i, s)" using i ib r fp by (simp add: mk_bmap_def Let_def)
    then show ?thesis using False ok by (simp add: bmap_post_def ext_refl)
  qed
qed

lemma mk_bmap_spec:
  assumes ok: "tab_ok (img s) (unat (freeblock s)) D" and i: "i < 200" "k < 268" and room: "unat (freeblock s) + need (img s) (D i) k \<le> 2000"
  shows "\<exists>r. mk_bmap k (D i) s = Ok r \<and> bmap_post i k D s (need (img s) (D i) k) r"
proof (cases "k < 12 \<or> iaddrs (D i) ! 12 \<noteq> 0")
  case True
  then show ?thesis using mk_bmap_direct [OF ok i(1) _ room] mk_bmap_entry [OF ok i(1) _ i(2) _ room] by (cases "k < 12") auto
next
  case False
  note t = tab_okD [OF ok]
  have k: "12 \<le> k" and z: "iaddrs (D i) ! 12 = 0" using False by auto
  have "fptr (img s) (D i) k = 0" using k z by (simp add: slot_def ptr_def entry_def)
  then have n: "need (img s) (D i) k = 2" using k z by (simp add: need_def)
  have fb: "unat (freeblock s) < 2000" "unat (freeblock s + 1) = unat (freeblock s) + 1" using room n unat_succ by auto
  let ?din = "(D i)\<lparr>iaddrs := (iaddrs (D i))[12 := freeblock s]\<rparr>" and ?s = "s\<lparr>freeblock := freeblock s + 1\<rparr>"
  define E where "E = D(i := ?din)"
  have E: "E i = ?din" "\<And>x. E(i := x) = D(i := x)" by (simp_all add: E_def)
  have a: "tab_ok (img ?s) (unat (freeblock ?s)) E" "ext (img s) D (img s) E"
    "\<And>j. j < 269 \<Longrightarrow> ptr (img s) (E i) j = (if j = 12 then freeblock s else ptr (img s) (D i) j)"
    using alloc_addr [OF ok i(1) _ z fb(1), of E] fb(2) by (auto simp: E_def)
  have nz: "freeblock s \<noteq> 0" using t(3) by auto
  have ib: "iaddrs (E i) ! 12 \<noteq> 0" using t(6) [OF i(1)] nz by (simp add: E(1))
  have "fptr (img s) (E i) k = 0" using a(3) [of "slot k"] slot_less [OF i(2)] \<open>fptr (img s) (D i) k = 0\<close> by simp
  then have n': "need (img ?s) (E i) k = 1" using ib by (simp add: need_def)
  obtain r where r: "mk_bmap k (E i) ?s = Ok r" "bmap_post i k E ?s 1 r"
    using mk_bmap_entry [OF a(1) i(1) k i(2) ib] room n fb(2) unfolding n' by auto
  have "mk_bmap k (D i) s = mk_bmap k (E i) ?s" using k z ib nz t(6) [OF i(1)] by (simp add: mk_bmap_def Let_def E(1))
  moreover have "bmap_post i k D s 2 r"
    using r(2) ext_trans [OF a(2)] fb(2) by (cases r) (auto simp: bmap_post_def E)
  ultimately show ?thesis using r(1) n by simp
qed

section \<open>Appending\<close>

lemma put_bytes_before: "o1 \<le> length d \<Longrightarrow> k < o1 \<Longrightarrow> put_bytes o1 bs d ! k = d ! k"
  by (simp add: put_bytes_def nth_append)

lemma put_bytes_in: "o1 \<le> length d \<Longrightarrow> k < length bs \<Longrightarrow> put_bytes o1 bs d ! (o1 + k) = bs ! k"
  by (simp add: put_bytes_def nth_append)

lemma same_block:
  assumes "off mod 1024 + k < (1024 :: nat)"
  shows "(off + k) div 1024 = off div 1024" and "(off + k) mod 1024 = off mod 1024 + k"
proof -
  have e: "off + k = (off mod 1024 + k) + off div 1024 * 1024" by simp
  show "(off + k) div 1024 = off div 1024" by (subst e, subst div_mult_self1) (use assms in simp_all)
  show "(off + k) mod 1024 = off mod 1024 + k" by (subst e, subst mod_mult_self1) (use assms in simp)
qed

definition present :: "u8 list list \<Rightarrow> dinode \<Rightarrow> nat \<Rightarrow> bool" where
  "present im din off \<longleftrightarrow> (\<forall>k < 268. k * 1024 < off \<longrightarrow> fptr im din k \<noteq> 0)"

text \<open>The files other than \<open>i\<close> keep their blocks and their bytes.\<close>

definition others :: "nat \<Rightarrow> (nat \<Rightarrow> dinode) \<Rightarrow> u8 list list \<Rightarrow> u8 list list \<Rightarrow> bool" where
  "others i D im im' \<longleftrightarrow> (\<forall>b < 46. im' ! b = im ! b) \<and> (\<forall>i' < 200. \<forall>k < 268. i' \<noteq> i \<longrightarrow> fptr im (D i') k \<noteq> 0 \<longrightarrow>
     fptr im' (D i') k = fptr im (D i') k \<and> im' ! unat (fptr im (D i') k) = im ! unat (fptr im (D i') k))"

lemma othersD:
  assumes "others i D im im'"
  shows "\<And>b. b < 46 \<Longrightarrow> im' ! b = im ! b"
    "\<And>i' k. i' < 200 \<Longrightarrow> k < 268 \<Longrightarrow> i' \<noteq> i \<Longrightarrow> fptr im (D i') k \<noteq> 0 \<Longrightarrow> fptr im' (D i') k = fptr im (D i') k"
    "\<And>i' k. i' < 200 \<Longrightarrow> k < 268 \<Longrightarrow> i' \<noteq> i \<Longrightarrow> fptr im (D i') k \<noteq> 0 \<Longrightarrow> im' ! unat (fptr im (D i') k) = im ! unat (fptr im (D i') k)"
  using assms unfolding others_def by blast+

lemma others_trans:
  assumes 1: "others i D im im1" and 2: "others i (D(i := din)) im1 im2"
  shows "others i D im im2"
  unfolding others_def
proof (intro conjI allI impI)
  show "im2 ! b = im ! b" if "b < 46" for b using othersD(1) [OF 1 that] othersD(1) [OF 2 that] by simp
  fix i' k assume a: "i' < 200" "k < 268" "i' \<noteq> i" "fptr im (D i') k \<noteq> 0"
  note 2 = othersD(2,3) [OF 2 a(1-3)] and 1 = othersD(2,3) [OF 1 a]
  show "fptr im2 (D i') k = fptr im (D i') k" using 1 2(1) a(3,4) by simp
  show "im2 ! unat (fptr im (D i') k) = im ! unat (fptr im (D i') k)" using 1 2(2) a(3,4) by simp
qed

text \<open>A piece of the data that fits into block \<open>off div BSIZE\<close> of file \<open>i\<close>.\<close>

lemma store_piece:
  assumes ok: "tab_ok (img s) fb D" and i: "i < 200" "off div 1024 < 268" and pre: "present (img s) (D i) off"
    and x: "fptr im1 din (off div 1024) = x" "x \<noteq> 0" and ok1: "tab_ok im1 fb1 (D(i := din))" and ex: "ext (img s) D im1 (D(i := din))"
    and q: "q \<noteq> []" "off mod 1024 + length q \<le> 1024"
    and im2: "im2 = im1[unat x := put_bytes (off - off div 1024 * 1024) q (im1 ! unat x)]"
  shows "tab_ok im2 fb1 (D(i := din))" and "others i D (img s) im2" and "present im2 din (off + length q)"
    and "\<And>o1. o1 < off \<Longrightarrow> fbyte im2 din o1 = fbyte (img s) (D i) o1"
    and "\<And>o1. o1 < length q \<Longrightarrow> fbyte im2 din (off + o1) = q ! o1"
    and "\<And>j. ptr im2 din j = ptr im1 din j"
proof -
  let ?D = "D(i := din)" and ?f = "off div 1024"
  note t1 = tab_okD [OF ok1] and e = extD [OF ex]
  have sl: "slot ?f < 269" using slot_less [OF i(2)] by simp
  have xl: "46 \<le> unat x" "unat x < 2000" using t1(4) t1(7,8) [OF i(1) sl] x by (auto simp: fun_upd_same)
  have len: "length (im1 ! unat x) = 1024" "unat x < length im1" using t1(1,2) xl by auto
  have o: "off - ?f * 1024 = off mod 1024" by (simp add: minus_div_mult_eq_mod)
  have len2: "length (put_bytes (off - ?f * 1024) q (im1 ! unat x)) = 1024" using q(2) len by (simp add: o)
  note d = tab_ok_data [OF ok1 i(1,2), unfolded fun_upd_same, OF x len2, folded im2]
  show "tab_ok im2 fb1 ?D" by (rule d(1))
  show p: "ptr im2 din j = ptr im1 din j" for j using d(2) [OF i(1), of j] by simp
  have at2: "im2 ! unat x = put_bytes (off mod 1024) q (im1 ! unat x)" and far2: "\<And>b. b \<noteq> unat x \<Longrightarrow> im2 ! b = im1 ! b"
    using len by (simp_all add: im2 o)
  have diff: "fptr im1 (?D i') k \<noteq> x" if "i' < 200" "k < 268" "i' \<noteq> i \<or> k \<noteq> ?f" for i' k
  proof
    assume eq: "fptr im1 (?D i') k = x"
    have "ptr im1 (?D i) (slot ?f) = ptr im1 (?D i') (slot k)" "ptr im1 (?D i) (slot ?f) \<noteq> 0" using eq x by simp_all
    from t1(9) [OF i(1) that(1) sl _ this(2,1)] have "i = i' \<and> slot ?f = slot k" using slot_less [OF that(2)] by simp
    then show False using slot_inj [of ?f k] that(3) by auto
  qed
  show "others i D (img s) im2"
    unfolding others_def
  proof (intro conjI allI impI)
    show "im2 ! b = img s ! b" if "b < 46" for b using e(1) [OF that] xl that by (simp add: im2)
    fix i' k assume a: "i' < 200" "k < 268" "i' \<noteq> i" "fptr (img s) (D i') k \<noteq> 0"
    have pk: "fptr im1 (?D i') k = fptr (img s) (D i') k" using e(2) [OF a(1) _ a(4)] slot_less [OF a(2)] by simp
    then show "fptr im2 (D i') k = fptr (img s) (D i') k" using d(2) [OF a(1), of "slot k"] a(3) by simp
    have "unat (fptr (img s) (D i') k) \<noteq> unat x" using diff [OF a(1,2)] a(3) pk by (simp add: word_unat_eq_iff)
    then show "im2 ! unat (fptr (img s) (D i') k) = img s ! unat (fptr (img s) (D i') k)" using e(3) [OF a(1,2,4)] by (simp add: im2)
  qed
  show "present im2 din (off + length q)"
    unfolding present_def
  proof (intro allI impI)
    fix k assume k: "k < 268" "k * 1024 < off + length q"
    have "off = ?f * 1024 + off mod 1024" by simp
    then have "k * 1024 < (?f + 1) * 1024" using k(2) q(2) unfolding add_mult_distrib by linarith
    then have "k \<le> ?f" unfolding mult_less_cancel2 by simp
    moreover have "fptr im1 din k \<noteq> 0" if "k < ?f"
    proof -
      have "(k + 1) * 1024 \<le> ?f * 1024" using that by (intro mult_le_mono1) simp
      then have "k * 1024 < off" using div_times_less_eq_dividend [of off 1024] unfolding add_mult_distrib by linarith
      then have "fptr (img s) (D i) k \<noteq> 0" using pre k(1) by (simp add: present_def)
      then show ?thesis using e(2) [OF i(1), of "slot k"] slot_less [OF k(1)] by simp
    qed
    ultimately show "fptr im2 din k \<noteq> 0" unfolding p using x by (cases "k = ?f") auto
  qed
  show "fbyte im2 din o1 = fbyte (img s) (D i) o1" if o1: "o1 < off" for o1
  proof -
    let ?k = "o1 div 1024"
    have k: "?k < 268" "?k \<le> ?f" using o1 i(2) div_le_mono [of o1 off 1024] by auto
    have "?k * 1024 < off" using o1 by (meson div_times_less_eq_dividend le_less_trans)
    then have nz: "fptr (img s) (D i) ?k \<noteq> 0" using pre k(1) by (simp add: present_def)
    have pk: "fptr im1 din ?k = fptr (img s) (D i) ?k" using e(2) [OF i(1) _ nz] slot_less [OF k(1)] by simp
    have dk: "im1 ! unat (fptr (img s) (D i) ?k) = img s ! unat (fptr (img s) (D i) ?k)" by (rule e(3) [OF i(1) k(1) nz])
    show ?thesis
    proof (cases "?k = ?f")
      case True
      then have "o1 mod 1024 < off mod 1024" using o1 by (metis add_less_cancel_left div_mult_mod_eq)
      then have "im2 ! unat x ! (o1 mod 1024) = im1 ! unat x ! (o1 mod 1024)" unfolding at2 using len by (intro put_bytes_before) simp_all
      then show ?thesis unfolding fbyte_def p using True pk dk x by simp
    next
      case False
      then have "fptr im1 din ?k \<noteq> x" using diff [OF i(1) k(1)] by simp
      then have "im2 ! unat (fptr im1 din ?k) = im1 ! unat (fptr im1 din ?k)" by (intro far2) (simp add: word_unat_eq_iff)
      then show ?thesis unfolding fbyte_def p using pk dk by simp
    qed
  qed
  show "fbyte im2 din (off + o1) = q ! o1" if o1: "o1 < length q" for o1
  proof -
    have "off mod 1024 + o1 < 1024" using o1 q(2) by simp
    have "im2 ! unat x ! (off mod 1024 + o1) = q ! o1" unfolding at2 using len o1 by (intro put_bytes_in) simp_all
    then show ?thesis unfolding fbyte_def p using same_block [of off o1] o1 q(2) x by simp
  qed
qed

text \<open>The number of blocks of a file of some size, and whether its indirect block is missing.\<close>

definition nb :: "nat \<Rightarrow> nat" where
  "nb n = (n + 1023) div 1024"

definition ind :: "dinode \<Rightarrow> nat" where
  "ind din = (if iaddrs din ! 12 = 0 then 1 else 0)"

lemma nb_mono: "m \<le> n \<Longrightarrow> nb m \<le> nb n"
  by (simp add: nb_def div_le_mono)

lemma nb_in: "0 < r \<Longrightarrow> r \<le> 1024 \<Longrightarrow> nb (f * 1024 + r) = f + 1"
proof -
  assume r: "0 < r" "r \<le> 1024"
  have "f * 1024 + r + 1023 = (r - 1) + (f + 1) * 1024" using r by simp
  then show ?thesis unfolding nb_def using r by simp
qed

lemma nb_full: "nb (f * 1024) = f"
proof -
  have "f * 1024 + 1023 = 1023 + f * 1024" by simp
  then show ?thesis unfolding nb_def by simp
qed

text \<open>One step of the loop uses no more blocks than the data still to store.\<close>

lemma need_bound:
  assumes pre: "present im din off" and f: "off div 1024 < 268" and n: "0 < n" "off mod 1024 + n \<le> 1024"
  shows "need im din (off div 1024) \<le> nb (off + n) - nb off + ind din"
    and "\<And>im' din'. fptr im' din' (off div 1024) \<noteq> 0 \<Longrightarrow> (iaddrs din ! 12 \<noteq> 0 \<Longrightarrow> iaddrs din' ! 12 \<noteq> 0) \<Longrightarrow>
      need im din (off div 1024) + ind din' \<le> nb (off + n) - nb off + ind din"
proof -
  let ?f = "off div 1024"
  have off: "off = ?f * 1024 + off mod 1024" by simp
  have nb1: "nb (off + n) = ?f + 1"
    using nb_in [of "off mod 1024 + n" ?f] n by (metis add.assoc add_gr_0 off)
  have z: "nb (off + n) - nb off = 1" if "fptr im din ?f = 0"
  proof -
    have "\<not> ?f * 1024 < off" using pre f that by (auto simp: present_def)
    then have "off = ?f * 1024" using off by linarith
    then have "nb off = ?f" by (metis nb_full)
    then show ?thesis using nb1 by simp
  qed
  then show "need im din ?f \<le> nb (off + n) - nb off + ind din" by (simp add: need_def ind_def)
  fix im' din' assume a: "fptr im' din' ?f \<noteq> 0" "iaddrs din ! 12 \<noteq> 0 \<Longrightarrow> iaddrs din' ! 12 \<noteq> 0"
  have "iaddrs din' ! 12 \<noteq> 0" if "12 \<le> ?f" using a(1) that by (auto simp: slot_def ptr_def entry_def split: if_splits)
  then show "need im din ?f + ind din' \<le> nb (off + n) - nb off + ind din" using z a(2) by (auto simp: need_def ind_def)
qed

definition append_post :: "nat \<Rightarrow> (nat \<Rightarrow> dinode) \<Rightarrow> nat \<Rightarrow> u8 list \<Rightarrow> mkfs \<Rightarrow> dinode \<Rightarrow> mkfs \<Rightarrow> bool" where
  "append_post i D off p s din s' \<longleftrightarrow> tab_ok (img s') (unat (freeblock s')) (D(i := din)) \<and> others i D (img s) (img s') \<and>
     present (img s') din (off + length p) \<and> isize din = isize (D i) \<and> freeinode s' = freeinode s \<and>
     (\<forall>o1 < off. fbyte (img s') din o1 = fbyte (img s) (D i) o1) \<and> (\<forall>o1 < length p. fbyte (img s') din (off + o1) = p ! o1)"

lemma append_post_step:
  assumes 1: "append_post i D off q s din1 s1" and 2: "append_post i (D(i := din1)) (off + length q) p s1 din s'"
  shows "append_post i D off (q @ p) s din s'"
proof -
  have "fbyte (img s') din (off + o1) = (q @ p) ! o1" if "o1 < length (q @ p)" for o1
  proof (cases "o1 < length q")
    case True
    then show ?thesis using 1 2 by (simp add: append_post_def nth_append)
  next
    case False
    then have e: "off + o1 = off + length q + (o1 - length q)" "o1 - length q < length p" using that by auto
    then have "fbyte (img s') din (off + length q + (o1 - length q)) = p ! (o1 - length q)" using 2 unfolding append_post_def by blast
    then show ?thesis using False by (subst e(1)) (simp add: nth_append)
  qed
  then show ?thesis using 1 2 others_trans [of i D "img s" "img s1" din1 "img s'"] by (simp add: append_post_def add.assoc)
qed

lemma iappend_loop_spec:
  "tab_ok (img s) (unat (freeblock s)) D \<Longrightarrow> i < 200 \<Longrightarrow> present (img s) (D i) off \<Longrightarrow> off + length p \<le> 268 * 1024 \<Longrightarrow>
   unat (freeblock s) + (nb (off + length p) - nb off) + ind (D i) \<le> 2000 \<Longrightarrow>
   \<exists>din s'. iappend_loop (D i) off p s = Ok (din, off + length p, s') \<and> append_post i D off p s din s'"
proof (induction "length p" arbitrary: D s off p rule: less_induct)
  case less
  note ok = less(2) and i = less(3) and pre = less(4)
  show ?case
  proof (cases "p = []")
    case True
    have "others i D (img s) (img s)" by (simp add: others_def)
    then show ?thesis using ok pre True by (subst iappend_loop.simps) (simp add: append_post_def)
  next
    case False
    let ?f = "off div 1024"
    define n1 where "n1 = min (length p) ((?f + 1) * 1024 - off)"
    define q where "q = take n1 p"
    have m: "off = ?f * 1024 + off mod 1024" "off mod 1024 < 1024" by simp_all
    then have "(?f + 1) * 1024 - off = 1024 - off mod 1024" unfolding add_mult_distrib by linarith
    then have n1: "0 < n1" "off mod 1024 + n1 \<le> 1024" "n1 \<le> length p" using False m(2) unfolding n1_def by auto
    have q: "q \<noteq> []" "length q = n1" "q @ drop n1 p = p" using n1 by (auto simp: q_def)
    have "0 < length p" using False by simp
    then have "?f * 1024 < 268 * 1024" using less(5) m(1) by linarith
    then have f: "?f < 268" unfolding mult_less_cancel2 by simp
    have "nb (off + n1) \<le> nb (off + length p)" using n1(3) by (intro nb_mono) simp
    moreover have "nb off \<le> nb (off + n1)" by (intro nb_mono) simp
    ultimately have nbs: "nb (off + length p) - nb off = (nb (off + n1) - nb off) + (nb (off + length p) - nb (off + n1))" by simp
    note nd = need_bound [OF pre f n1(1,2)]
    have "unat (freeblock s) + need (img s) (D i) ?f \<le> 2000" using nd(1) less(6) nbs by linarith
    from mk_bmap_spec [OF ok i f this] obtain r where r: "mk_bmap ?f (D i) s = Ok r" "bmap_post i ?f D s (need (img s) (D i) ?f) r"
      by blast
    obtain x din1 s1 where "r = (x, din1, s1)" by (metis prod_cases3)
    with r have b: "mk_bmap ?f (D i) s = Ok (x, din1, s1)"
      and post: "tab_ok (img s1) (unat (freeblock s1)) (D(i := din1))" "ext (img s) D (img s1) (D(i := din1))" "fptr (img s1) din1 ?f = x"
        "x \<noteq> 0" "unat (freeblock s1) \<le> unat (freeblock s) + need (img s) (D i) ?f" "isize din1 = isize (D i)" "freeinode s1 = freeinode s"
      by (simp_all add: bmap_post_def)
    have "q \<noteq> [] \<and> off mod 1024 + length q \<le> 1024" using q n1(2) by simp
    then have q': "q \<noteq> []" "off mod 1024 + length q \<le> 1024" by blast+
    define im2 where "im2 = (img s1)[unat x := put_bytes (off - ?f * 1024) q (img s1 ! unat x)]"
    note st = store_piece [OF ok i f pre post(3,4,1,2) q' im2_def]
    define s2 where "s2 = s1\<lparr>img := im2\<rparr>"
    have s2: "append_post i D off q s din1 s2" using st(1-5) post(6,7) q(2) by (simp add: append_post_def s2_def)
    note t1 = tab_okD [OF post(1)]
    have xl: "unat x < 2000" using t1(4) t1(8) [OF i, of "slot ?f"] slot_less [OF f] post(3,4) by (simp add: fun_upd_same)
    have step: "iappend_loop (D i) off p s = iappend_loop ((D(i := din1)) i) (off + n1) (drop n1 p) s2"
      using False f b t1(1) xl
      by (subst iappend_loop.simps) (simp add: rsect_ok wsect_ok s2_def im2_def q_def n1_def Let_def)
    have "iaddrs (D i) ! 12 \<noteq> 0 \<Longrightarrow> iaddrs din1 ! 12 \<noteq> 0"
      using extD(2) [OF post(2) i, of 12] by (simp add: ptr_def)
    with nd(2) [of "img s1" din1] post(3,4) have "need (img s) (D i) ?f + ind din1 \<le> nb (off + n1) - nb off + ind (D i)" by blast
    then have room: "unat (freeblock s2) + (nb (off + length p) - nb (off + n1)) + ind din1 \<le> 2000"
      using post(5) less(6) nbs by (simp add: s2_def)
    have len: "off + n1 + length (drop n1 p) = off + length p" using n1(3) by simp
    have "\<exists>din s'. iappend_loop ((D(i := din1)) i) (off + n1) (drop n1 p) s2 = Ok (din, off + n1 + length (drop n1 p), s') \<and>
        append_post i (D(i := din1)) (off + n1) (drop n1 p) s2 din s'"
    proof (rule less(1))
      show "length (drop n1 p) < length p" using n1 by simp
      show "tab_ok (img s2) (unat (freeblock s2)) (D(i := din1))" using st(1) by (simp add: s2_def)
      show "present (img s2) ((D(i := din1)) i) (off + n1)" using st(3) q(2) by (simp add: s2_def)
    qed (use i less(5) room len in simp_all)
    then obtain din s' where "iappend_loop (D i) off p s = Ok (din, off + length p, s')"
      "append_post i (D(i := din1)) (off + length q) (drop n1 p) s2 din s'" unfolding step len q(2) by blast
    then show ?thesis using append_post_step [OF s2] q(3) by metis
  qed
qed

section \<open>The image\<close>

definition dtab :: "u8 list list \<Rightarrow> nat \<Rightarrow> dinode" where
  "dtab im i = get_dinode (im ! (32 + i div 16)) (i mod 16 * 64)"

text \<open>The contents of the file with inode number \<open>i\<close>.\<close>

definition file_data :: "u8 list list \<Rightarrow> nat \<Rightarrow> u8 list" where
  "file_data im i = map (fbyte im (dtab im i)) [0..<unat (isize (dtab im i))]"

definition image_ok :: "mkfs \<Rightarrow> bool" where
  "image_ok s \<longleftrightarrow> tab_ok (img s) (unat (freeblock s)) (dtab (img s)) \<and>
     (\<forall>i < 200. unat (isize (dtab (img s) i)) \<le> 268 * 1024 \<and> present (img s) (dtab (img s) i) (unat (isize (dtab (img s) i))))"

lemma IBLOCK_mk_sb: "unat n < 200 \<Longrightarrow> unat (IBLOCK n mk_sb) = 32 + unat n div 16"
  by (simp add: IBLOCK_def mk_sb_def nlogblocks_def unat_word_ariths unat_div_distrib)

lemma dinode_off_unat: "dinode_off n = unat n mod 16 * 64"
  by (simp add: dinode_off_def unat_mod_distrib)

lemma dtab_put:
  assumes "i < 200" "i' < 200" "length im = 2000" "length (im ! (32 + i div 16)) = 1024" "length (iaddrs x) = 13"
  shows "dtab (im[32 + i div 16 := put_dinode (i mod 16 * 64) x (im ! (32 + i div 16))]) i' = (if i' = i then x else dtab im i')"
proof -
  have b: "32 + i div 16 < length im" using assms(1,3) by simp
  have o: "i mod 16 * 64 + 64 \<le> 1024" using mod_less_divisor [of 16 i] by linarith
  show ?thesis
  proof (cases "i' div 16 = i div 16")
    case True
    then have "i' mod 16 = i mod 16 \<longleftrightarrow> i' = i" by (metis div_mult_mod_eq)
    moreover have "i' mod 16 * 64 + 64 \<le> i mod 16 * 64 \<or> i mod 16 * 64 + 64 \<le> i' mod 16 * 64" if "i' mod 16 \<noteq> i mod 16"
      using that by (cases "i' mod 16 < i mod 16") auto
    ultimately show ?thesis using True b o assms(4,5) by (auto simp: dtab_def get_put_dinode get_put_dinode_other)
  next
    case False
    then have "i' \<noteq> i" by auto
    then show ?thesis using False by (simp add: dtab_def)
  qed
qed

text \<open>Storing an inode.\<close>

lemma store_inode:
  assumes ok: "tab_ok im fb (D(i := din))" and D: "\<forall>i' < 200. D i' = dtab im i'" and i: "i < 200"
    and din': "iaddrs din' = iaddrs din" and im': "im' = im[32 + i div 16 := put_dinode (i mod 16 * 64) din' (im ! (32 + i div 16))]"
  shows "tab_ok im' fb (dtab im')" and "\<And>i'. i' < 200 \<Longrightarrow> dtab im' i' = (if i' = i then din' else D i')"
    and "\<And>i' j. i' < 200 \<Longrightarrow> ptr im' (dtab im' i') j = ptr im ((D(i := din)) i') j"
    and "\<And>b. 46 \<le> b \<Longrightarrow> im' ! b = im ! b"
proof -
  note t = tab_okD [OF ok]
  have b: "32 + i div 16 < 46" using i by simp
  have len: "length im = 2000" "length (im ! (32 + i div 16)) = 1024" using t(1,2) b by auto
  have a13: "length (iaddrs din') = 13" using t(6) [OF i] din' by simp
  show d: "dtab im' i' = (if i' = i then din' else D i')" if "i' < 200" for i'
    using dtab_put [OF i that len a13] D that by (simp add: im')
  show far: "im' ! k = im ! k" if "46 \<le> k" for k using that b by (simp add: im')
  have same: "iaddrs (dtab im' i') = iaddrs ((D(i := din)) i')" if "i' < 200" for i' using d [OF that] din' by simp
  show p: "ptr im' (dtab im' i') j = ptr im ((D(i := din)) i') j" if "i' < 200" for i' j
  proof -
    have "im' ! unat (iaddrs ((D(i := din)) i') ! 12) = im ! unat (iaddrs ((D(i := din)) i') ! 12)" if nz: "iaddrs ((D(i := din)) i') ! 12 \<noteq> 0"
    proof (rule far)
      have "ptr im ((D(i := din)) i') 12 = iaddrs ((D(i := din)) i') ! 12" by (simp add: ptr_def)
      then show "46 \<le> unat (iaddrs ((D(i := din)) i') ! 12)" using t(7) [OF \<open>i' < 200\<close>, of 12] nz by simp
    qed
    then show ?thesis unfolding ptr_def entry_def same [OF that] by simp
  qed
  show "tab_ok im' fb (dtab im')"
    unfolding tab_ok_def
  proof (intro conjI allI impI)
    show "length (im' ! k) = 1024" if "k < 2000" for k using t(2) [OF that] len b by (auto simp: im' nth_list_update)
    show "im' ! k = replicate 1024 0" if "k < 2000" "fb \<le> k" for k using far [of k] t(3) t(5) [OF that] that by simp
    show "length (iaddrs (dtab im' i1)) = 13" if "i1 < 200" for i1 unfolding same [OF that] by (rule t(6) [OF that])
    fix i1 j1 assume a: "i1 < 200" "j1 < 269" "ptr im' (dtab im' i1) j1 \<noteq> 0"
    then have a': "ptr im ((D(i := din)) i1) j1 \<noteq> 0" using p by simp
    show "46 \<le> unat (ptr im' (dtab im' i1) j1)" "unat (ptr im' (dtab im' i1) j1) < fb"
      unfolding p [OF a(1)] using t(7,8) [OF a(1,2) a'] by auto
    fix i2 j2 assume c: "i2 < 200" "j2 < 269" "ptr im' (dtab im' i1) j1 = ptr im' (dtab im' i2) j2"
    then have "i1 = i2 \<and> j1 = j2" using t(9) [OF a(1) c(1) a(2) c(2) a'] unfolding p [OF a(1)] p [OF c(1)] by blast
    then show "i1 = i2" "j1 = j2" by auto
  qed (use t len in \<open>auto simp: im'\<close>)
qed

lemma dtab_cong: "(\<And>b. b < 46 \<Longrightarrow> im' ! b = im ! b) \<Longrightarrow> i < 200 \<Longrightarrow> dtab im' i = dtab im i"
  by (simp add: dtab_def)

lemma rinode_dtab: "tab_ok (img s) fb D \<Longrightarrow> unat n < 200 \<Longrightarrow> rinode n s = Ok (dtab (img s) (unat n))"
  using tab_okD(1) [of "img s" fb D]
  by (simp add: rinode_def rsect_ok IBLOCK_mk_sb dtab_def dinode_off_unat)

lemma winode_img:
  assumes "tab_ok (img s) fb D" and "unat n < 200"
  shows "winode n x s = Ok (s\<lparr>img := (img s)[32 + unat n div 16 := put_dinode (unat n mod 16 * 64) x (img s ! (32 + unat n div 16))]\<rparr>)"
  using tab_okD(1) [OF assms(1)] assms(2)
  by (simp add: winode_def rsect_ok wsect_ok IBLOCK_mk_sb dinode_off_unat Let_def)

lemma div_1024_less: "o1 < (off :: nat) \<Longrightarrow> off \<le> 268 * 1024 \<Longrightarrow> o1 div 1024 < 268 \<and> o1 div 1024 * 1024 < off"
  using div_times_less_eq_dividend [of o1 1024] by (auto simp: less_mult_imp_div_less)

text \<open>After the last step of \<open>iappend\<close>, which stores the inode.\<close>

lemma image_after_append:
  assumes ok: "image_ok s" and i: "i < 200" and off: "off = unat (isize (dtab (img s) i))" and le: "off + length p \<le> 268 * 1024"
    and post: "append_post i (dtab (img s)) off p s din s1"
    and s': "s' = s1\<lparr>img := (img s1)[32 + i div 16 := put_dinode (i mod 16 * 64) (din\<lparr>isize := of_nat (off + length p)\<rparr>) (img s1 ! (32 + i div 16))]\<rparr>"
  shows "image_ok s' \<and> file_data (img s') i = file_data (img s) i @ p \<and> (\<forall>i' < 200. i' \<noteq> i \<longrightarrow> file_data (img s') i' = file_data (img s) i')"
proof -
  let ?D = "dtab (img s)" and ?im' = "img s'"
  let ?E = "?D(i := din)"
  have t1: "tab_ok (img s1) (unat (freeblock s1)) ?E" and ot: "others i ?D (img s) (img s1)" and pr: "present (img s1) din (off + length p)"
    and old: "\<And>o1. o1 < off \<Longrightarrow> fbyte (img s1) din o1 = fbyte (img s) (?D i) o1"
    and new: "\<And>o1. o1 < length p \<Longrightarrow> fbyte (img s1) din (off + o1) = p ! o1"
    using post by (simp_all add: append_post_def)
  have deq: "\<forall>i' < 200. ?D i' = dtab (img s1) i'" using dtab_cong [OF othersD(1) [OF ot]] by simp
  define din' where "din' = din\<lparr>isize := of_nat (off + length p)\<rparr>"
  have dn: "iaddrs din' = iaddrs din" "isize din' = of_nat (off + length p)" by (simp_all add: din'_def)
  have im': "?im' = (img s1)[32 + i div 16 := put_dinode (i mod 16 * 64) din' (img s1 ! (32 + i div 16))]" by (simp add: s' din'_def)
  note st = store_inode [where D = ?D, OF t1 deq i dn(1) im']
  have size: "unat (of_nat (off + length p) :: u32) = off + length p" unfolding unat_of_nat using le by (intro mod_less) simp
  have kept: "fbyte ?im' (dtab ?im' i') o1 = fbyte (img s1) (?E i') o1" if "i' < 200" "o1 div 1024 < 268" "fptr (img s1) (?E i') (o1 div 1024) \<noteq> 0" for i' o1
    using st(3,4) that tab_okD(7) [OF t1 that(1) _ that(3)] slot_less [OF that(2)] by (simp add: fbyte_def)
  have oth: "fptr (img s1) (?E i') k = fptr (img s) (?D i') k" "img s1 ! unat (fptr (img s) (?D i') k) = img s ! unat (fptr (img s) (?D i') k)"
    if "i' < 200" "i' \<noteq> i" "k < 268" "fptr (img s) (?D i') k \<noteq> 0" for i' k
    using othersD(2,3) [OF ot that(1,3,2,4)] that(2) by auto
  have szi: "isize (dtab ?im' i') = (if i' = i then of_nat (off + length p) else isize (?D i'))" if "i' < 200" for i' using st(2) [OF that] dn(2) by simp
  have okD: "unat (isize (?D i')) \<le> 268 * 1024" "present (img s) (?D i') (unat (isize (?D i')))" if "i' < 200" for i'
    using ok that by (simp_all add: image_ok_def)
  have "image_ok s'"
    unfolding image_ok_def
  proof (intro conjI allI impI)
    show "tab_ok ?im' (unat (freeblock s')) (dtab ?im')" using st(1) by (simp add: s')
    fix i' :: nat assume i': "i' < 200"
    show "unat (isize (dtab ?im' i')) \<le> 268 * 1024" using szi [OF i'] okD(1) [OF i'] le size by simp
    show "present ?im' (dtab ?im' i') (unat (isize (dtab ?im' i')))"
      using szi [OF i'] okD(2) [OF i'] pr size st(3) [OF i'] oth(1) [OF i'] by (cases "i' = i") (auto simp: present_def)
  qed
  moreover have "file_data ?im' i = file_data (img s) i @ p"
  proof (rule nth_equalityI)
    show "length (file_data ?im' i) = length (file_data (img s) i @ p)" using szi [OF i] size off by (simp add: file_data_def)
    fix o1 assume "o1 < length (file_data ?im' i)"
    then have o1: "o1 < off + length p" using szi [OF i] size by (simp add: file_data_def)
    note dl = div_1024_less [OF o1 le]
    have "file_data ?im' i ! o1 = fbyte (img s1) din o1"
      using kept [OF i, of o1] dl pr szi [OF i] size o1 by (simp add: file_data_def present_def)
    then show "file_data ?im' i ! o1 = (file_data (img s) i @ p) ! o1"
      using old [of o1] new [of "o1 - off"] o1 off by (cases "o1 < off") (auto simp: file_data_def nth_append)
  qed
  moreover have "file_data ?im' i' = file_data (img s) i'" if i': "i' < 200" "i' \<noteq> i" for i'
  proof -
    have "fbyte ?im' (dtab ?im' i') o1 = fbyte (img s) (?D i') o1" if o1: "o1 < unat (isize (?D i'))" for o1
    proof -
      note dl = div_1024_less [OF o1 okD(1) [OF i'(1)]]
      have nz: "fptr (img s) (?D i') (o1 div 1024) \<noteq> 0" using okD(2) [OF i'(1)] dl by (simp add: present_def)
      then show ?thesis using kept [OF i'(1), of o1] oth [OF i' _ nz] dl i'(2) by (simp add: fbyte_def)
    qed
    then show ?thesis using szi [OF i'(1)] i'(2) by (simp add: file_data_def)
  qed
  ultimately show ?thesis by blast
qed

text \<open>C37. \<open>mkfs\<close> builds correct files.  In an image whose inodes use disjoint blocks, with all unused blocks zero, appending
  to a file of an existing inode succeeds as long as the file stays below its maximal size and the image has enough blocks; the data is
  then at the end of that file, every other file has the contents it had, and the image still has its invariant, so that the blocks
  of direct and indirect pointers never overlap.\<close>

theorem iappend_appends:
  assumes "image_ok s" and "unat ino < 200" and "length (file_data (img s) (unat ino)) + length p \<le> 268 * 1024"
    and "unat (freeblock s) + (nb (length (file_data (img s) (unat ino)) + length p) - nb (length (file_data (img s) (unat ino)))) + 1 \<le> 2000"
  shows "\<exists>s'. iappend ino p s = Ok s' \<and> image_ok s' \<and> file_data (img s') (unat ino) = file_data (img s) (unat ino) @ p \<and>
    (\<forall>i < 200. i \<noteq> unat ino \<longrightarrow> file_data (img s') i = file_data (img s) i)"
proof -
  let ?D = "dtab (img s)" and ?i = "unat ino"
  define off where "off = unat (isize (?D ?i))"
  have len: "length (file_data (img s) ?i) = off" by (simp add: file_data_def off_def)
  have ok: "tab_ok (img s) (unat (freeblock s)) ?D" and pre: "present (img s) (?D ?i) off"
    using assms(1,2) by (simp_all add: image_ok_def off_def)
  have "ind (?D ?i) \<le> 1" by (simp add: ind_def)
  then have room: "unat (freeblock s) + (nb (off + length p) - nb off) + ind (?D ?i) \<le> 2000" using assms(4) unfolding len by linarith
  obtain din s1 where l: "iappend_loop (?D ?i) off p s = Ok (din, off + length p, s1)" "append_post ?i ?D off p s din s1"
    using iappend_loop_spec [OF ok assms(2) pre _ room] assms(3) len by auto
  have t1: "tab_ok (img s1) (unat (freeblock s1)) (?D(?i := din))" using l(2) by (simp add: append_post_def)
  have "iappend ino p s = Ok (s1\<lparr>img := (img s1)[32 + ?i div 16 := put_dinode (?i mod 16 * 64) (din\<lparr>isize := of_nat (off + length p)\<rparr>) (img s1 ! (32 + ?i div 16))]\<rparr>)"
    using rinode_dtab [OF ok assms(2)] l(1) winode_img [OF t1 assms(2)] unfolding iappend_def by (simp add: off_def)
  moreover note image_after_append [OF assms(1,2) off_def _ l(2) refl]
  ultimately show ?thesis using assms(3) len by simp
qed

text \<open>An image without files.\<close>

definition blank_image :: mkfs where
  "blank_image = \<lparr>img = replicate 2000 (replicate 1024 0), freeinode = 1, freeblock = 46\<rparr>"

lemma get_zero: "k + 4 \<le> 1024 \<Longrightarrow> get32 (replicate 1024 0) k = 0" "k + 2 \<le> 1024 \<Longrightarrow> get16 (replicate 1024 0) k = 0"
  by (simp_all add: get32_def get16_def)

lemma blank_dtab: "i < 200 \<Longrightarrow> dtab (img blank_image) i = \<lparr>itype = 0, imajor = 0, iminor = 0, nlink = 0, isize = 0, iaddrs = replicate 13 0\<rparr>"
proof -
  assume i: "i < 200"
  have o: "i mod 16 * 64 + 64 \<le> 1024" using mod_less_divisor [of 16 i] by linarith
  have "32 + i div 16 < 2000" using i by simp
  then have "dtab (img blank_image) i = get_dinode (replicate 1024 0) (i mod 16 * 64)" by (simp add: dtab_def blank_image_def)
  also have "\<dots> = \<lparr>itype = 0, imajor = 0, iminor = 0, nlink = 0, isize = 0, iaddrs = replicate 13 0\<rparr>"
    unfolding get_dinode_def using o
    by (intro dinode.equality) (auto simp: get_zero intro!: nth_equalityI simp del: upt_Suc)
  finally show ?thesis .
qed

lemma blank_image_ok: "image_ok blank_image"
proof -
  have p: "ptr (img blank_image) (dtab (img blank_image) i) j = 0" if "i < 200" for i j
    using blank_dtab [OF that] by (simp add: ptr_def entry_def)
  show ?thesis
    unfolding image_ok_def tab_ok_def using p by (simp add: blank_dtab present_def) (simp add: blank_image_def)
qed

theorem iappend_appends_witness:
  "\<exists>s'. iappend 1 [1, 2, 3] blank_image = Ok s' \<and> file_data (img s') 1 = [1, 2, 3]"
proof -
  have "file_data (img blank_image) 1 = []" by (simp add: file_data_def blank_dtab)
  moreover have "unat (freeblock blank_image) = 46" by (simp add: blank_image_def)
  ultimately show ?thesis using iappend_appends [OF blank_image_ok, of 1 "[1, 2, 3]"] by (auto simp: nb_def)
qed

section \<open>The bitmap\<close>

lemma mk_bitmap_step: "mk_bitmap (Suc n) = (mk_bitmap n)[n div 8 := mk_bitmap n ! (n div 8) OR bitmask n]"
  by (simp add: mk_bitmap_def bitmask_def)

lemma length_mk_bitmap [simp]: "length (mk_bitmap n) = 1024"
  by (induction n) (simp_all add: mk_bitmap_step, simp add: mk_bitmap_def)

lemma bit_bitmask: "bit (bitmask i) k \<longleftrightarrow> k = i mod 8"
  by (auto simp: bitmask_def bit_exp_iff possible_bit_def)

lemma bit_mk_bitmap: "n \<le> 8192 \<Longrightarrow> i < 8192 \<Longrightarrow> bit (mk_bitmap n ! (i div 8)) (i mod 8) \<longleftrightarrow> i < n"
proof (induction n)
  case 0
  then show ?case by (simp add: mk_bitmap_def less_mult_imp_div_less)
next
  case (Suc n)
  have "n div 8 < 1024" using Suc(2) by simp
  moreover have "i = n \<longleftrightarrow> i div 8 = n div 8 \<and> i mod 8 = n mod 8" by (metis div_mult_mod_eq)
  ultimately show ?case using Suc
    by (auto simp: mk_bitmap_step nth_list_update bit_or_iff bit_bitmask less_Suc_eq)
qed

lemma and_bitmask: "x AND bitmask i = 0 \<longleftrightarrow> \<not> bit x (i mod 8)"
proof -
  have "x AND bitmask i = (if bit x (i mod 8) then bitmask i else 0)"
    by (rule bit_word_eqI) (auto simp: bit_and_iff bit_bitmask)
  moreover have "bitmask i \<noteq> 0"
  proof -
    have "bit (bitmask i) (i mod 8)" by (simp add: bit_bitmask)
    then show ?thesis by (metis bit_0_eq bot_apply bot_bool_def)
  qed
  ultimately show ?thesis by simp
qed

lemma free_bit_first:
  "m \<le> n \<Longrightarrow> n < N \<Longrightarrow> n < lim \<Longrightarrow> \<forall>i < N. d ! (i div 8) AND bitmask i = 0 \<longleftrightarrow> n \<le> i \<Longrightarrow> free_bit d [m..<N] 0 lim = Some n"
proof (induction "n - m" arbitrary: m)
  case 0
  then show ?case by (simp add: upt_conv_Cons)
next
  case (Suc k)
  then have "free_bit d [m..<N] 0 lim = free_bit d [Suc m..<N] 0 lim" by (simp add: upt_conv_Cons)
  then show ?case using Suc(1) [of "Suc m"] Suc(2-) by simp
qed

text \<open>C38. The bitmap of \<open>mkfs\<close> is right for the kernel.  With fewer than \<open>BPB\<close> blocks in use, \<open>balloc\<close> of \<open>mkfs\<close> writes the block
  that the kernel reads for every block number of the image, the kernel's test says \<open>in use\<close> for exactly the blocks below
  \<open>used\<close>, and the kernel's first allocation takes block \<open>used\<close>, if the image has one.\<close>

theorem mkfs_bitmap:
  assumes "used < 8192" and "length (img s) = 2000"
  shows "\<exists>s'. mk_balloc used s = Ok s' \<and> (\<forall>b. unat b < 2000 \<longrightarrow> img s' ! unat (BBLOCK b mk_sb) = mk_bitmap used) \<and>
    (\<forall>i < 8192. mk_bitmap used ! (i div 8) AND bitmask i \<noteq> 0 \<longleftrightarrow> i < used) \<and>
    (used < lim \<longrightarrow> free_bit (mk_bitmap used) [0..<8192] 0 lim = Some used)"
proof -
  have sb: "sb_bmapstart mk_sb = 45" by (simp add: mk_sb_def nlogblocks_def ninodeblocks_def)
  have w: "mk_balloc used s = Ok (s\<lparr>img := (img s)[45 := mk_bitmap used]\<rparr>)"
    using assms wsect_ok [of "45" s] by (simp add: mk_balloc_def sb)
  have b: "unat (BBLOCK b mk_sb) = 45" if "unat b < 2000" for b
    using that by (simp add: BBLOCK_def sb unat_word_ariths unat_div_distrib)
  have u: "mk_bitmap used ! (i div 8) AND bitmask i = 0 \<longleftrightarrow> used \<le> i" if "i < 8192" for i
    unfolding and_bitmask using bit_mk_bitmap [OF _ that, of used] assms(1) by (simp add: not_less)
  then have "free_bit (mk_bitmap used) [0..<8192] 0 lim = Some used" if "used < lim"
    using that assms(1) by (intro free_bit_first) simp_all
  then show ?thesis using w b u assms(2) by (intro exI [of _ "s\<lparr>img := (img s)[45 := mk_bitmap used]\<rparr>"]) (simp add: not_le)
qed

theorem mkfs_bitmap_witness:
  "\<exists>s'. mk_balloc 47 blank_image = Ok s' \<and> free_bit (img s' ! 45) [0..<8192] 0 2000 = Some 47"
proof -
  have b: "unat (BBLOCK 0 mk_sb) = 45" by (simp add: BBLOCK_def mk_sb_def nlogblocks_def ninodeblocks_def)
  have "length (img blank_image) = 2000" by (simp add: blank_image_def)
  then obtain s' where s': "mk_balloc 47 blank_image = Ok s'" "\<forall>b. unat b < 2000 \<longrightarrow> img s' ! unat (BBLOCK b mk_sb) = mk_bitmap 47"
    "free_bit (mk_bitmap 47) [0..<8192] 0 2000 = Some 47"
    using mkfs_bitmap [of 47 blank_image 2000] by auto
  then have "img s' ! 45 = mk_bitmap 47" using s'(2) [rule_format, of 0] b by simp
  then show ?thesis using s' by (intro exI [of _ s']) (simp only:)
qed

end
