(* ===== verification/Spec2Isabelle.thy ===== *)
theory Spec2Isabelle
  imports Stride Lottery Boot Recovery Asm Grep Utils Umalloc Shround Mkimg
begin

text \<open>
  \<^bold>\<open>A verification of xv6 with lottery and stride scheduling.\<close>

  The program is the xv6 kernel for RISC-V (\<open>src/kernel\<close>), extended by two schedulers and a system
  call \<open>fork(class)\<close>, with its user programs (\<open>src/user\<close>) and the builder of its disk image
  (\<open>src/mkfs\<close>).  The development follows the layers of the
  kernel.  Each theory models one part in the order of its source file: the structures are records,
  the enumerations datatypes, and each C function is one definition (a loop with a body of its own is
  a second one).  The theorems are next to the definitions they speak about.

  \<^bold>\<open>State.\<close>  The kernel state is one extensible record, to which every component adds its static
  variables: \<open>mach\<close> (harts and spin locks, \<open>Spinlock\<close>), \<open>phys\<close> (memory and free list, \<open>Kalloc\<close>), \<open>vm\<close>
  (\<open>Vm\<close>), \<open>conout\<close> (\<open>Printf\<close>), \<open>ptab\<close> (process table, \<open>Proctab\<close>), \<open>slk\<close> (\<open>Sleeplock\<close>), \<open>vdisk\<close> (\<open>Virtio\<close>),
  \<open>log_state\<close> (\<open>Log\<close>), \<open>fs\<close> (\<open>Fs\<close>), \<open>uart\<close> (\<open>Uart\<close>), \<open>cons\<close> (\<open>Console\<close>), \<open>files\<close> (\<open>Pipe\<close>), \<open>clock\<close> (\<open>Syscall\<close>),
  \<open>traps\<close> (\<open>Trap\<close>), \<open>booting\<close> (\<open>Boot\<close>).  A routine is a function on every extension of the part it uses.

  \<^bold>\<open>Results.\<close>  A routine yields \<open>Ok\<close> with its value and the new state, \<open>Panic\<close> with the message of
  \<open>panic()\<close>, \<open>Spin\<close> when it waits for something that no other step of this hart provides, or \<open>Undef\<close>
  where C leaves the behaviour open (an access outside an array, a null pointer, an overflow of \<open>int\<close> in
  \<open>atoi\<close>).  \<open>bindR\<close> of \<open>Prelude\<close>
  composes them.  The calls that sleep in the middle (\<open>pipewrite\<close>, \<open>consoleread\<close>, \<open>wait\<close>, \<dots>) end in
  \<open>Wait\<close> at their call of \<open>sleep\<close>; a second definition, \<open>_resume\<close>, goes on from there, and
  the state in between is arbitrary.

  \<^bold>\<open>Machine.\<close>  Addresses, page-table entries, counters that wrap around and the arguments and results of
  system calls are \<open>64 word\<close>, \<open>32 word\<close> and \<open>8 word\<close>.  A few \<open>int\<close>s of the code that stay small are
  read as numbers: the depth \<open>noff\<close> of \<open>push_off\<close> (the theorem on nesting has the bound as a hypothesis), the
  counters of the log, which \<open>LOGSIZE\<close> bounds, and the reference counts of files and inodes; the loop of
  \<open>memset\<close> is meant for less than \<open>2 ^ 31\<close> bytes.  Memory is a function from addresses to bytes; page tables and
  the free list of pages live in it.

  \<^bold>\<open>Devices.\<close>  They are not part of the source: the disk, the UART status bits, the clock and the address
  translation are functions in the state or parameters, with what the drivers rely on as hypotheses.  Accesses to
  device registers that change nothing in this state are left out: polling the UART in \<open>uartputc_sync\<close>, reading
  \<open>ISR\<close> in \<open>uartstart\<close>, acknowledging the interrupt in \<open>virtio_disk_intr\<close>.  Waiting for the disk runs the device
  and its interrupt handler in line (\<open>await_disk\<close>), and waiting for a sleep lock that is taken is \<open>Spin\<close>.

  \<^bold>\<open>Parts and what is shown.\<close>

  \<^item> \<open>Prelude\<close>, \<open>Ring\<close>, \<open>Bytes\<close>: results, loops, counters that wrap around; a ring buffer indexed by
    such counters is a first-in first-out queue (locale \<open>ring\<close>, interpreted for the UART, the console
    and the pipes).
  \<^item> \<open>Spinlock\<close> (\<open>spinlock.c\<close>): the interrupt nesting of \<open>push_off\<close> and \<open>pop_off\<close>; misuse panics; an
    \<open>inductive\<close> relation interleaves the single accesses of several harts to one lock and keeps mutual exclusion.
  \<^item> \<open>Memory\<close> (\<open>string.c\<close>, \<open>riscv.h\<close>, \<open>memlayout.h\<close>), \<open>Cstring\<close>: overlapping \<open>memmove\<close>, page-table
    entries.
  \<^item> \<open>Kalloc\<close> (\<open>kalloc.c\<close>): the free list refines a stack of pages.
  \<^item> \<open>Vm\<close>, \<open>Paging\<close> (\<open>vm.c\<close>): a page table read as a function on virtual addresses; \<open>copyin\<close> and
    \<open>copyout\<close> described by the user memory it maps, failures included.
  \<^item> \<open>Printf\<close> (\<open>printf.c\<close>), \<open>Uart\<close> (\<open>uart.c\<close>), \<open>Console\<close> (\<open>console.c\<close>): output is a queue of bytes;
    line editing.
  \<^item> \<open>Proctab\<close>, \<open>Process\<close>, \<open>Exec\<close> (\<open>proc.c\<close>, \<open>exec.c\<close>): processes from creation to end.
  \<^item> \<open>Scheduler\<close>, \<open>Stride\<close>, \<open>Lottery\<close> (\<open>proc.c\<close>): both schedulers; shares of the CPU, starvation and its
    absence.
  \<^item> \<open>Sleeplock\<close>, \<open>Virtio\<close>, \<open>Bio\<close>, \<open>Blocks\<close> (\<open>sleeplock.c\<close>, \<open>virtio_disk.c\<close>, \<open>bio.c\<close>): a request moves one
    block; the cache always gives the contents of the disk; \<open>Blocks\<close> is the view of the cache that its
    clients use.
  \<^item> \<open>Log\<close>, \<open>Recovery\<close> (\<open>log.c\<close>): a commit is atomic with respect to crashes; the order of its writes; the
    branches of \<open>log_write\<close>; the reservation of \<open>begin_op\<close> exceeds the log by one block.
  \<^item> \<open>Fs\<close>, \<open>File\<close>, \<open>Pipe\<close>, \<open>Sysfile\<close> (\<open>fs.c\<close>, \<open>file.c\<close>, \<open>pipe.c\<close>, \<open>sysfile.c\<close>): files, directories, pipes
    and their system calls.
  \<^item> \<open>Syscall\<close>, \<open>Trap\<close>, \<open>Asm\<close>, \<open>Boot\<close> (\<open>syscall.c\<close>, \<open>sysproc.c\<close>, \<open>trap.c\<close>, \<open>plic.c\<close>, the assembly files,
    \<open>start.c\<close>, \<open>main.c\<close>): from the trap to the system call and back; registers survive traps and switches;
    the cache and the disk driver are ready after their set-up in \<open>main\<close>.
  \<^item> \<open>Ulib\<close> (\<open>ulib.c\<close>, \<open>user/printf.c\<close>): the library of the user programs over a record of system calls, which is a
    parameter; numbers that are printed and read back.
  \<^item> \<open>Grep\<close> (\<open>grep.c\<close>), \<open>Utils\<close> (\<open>cat.c\<close>, \<open>wc.c\<close>, \<open>echo.c\<close>, \<open>rm.c\<close>, \<open>mkdir.c\<close>, \<open>ln.c\<close>, \<open>kill.c\<close>, \<open>ls.c\<close>): the
    matcher decides the language of the pattern; \<open>grep\<close> prints the matching lines, however they are read.
  \<^item> \<open>Umalloc\<close> (\<open>umalloc.c\<close>): the circular free list; blocks and free pieces stay disjoint.
  \<^item> \<open>Shell\<close>, \<open>Shparse\<close>, \<open>Shround\<close> (\<open>sh.c\<close>, \<open>init.c\<close>, \<open>zombie.c\<close>): the parsers end on every line, what they accept is
    well formed, and a command that is printed is read back.
  \<^item> \<open>Mkfs\<close>, \<open>Mkimg\<close> (\<open>mkfs.c\<close>): files are appended without touching each other, and the bitmap agrees with the tests
    of the kernel.

  \<^bold>\<open>One thread at a time.\<close>  Apart from the interleaving model of the spin lock, a theorem follows one
  kernel thread on one hart.  The hypothesis \<open>calm\<close> or \<open>quiet\<close> says that the locks it takes are free
  and that the hart is in a consistent state; \<open>settle\<close> and \<open>at_mach\<close> describe the hart after a
  critical section.

  \<^bold>\<open>Fuel.\<close>  The two searches of the buffer list follow pointers and get \<open>NBUF + 1\<close> steps, enough for a
  ring of \<open>NBUF\<close> buffers and its head; \<open>freewalk\<close> descends 3 levels, the depth of a page table; the
  receive loop of the UART makes one step more than there are bytes.  The parsers of the shell get
  \<open>sh_fuel s = 4 * length s + 4\<close> nested calls, and \<open>parsecmd_well_formed\<close> shows that no line needs more.  Loops that
  only their input ends (\<open>grep\<close>, \<open>cat\<close>, the searches of \<open>malloc\<close>, \<dots>) are partial functions with value \<open>None\<close>
  if they never return; for \<open>grep\<close> and \<open>malloc\<close> it is shown that they do.  All other loops end by a measure or by
  structural recursion.

  \<^bold>\<open>Not modelled.\<close>  The test programs (\<open>usertests.c\<close>, \<open>grind.c\<close>, \<open>forktest.c\<close>, \<open>stressfs.c\<close>, \<open>testP.c\<close>,
  \<open>testS.c\<close>), which exercise the kernel but are not part of it.  The accessors of control registers in \<open>riscv.h\<close>, which are single
  instructions.  The prototypes of \<open>defs.h\<close> and \<open>user.h\<close>, the linker scripts and the stubs that \<open>usys.pl\<close>
  generates.
\<close>

end
